(* ===== verification/Rai_Prelude.thy ===== *)
theory Rai_Prelude
  imports Main "HOL-Library.Word" "HOL-Library.Monad_Syntax"
begin

text \<open>
  Shared vocabulary of the development: the machine types of the node
  (\<open>uint8_t\<close>, \<open>uint64_t\<close>, and the 128, 256 and 512 bit numbers), the collections of
  simplification rules the component theories fill and use, the model of \<open>assert\<close>
  (an aborting computation is \<open>None\<close>), and generic lemmas on words as byte strings and on
  sums over finite maps.
\<close>

unbundle bit_operations_syntax

section \<open>Machine types\<close>

type_synonym byte = "8 word"
type_synonym u16 = "16 word"
type_synonym u32 = "32 word"
type_synonym u64 = "64 word"
type_synonym u128 = "128 word"
type_synonym u256 = "256 word"
type_synonym u512 = "512 word"

named_theorems codec_simps \<open>reading back what was written\<close>
named_theorems width_simps \<open>number of bytes an encoding takes\<close>
named_theorems store_simps \<open>reading a table after it was written\<close>
named_theorems eval_simps \<open>definitions unfolded to evaluate a concrete input\<close>

section \<open>Assertions\<close>

text \<open>
  A computation that hits a failing \<open>assert\<close> (or dereferences a null pointer) has no
  result: operations that can do so return an \<open>option\<close>, and \<open>None\<close> is the abort.
\<close>

definition assert_that :: "bool \<Rightarrow> unit option" where
  "assert_that P = (if P then Some () else None)"

lemma assert_that_True [simp]: "assert_that True = Some ()"
  by (simp add: assert_that_def)

lemma assert_that_False [simp]: "assert_that False = None"
  by (simp add: assert_that_def)

lemma assert_that_Some_iff [simp]: "assert_that P = Some u \<longleftrightarrow> P"
  by (simp add: assert_that_def)

lemma assert_that_bind [simp]:
  "(assert_that P \<bind> f) = (if P then f () else None)"
  by (simp add: assert_that_def)

lemma bind_Some_iff:
  "((m :: 'a option) \<bind> f) = Some y \<longleftrightarrow> (\<exists>x. m = Some x \<and> f x = Some y)"
  by (cases m) simp_all

section \<open>Words as byte strings\<close>

text \<open>Least significant byte first.\<close>

primrec le_bytes :: "nat \<Rightarrow> 'a::len word \<Rightarrow> byte list" where
  "le_bytes 0 w = []"
| "le_bytes (Suc n) w = ucast w # le_bytes n (drop_bit 8 w)"

primrec le_word :: "byte list \<Rightarrow> 'a::len word" where
  "le_word [] = 0"
| "le_word (b # bs) = ucast b OR push_bit 8 (le_word bs)"

lemma length_le_bytes [simp]: "length (le_bytes n w) = n"
  by (induction n arbitrary: w) simp_all

lemma take_bit_byte_split:
  "take_bit 8 w OR push_bit 8 (take_bit m (drop_bit 8 w)) = take_bit (8 + m) (w :: 'a::len word)"
  by (rule bit_eqI) (auto simp: bit_simps)

lemma ucast_ucast_byte: "(ucast (ucast w :: byte) :: 'a::len word) = take_bit 8 w"
  by (rule bit_word_eqI) (auto simp: bit_simps)

lemma le_word_le_bytes: "le_word (le_bytes n w) = take_bit (8 * n) (w :: 'a::len word)"
proof (induction n arbitrary: w)
  case 0
  then show ?case by simp
next
  case (Suc n)
  have "le_word (le_bytes (Suc n) w) = take_bit 8 w OR push_bit 8 (take_bit (8 * n) (drop_bit 8 w))"
    by (simp add: Suc ucast_ucast_byte)
  also have "\<dots> = take_bit (8 + 8 * n) w"
    by (rule take_bit_byte_split)
  finally show ?case by (simp add: algebra_simps)
qed

lemma le_word_bound:
  "8 * length bs \<le> LENGTH('a) \<Longrightarrow> take_bit (8 * length bs) (le_word bs) = (le_word bs :: 'a::len word)"
proof (induction bs)
  case Nil
  then show ?case by simp
next
  case (Cons b bs)
  have *: "take_bit (8 * length bs) (le_word bs) = (le_word bs :: 'a word)"
    using Cons by simp
  show ?case
  proof (rule bit_word_eqI)
    fix n assume "n < LENGTH('a)"
    show "bit (take_bit (8 * length (b # bs)) (le_word (b # bs) :: 'a word)) n
        \<longleftrightarrow> bit (le_word (b # bs) :: 'a word) n"
    proof (cases "n < 8 * length (b # bs)")
      case True then show ?thesis by (simp add: bit_simps)
    next
      case False
      then have "\<not> bit (take_bit (8 * length bs) (le_word bs) :: 'a word) (n - 8)" "8 \<le> n"
        by (auto simp: bit_simps)
      then have "\<not> bit (le_word bs :: 'a word) (n - 8)" by (simp add: *)
      with False show ?thesis
        by (auto simp: bit_simps dest: bit_imp_le_length)
    qed
  qed
qed

lemma le_bytes_le_word:
  "8 * length bs \<le> LENGTH('a) \<Longrightarrow> le_bytes (length bs) (le_word bs :: 'a::len word) = bs"
proof (induction bs)
  case Nil
  then show ?case by simp
next
  case (Cons b bs)
  let ?w = "le_word bs :: 'a word"
  have len: "8 \<le> LENGTH('a)" "8 * length bs + 8 \<le> LENGTH('a)" using Cons.prems by simp_all
  have 1: "ucast (ucast b OR push_bit 8 ?w) = b"
    using len by (intro bit_word_eqI) (auto simp: bit_simps)
  have tb: "take_bit (8 * length bs) ?w = ?w"
    using len by (intro le_word_bound) simp
  have 2: "drop_bit 8 (ucast b OR push_bit 8 ?w) = ?w"
  proof (rule bit_word_eqI)
    fix n assume "n < LENGTH('a)"
    have hi: "\<not> bit ?w n" if "8 * length bs \<le> n"
      using that by (subst tb [symmetric]) (simp add: bit_simps)
    show "bit (drop_bit 8 (ucast b OR push_bit 8 ?w)) n \<longleftrightarrow> bit ?w n"
      using len hi by (cases "8 * length bs \<le> n") (auto simp: bit_simps dest: bit_imp_le_length)
  qed
  show ?case using 1 2 Cons by simp
qed

text \<open>Most significant byte first.\<close>

definition be_bytes :: "nat \<Rightarrow> 'a::len word \<Rightarrow> byte list" where
  "be_bytes n w = rev (le_bytes n w)"

definition be_word :: "byte list \<Rightarrow> 'a::len word" where
  "be_word bs = le_word (rev bs)"

lemma length_be_bytes [simp]: "length (be_bytes n w) = n"
  by (simp add: be_bytes_def)

lemma be_word_be_bytes: "LENGTH('a) \<le> 8 * n \<Longrightarrow> be_word (be_bytes n w) = (w :: 'a::len word)"
  by (simp add: be_word_def be_bytes_def le_word_le_bytes take_bit_word_eq_self)

lemma be_bytes_be_word:
  "length bs = n \<Longrightarrow> 8 * n \<le> LENGTH('a) \<Longrightarrow> be_bytes n (be_word bs :: 'a::len word) = bs"
  using le_bytes_le_word [of "rev bs", where 'a = 'a] by (simp add: be_word_def be_bytes_def)

section \<open>Sums over finite maps\<close>

definition msum :: "('v \<Rightarrow> 'w::comm_monoid_add) \<Rightarrow> ('k \<rightharpoonup> 'v) \<Rightarrow> 'w" where
  "msum f m = (\<Sum>k \<in> dom m. f (the (m k)))"

lemma msum_empty [simp]: "msum f Map.empty = 0"
  by (simp add: msum_def)

lemma msum_insert:
  assumes "finite (dom m)" "m k = None"
  shows "msum f (m(k \<mapsto> v)) = f v + msum f m"
proof -
  have "k \<notin> dom m" using assms by auto
  then have "(\<Sum>x \<in> dom m. f (the ((m(k \<mapsto> v)) x))) = (\<Sum>x \<in> dom m. f (the (m x)))"
    by (intro sum.cong) auto
  with assms \<open>k \<notin> dom m\<close> show ?thesis by (simp add: msum_def)
qed

lemma msum_remove:
  assumes "finite (dom m)" "m k = Some v"
  shows "msum f m = f v + msum f (m(k := None))"
proof -
  have "msum f ((m(k := None))(k \<mapsto> v)) = f v + msum f (m(k := None))"
    using assms by (intro msum_insert) auto
  moreover have "(m(k := None))(k \<mapsto> v) = m" using assms by auto
  ultimately show ?thesis by simp
qed

lemma msum_replace:
  assumes "finite (dom m)" "m k = Some v"
  shows "msum f (m(k \<mapsto> v')) + f v = msum f m + f v'"
proof -
  have "msum f ((m(k := None))(k \<mapsto> v')) = f v' + msum f (m(k := None))"
    using assms by (intro msum_insert) auto
  moreover have "msum f m = f v + msum f (m(k := None))"
    using assms by (rule msum_remove)
  ultimately show ?thesis by (simp add: ac_simps)
qed

lemma msum_cong: "(\<And>k v. m k = Some v \<Longrightarrow> f v = g v) \<Longrightarrow> msum f m = msum g m"
  unfolding msum_def by (rule sum.cong) auto

lemma msum_member_le:
  fixes f :: "'v \<Rightarrow> nat"
  assumes "finite (dom m)" "m k = Some v"
  shows "f v \<le> msum f m"
  using msum_remove [OF assms, of f] by simp

lemma finite_dom_upd [simp]: "finite (dom (m(k := v))) \<longleftrightarrow> finite (dom m)"
  by (cases v) (simp_all add: dom_fun_upd)

text \<open>A sum of words does not wrap when the sum of their values fits.\<close>

lemma unat_sum_words:
  fixes f :: "'k \<Rightarrow> 'a::len word"
  assumes "finite A" "(\<Sum>x\<in>A. unat (f x)) < 2 ^ LENGTH('a)"
  shows "unat (\<Sum>x\<in>A. f x) = (\<Sum>x\<in>A. unat (f x))"
  using assms
proof (induction A)
  case empty
  then show ?case by simp
next
  case (insert x A)
  then have "unat (f x) + (\<Sum>y\<in>A. unat (f y)) < 2 ^ LENGTH('a)" by simp
  with insert show ?case by (simp add: unat_plus_simple [THEN iffD1] unat_word_ariths)
qed

lemma unat_msum:
  fixes f :: "'v \<Rightarrow> 'a::len word"
  assumes "finite (dom m)" "msum (\<lambda>v. unat (f v)) m < 2 ^ LENGTH('a)"
  shows "unat (msum f m) = msum (\<lambda>v. unat (f v)) m"
  using assms unfolding msum_def by (intro unat_sum_words) simp_all

section \<open>Words of numbers that fit\<close>

lemma unat_of_nat_fits: "m < 2 ^ LENGTH('a::len) \<Longrightarrow> unat (of_nat m :: 'a word) = m"
  by (simp add: unat_of_nat)

lemma ucast_of_nat_fits:
  assumes "m < 2 ^ LENGTH('a::len)"
  shows "(ucast (of_nat m :: 'a word) :: 'b::len word) = of_nat m"
proof -
  have "(of_nat (unat (of_nat m :: 'a word)) :: 'b word) = ucast (of_nat m :: 'a word)" by (rule of_nat_unat)
  then show ?thesis by (simp only: unat_of_nat_fits [OF assms])
qed

lemma drop_bit_of_nat_fits:
  assumes "m < 2 ^ LENGTH('a::len)"
  shows "drop_bit k (of_nat m :: 'a word) = of_nat (m div 2 ^ k)"
proof (rule word_unat_eq_iff [THEN iffD2])
  have "m div 2 ^ k < 2 ^ LENGTH('a)" using assms by (rule le_less_trans [OF div_le_dividend])
  then show "unat (drop_bit k (of_nat m :: 'a word)) = unat (of_nat (m div 2 ^ k) :: 'a word)"
    by (simp only: unat_drop_bit_eq unat_of_nat_fits assms drop_bit_eq_div [where 'a = nat])
qed

lemma and_mask_of_nat: "(of_nat m :: 'a::len word) AND mask k = of_nat (m mod 2 ^ k)"
proof -
  have "(of_nat m :: 'a word) AND mask k = of_nat (take_bit k m)"
    by (simp only: take_bit_eq_mask [symmetric] take_bit_of_nat)
  then show ?thesis by (simp only: take_bit_eq_mod)
qed

section \<open>Invariants of step relations\<close>

locale step_invariant =
  fixes step :: "'s \<Rightarrow> 's \<Rightarrow> bool" and holds :: "'s \<Rightarrow> bool"
  assumes kept: "holds s \<Longrightarrow> step s s' \<Longrightarrow> holds s'"
begin

lemma run_kept: "step\<^sup>*\<^sup>* s s' \<Longrightarrow> holds s \<Longrightarrow> holds s'"
  by (induction rule: rtranclp_induct) (auto intro: kept)

end

end
