(* ===== verification/Rai_Numbers.thy ===== *)
theory Rai_Numbers
  imports Rai_Prelude
begin

text \<open>
  The number types of \<^verbatim>\<open>src/rai/lib/numbers.hpp\<close> and \<^verbatim>\<open>numbers.cpp\<close>. A value of
  \<open>uint128_union\<close>, \<open>uint256_union\<close> or \<open>uint512_union\<close> is identified with the
  number that its \<open>number ()\<close> returns; its byte array is the big-endian image of that
  number, and the loops that convert between the two are modelled and shown to be inverse.
  The account text encoding is in \<open>Rai_Account_Text\<close>.

  The hash and signature primitives of \<^verbatim>\<open>src/blake2\<close> and \<^verbatim>\<open>src/ed25519-donna\<close> and the
  network the binary was built for are the fields of \<open>rai_env\<close>, an argument of every
  definition that uses them.
\<close>

section \<open>The environment\<close>

datatype rai_networks = Rai_test_network | Rai_beta_network | Rai_live_network

record rai_env =
  blake2b :: "nat \<Rightarrow> byte list \<Rightarrow> byte list"
  ed25519_sign_open :: "byte list \<Rightarrow> byte list \<Rightarrow> byte list \<Rightarrow> int"
  ed25519_sign :: "byte list \<Rightarrow> byte list \<Rightarrow> byte list \<Rightarrow> byte list"
  rai_network :: rai_networks

section \<open>Numbers and their byte arrays\<close>

text \<open>The constructor from a number: bytes are written from the last one backwards.\<close>

primrec union_bytes_loop :: "nat \<Rightarrow> 'a::len word \<Rightarrow> byte list \<Rightarrow> byte list" where
  "union_bytes_loop 0 number_l acc = acc"
| "union_bytes_loop (Suc n) number_l acc =
     union_bytes_loop n (drop_bit 8 number_l) (ucast (number_l AND 0xff) # acc)"

text \<open>\<open>number ()\<close>: shift by 0 the first time and by 8 afterwards, then or the byte in.\<close>

definition union_number_step :: "'a::len word \<times> nat \<Rightarrow> byte \<Rightarrow> 'a word \<times> nat" where
  "union_number_step = (\<lambda>(result, shift) b. (push_bit shift result OR ucast b, 8))"

definition union_number :: "byte list \<Rightarrow> 'a::len word" where
  "union_number bytes = fst (foldl union_number_step (0, 0) bytes)"

definition uint128_bytes :: "u128 \<Rightarrow> byte list" where
  "uint128_bytes x = union_bytes_loop 16 x []"

definition uint256_bytes :: "u256 \<Rightarrow> byte list" where
  "uint256_bytes x = union_bytes_loop 32 x []"

definition uint512_bytes :: "u512 \<Rightarrow> byte list" where
  "uint512_bytes x = union_bytes_loop 64 x []"

definition uint128_number :: "byte list \<Rightarrow> u128" where
  "uint128_number bytes = union_number bytes"

definition uint256_number :: "byte list \<Rightarrow> u256" where
  "uint256_number bytes = union_number bytes"

definition uint512_number :: "byte list \<Rightarrow> u512" where
  "uint512_number bytes = union_number bytes"

lemma union_bytes_loop_be: "union_bytes_loop n w acc = be_bytes n w @ acc"
proof (induction n arbitrary: w acc)
  case 0
  then show ?case by (simp add: be_bytes_def)
next
  case (Suc n)
  have "ucast (w AND 0xff) = (ucast w :: byte)"
  proof -
    have "w AND 0xff = take_bit 8 w" by (simp add: take_bit_eq_mask mask_numeral)
    then show ?thesis by (intro bit_word_eqI) (auto simp: bit_simps)
  qed
  then show ?case by (simp add: Suc be_bytes_def)
qed

lemma foldl_union_number_step:
  "fst (foldl union_number_step (r, 8) bs) = foldl (\<lambda>r b. push_bit 8 r OR ucast b) r bs"
  by (induction bs arbitrary: r) (simp_all add: union_number_step_def)

lemma union_number_be: "union_number bs = (be_word bs :: 'a::len word)"
proof -
  have aux: "foldl (\<lambda>r b. push_bit 8 r OR ucast b) 0 bs = (le_word (rev bs) :: 'a word)" for bs
    by (induction bs rule: rev_induct) (simp_all add: or.commute)
  show ?thesis
  proof (cases bs)
    case Nil
    then show ?thesis by (simp add: union_number_def be_word_def)
  next
    case (Cons b bs')
    then have "(union_number bs :: 'a word) = foldl (\<lambda>r b. push_bit 8 r OR ucast b) (ucast b) bs'"
      by (simp add: union_number_def union_number_step_def flip: foldl_union_number_step)
    also have "\<dots> = foldl (\<lambda>r b. push_bit 8 r OR ucast b) 0 bs"
      by (simp add: Cons)
    finally show ?thesis by (simp add: aux be_word_def)
  qed
qed

lemmas union_defs =
  uint128_bytes_def uint256_bytes_def uint512_bytes_def
  uint128_number_def uint256_number_def uint512_number_def
  union_bytes_loop_be union_number_be

lemma uint_bytes_length [simp, width_simps]:
  "length (uint128_bytes x) = 16" "length (uint256_bytes y) = 32" "length (uint512_bytes z) = 64"
  by (simp_all add: union_defs)

lemma uint_number_bytes [simp, codec_simps]:
  "uint128_number (uint128_bytes x) = x"
  "uint256_number (uint256_bytes y) = y"
  "uint512_number (uint512_bytes z) = z"
  by (simp_all add: union_defs be_word_be_bytes)

lemma uint_bytes_number [simp, codec_simps]:
  "length a = 16 \<Longrightarrow> uint128_bytes (uint128_number a) = a"
  "length b = 32 \<Longrightarrow> uint256_bytes (uint256_number b) = b"
  "length c = 64 \<Longrightarrow> uint512_bytes (uint512_number c) = c"
  by (simp_all add: union_defs be_bytes_be_word)

text \<open>
  The comparison and xor operators work on the four 64 bit lanes of the byte array. On a
  little-endian host lane \<open>i\<close> holds bytes \<open>8 i \<dots> 8 i + 7\<close>, least significant first.
\<close>

primrec lanes :: "nat \<Rightarrow> byte list \<Rightarrow> u64 list" where
  "lanes 0 bs = []"
| "lanes (Suc n) bs = le_word (take 8 bs) # lanes n (drop 8 bs)"

definition uint256_qwords :: "u256 \<Rightarrow> u64 list" where
  "uint256_qwords x = lanes 4 (uint256_bytes x)"

definition uint256_of_qwords :: "u64 list \<Rightarrow> u256" where
  "uint256_of_qwords qs = uint256_number (concat (map (le_bytes 8) qs))"

definition uint256_is_zero :: "u256 \<Rightarrow> bool" where
  "uint256_is_zero x \<longleftrightarrow> uint256_qwords x ! 0 = 0 \<and> uint256_qwords x ! 1 = 0
     \<and> uint256_qwords x ! 2 = 0 \<and> uint256_qwords x ! 3 = 0"

definition uint256_xor :: "u256 \<Rightarrow> u256 \<Rightarrow> u256" where
  "uint256_xor x y = uint256_of_qwords (map2 (XOR) (uint256_qwords x) (uint256_qwords y))"

lemma concat_lanes: "length bs = 8 * n \<Longrightarrow> concat (map (le_bytes 8) (lanes n bs)) = bs"
proof (induction n arbitrary: bs)
  case 0
  then show ?case by simp
next
  case (Suc n)
  have "le_bytes (length (take 8 bs)) (le_word (take 8 bs) :: u64) = take 8 bs"
    by (rule le_bytes_le_word) simp
  moreover have "length (take 8 bs) = 8" using Suc.prems by simp
  ultimately have "le_bytes 8 (le_word (take 8 bs) :: u64) = take 8 bs" by metis
  with Suc show ?case by simp
qed

lemma uint256_of_qwords_qwords: "uint256_of_qwords (uint256_qwords x) = x"
  by (simp add: uint256_of_qwords_def uint256_qwords_def concat_lanes)

lemma le_bytes_xor: "le_bytes n (v XOR w) = map2 (XOR) (le_bytes n v) (le_bytes n w)"
proof (induction n arbitrary: v w)
  case 0
  then show ?case by simp
next
  case (Suc n)
  have "(ucast (v XOR w) :: byte) = ucast v XOR ucast w"
    by (rule bit_word_eqI) (auto simp: bit_simps)
  moreover have "drop_bit 8 (v XOR w) = drop_bit 8 v XOR drop_bit 8 w"
    by simp
  ultimately show ?case by (simp add: Suc)
qed

lemma map2_append:
  "length a = length c \<Longrightarrow> map2 f (a @ b) (c @ d) = map2 f a c @ map2 f b d"
  by simp

lemma concat_map2_xor:
  "length ps = length qs \<Longrightarrow>
    concat (map (le_bytes n) (map2 (XOR) ps qs))
      = map2 (XOR) (concat (map (le_bytes n) ps)) (concat (map (le_bytes n) qs))"
  by (induction ps qs rule: list_induct2) (simp_all add: le_bytes_xor)

lemma length_lanes [simp]: "length (lanes n bs) = n"
  by (induction n arbitrary: bs) simp_all

lemma be_bytes_xor: "be_bytes n (v XOR w) = map2 (XOR) (be_bytes n v) (be_bytes n w)"
  by (simp add: be_bytes_def le_bytes_xor rev_map zip_rev)

lemma uint256_xor_eq: "uint256_xor x y = x XOR y"
proof -
  have "concat (map (le_bytes 8) (map2 (XOR) (uint256_qwords x) (uint256_qwords y)))
      = map2 (XOR) (uint256_bytes x) (uint256_bytes y)"
    by (subst concat_map2_xor) (simp_all add: uint256_qwords_def concat_lanes)
  also have "\<dots> = uint256_bytes (x XOR y)"
    by (simp add: uint256_bytes_def union_bytes_loop_be be_bytes_xor)
  finally show ?thesis
    by (simp add: uint256_xor_def uint256_of_qwords_def)
qed

lemma qwords_list: "uint256_qwords x = [uint256_qwords x ! 0, uint256_qwords x ! 1,
    uint256_qwords x ! 2, uint256_qwords x ! 3]"
  by (simp add: uint256_qwords_def numeral_eq_Suc)

lemma uint256_is_zero_iff [simp]: "uint256_is_zero x \<longleftrightarrow> x = 0"
proof
  assume "uint256_is_zero x"
  then have "uint256_qwords x = [0, 0, 0, 0]"
    by (subst qwords_list) (simp add: uint256_is_zero_def)
  moreover have "uint256_qwords 0 = [0, 0, 0, 0]"
    by (simp add: uint256_qwords_def uint256_bytes_def numeral_eq_Suc)
  ultimately show "x = 0" by (metis uint256_of_qwords_qwords)
next
  assume "x = 0"
  then show "uint256_is_zero x"
    by (simp add: uint256_is_zero_def uint256_qwords_def uint256_bytes_def numeral_eq_Suc)
qed

section \<open>Signatures and deterministic keys\<close>

text \<open>\<open>validate_message\<close> returns true when the signature is \<^emph>\<open>not\<close> valid.\<close>

definition sign_message :: "rai_env \<Rightarrow> u256 \<Rightarrow> u256 \<Rightarrow> u256 \<Rightarrow> u512" where
  "sign_message E private_key public_key message =
     uint512_number (ed25519_sign E (uint256_bytes message) (uint256_bytes private_key) (uint256_bytes public_key))"

definition validate_message :: "rai_env \<Rightarrow> u256 \<Rightarrow> u256 \<Rightarrow> u512 \<Rightarrow> bool" where
  "validate_message E public_key message sig \<longleftrightarrow>
     0 \<noteq> ed25519_sign_open E (uint256_bytes message) (uint256_bytes public_key) (uint512_bytes sig)"

definition deterministic_key :: "rai_env \<Rightarrow> u256 \<Rightarrow> u32 \<Rightarrow> u256" where
  "deterministic_key E seed index_a =
     uint256_number (blake2b E 32 (uint256_bytes seed @ drop 28 (uint256_bytes (ucast index_a))))"

end
