(* ===== verification/Rai_Account_Text.thy ===== *)
theory Rai_Account_Text
  imports Rai_Numbers
begin

text \<open>
  The text form of an account (\<^verbatim>\<open>src/rai/lib/numbers.cpp\<close>, \<open>encode_account\<close> and
  \<open>decode_account\<close>): the 256 bit number followed by a 40 bit check value, written as sixty
  base 32 digits behind a prefix. A \<open>char\<close> is the source's \<open>char\<close>; the lookup strings are the
  source's.

  Shown are the round trip for the four prefixes the decoder takes, that on texts over the
  account alphabet the decoder accepts nothing but the encoding of its result, and that outside
  the alphabet it does accept other texts.
\<close>

section \<open>Digits\<close>

definition account_lookup :: string where
  "account_lookup = ''13456789abcdefghijkmnopqrstuwxyz''"

definition account_reverse :: string where
  "account_reverse = ''~0~1234567~~~~~~~~~~~~~~~~~~~~~~~~~~~~~~~~~~~~~~~89:;<=>?@AB~CDEFGHIJK~LMNO~~~~~''"

definition account_encode :: "byte \<Rightarrow> char option" where
  "account_encode v = do { assert_that (v < 32); Some (account_lookup ! unat v) }"

definition account_decode :: "char \<Rightarrow> byte option" where
  "account_decode c = do {
     assert_that ((0x30 :: nat) \<le> of_char c);
     assert_that (of_char c \<le> (0x7e :: nat));
     Some (of_char (account_reverse ! (of_char c - 0x30)) - 0x30) }"

section \<open>Encoding and decoding\<close>

text \<open>The check value: five digest bytes stored over the low bytes of a zero \<open>uint64_t\<close>.\<close>

definition account_check :: "rai_env \<Rightarrow> u256 \<Rightarrow> u64" where
  "account_check E this = le_word (blake2b E 5 (uint256_bytes this))"

primrec encode_account_loop :: "nat \<Rightarrow> u512 \<Rightarrow> string \<Rightarrow> string option" where
  "encode_account_loop 0 number_l destination = Some destination"
| "encode_account_loop (Suc n) number_l destination = do {
     c \<leftarrow> account_encode (ucast (number_l AND 0x1f));
     encode_account_loop n (drop_bit 5 number_l) (destination @ [c]) }"

definition encode_account :: "rai_env \<Rightarrow> u256 \<Rightarrow> string \<Rightarrow> string option" where
  "encode_account E this destination = do {
     assert_that (destination = []);
     destination \<leftarrow> encode_account_loop 60 (push_bit 40 (ucast this) OR ucast (account_check E this)) destination;
     Some (rev (destination @ ''_brx'')) }"

definition to_account :: "rai_env \<Rightarrow> u256 \<Rightarrow> string option" where
  "to_account E this = encode_account E this []"

definition to_account_split :: "rai_env \<Rightarrow> u256 \<Rightarrow> string option" where
  "to_account_split E this = do {
     result \<leftarrow> to_account E this;
     assert_that (length result = 64);
     Some (take 32 result @ [CHR 0x0A] @ drop 32 result) }"

text \<open>
  The digit loop: \<open>Some None\<close> is the error exit. The decoder returns its error flag and the new
  contents of the object it is called on, which a text with a wrong check value overwrites too.
\<close>

fun decode_account_loop :: "string \<Rightarrow> u512 \<Rightarrow> u512 option option" where
  "decode_account_loop [] number_l = Some (Some number_l)"
| "decode_account_loop (c # cs) number_l =
    (let character = of_char c :: nat in
     if character < 0x30 \<or> 0x80 \<le> character then Some None
     else do {
       byte \<leftarrow> account_decode c;
       if byte = 0x7e then Some None
       else decode_account_loop cs (push_bit 5 number_l + ucast byte) })"

definition xrb_prefix :: "string \<Rightarrow> bool" where
  "xrb_prefix s \<longleftrightarrow> s ! 0 = CHR ''x'' \<and> s ! 1 = CHR ''r'' \<and> s ! 2 = CHR ''b''
     \<and> (s ! 3 = CHR ''_'' \<or> s ! 3 = CHR ''-'')"

definition nano_prefix :: "string \<Rightarrow> bool" where
  "nano_prefix s \<longleftrightarrow> s ! 0 = CHR ''n'' \<and> s ! 1 = CHR ''a'' \<and> s ! 2 = CHR ''n'' \<and> s ! 3 = CHR ''o''
     \<and> (s ! 4 = CHR ''_'' \<or> s ! 4 = CHR ''-'')"

definition decode_account :: "rai_env \<Rightarrow> u256 \<Rightarrow> string \<Rightarrow> (bool \<times> u256) option" where
  "decode_account E this source_a =
    (if length source_a < 5 then Some (True, this)
     else if (xrb_prefix source_a \<and> length source_a \<noteq> 64) \<or> (nano_prefix source_a \<and> length source_a \<noteq> 65)
     then Some (True, this)
     else if xrb_prefix source_a \<or> nano_prefix source_a then
       (let i = (if xrb_prefix source_a then 4 else 5) in
        if source_a ! i = CHR ''1'' \<or> source_a ! i = CHR ''3'' then
          case decode_account_loop (drop i source_a) 0 of
            None \<Rightarrow> None
          | Some None \<Rightarrow> Some (True, this)
          | Some (Some number_l) \<Rightarrow>
              (let this = ucast (drop_bit 40 number_l);
                   check = ucast (number_l AND 0xffffffffff)
               in Some (check \<noteq> account_check E this, this))
        else Some (True, this))
     else Some (True, this))"

section \<open>The digits as numbers\<close>

text \<open>The value of a character the decoder takes, and of a string of them in base 32.\<close>

definition digit_value :: "char \<Rightarrow> nat" where
  "digit_value c = unat (of_char (account_reverse ! (of_char c - 0x30)) - 0x30 :: byte)"

definition digits_value :: "nat \<Rightarrow> string \<Rightarrow> nat" where
  "digits_value = foldl (\<lambda>n c. 32 * n + digit_value c)"

definition account_char :: "char \<Rightarrow> bool" where
  "account_char c \<longleftrightarrow> c \<in> set account_lookup"

definition readable_char :: "char \<Rightarrow> bool" where
  "readable_char c \<longleftrightarrow> 0x30 \<le> (of_char c :: nat) \<and> (of_char c :: nat) \<le> 0x7e"

primrec digits_text :: "nat \<Rightarrow> nat \<Rightarrow> string" where
  "digits_text 0 m = []"
| "digits_text (Suc k) m = digits_text k (m div 32) @ [account_lookup ! (m mod 32)]"

definition account_prefixes :: "string list" where
  "account_prefixes = [''xrb_'', ''xrb-'', ''nano_'', ''nano-'']"

lemma lookup_readable: "list_all readable_char account_lookup"
  by (simp add: account_lookup_def readable_char_def)

lemma lookup_values: "map digit_value account_lookup = [0..<32]"
  by (simp add: account_lookup_def digit_value_def upt_rec account_reverse_def)

lemma reverse_table: "list_all (\<lambda>c. unat (of_char c - 0x30 :: byte) < 79) account_reverse"
  by code_simp

lemma length_account_lookup: "length account_lookup = 32"
  by (simp add: account_lookup_def)

lemma lookup_digit:
  assumes "v < 32"
  shows "digit_value (account_lookup ! v) = v" "readable_char (account_lookup ! v)"
proof -
  have "map digit_value account_lookup ! v = v" using assms unfolding lookup_values by simp
  then show "digit_value (account_lookup ! v) = v" using assms by (simp add: length_account_lookup)
  show "readable_char (account_lookup ! v)"
    using lookup_readable assms by (simp add: list_all_length length_account_lookup)
qed

lemma account_charE:
  assumes "account_char c"
  obtains v where "v < 32" "c = account_lookup ! v"
  using assms that by (auto simp: account_char_def in_set_conv_nth length_account_lookup)

lemma account_char_lookup: "v < 32 \<Longrightarrow> account_char (account_lookup ! v)"
  unfolding account_char_def by (rule nth_mem) (simp add: length_account_lookup)

lemma account_char_value:
  assumes "account_char c"
  shows "digit_value c < 32" "readable_char c" "account_lookup ! digit_value c = c"
  using assms by (auto elim!: account_charE simp: lookup_digit)

lemma readable_value:
  assumes "readable_char c"
  shows "digit_value c < 79" "account_decode c = Some (of_nat (digit_value c))"
proof -
  have "of_char c - 0x30 \<le> (126 - 0x30 :: nat)"
    using assms unfolding readable_char_def by (intro diff_le_mono) (erule conjunct2)
  then have "account_reverse ! (of_char c - 0x30) \<in> set account_reverse"
    by (intro nth_mem) (simp add: account_reverse_def)
  then show "digit_value c < 79" using reverse_table by (simp add: digit_value_def list_all_iff)
  have "of_nat (digit_value c) = (of_char (account_reverse ! (of_char c - 0x30)) - 0x30 :: byte)"
    unfolding digit_value_def by (simp only: of_nat_unat ucast_id)
  then show "account_decode c = Some (of_nat (digit_value c))"
    using assms unfolding account_decode_def readable_char_def by (simp only: assert_that_bind if_True)
qed

text \<open>
  No readable character has the value the loop takes for an error, so the loop is the evaluation
  of its digits.
\<close>

lemma decode_account_loop_value:
  "list_all readable_char cs \<Longrightarrow>
     decode_account_loop cs (of_nat n) = Some (Some (of_nat (digits_value n cs)))"
proof (induction cs arbitrary: n)
  case Nil
  then show ?case by (simp add: digits_value_def)
next
  case (Cons c cs)
  let ?d = "digit_value c"
  have c: "readable_char c" using Cons.prems by simp
  have fits: "?d < 2 ^ LENGTH(8)" using readable_value(1) [OF c] by simp
  have d: "(of_nat ?d :: byte) \<noteq> 0x7e"
  proof
    assume "(of_nat ?d :: byte) = 0x7e"
    then have "unat (of_nat ?d :: byte) = unat (0x7e :: byte)" by (rule arg_cong)
    then show False using readable_value(1) [OF c] by (simp add: unat_of_nat_fits [OF fits])
  qed
  have step: "push_bit 5 (of_nat n) + ucast (of_nat ?d :: byte) = (of_nat (32 * n + ?d) :: u512)"
    by (simp add: ucast_of_nat_fits [OF fits] push_bit_eq_mult)
  have range: "\<not> ((of_char c :: nat) < 0x30 \<or> 0x80 \<le> (of_char c :: nat))"
    using c by (simp add: readable_char_def)
  show ?case
    using Cons.IH [of "32 * n + ?d"] Cons.prems d range step
    by (simp add: readable_value(2) [OF c] digits_value_def)
qed

lemma digits_value_snoc: "digits_value n (cs @ [c]) = 32 * digits_value n cs + digit_value c"
  by (simp add: digits_value_def)

lemma digits_value_bound: "list_all account_char cs \<Longrightarrow> digits_value 0 cs < 32 ^ length cs"
proof (induction cs rule: rev_induct)
  case Nil
  then show ?case by (simp add: digits_value_def)
next
  case (snoc c cs)
  then have "digits_value 0 cs + 1 \<le> 32 ^ length cs" "digit_value c < 32"
    by (auto simp: account_char_value)
  then show ?case by (simp add: digits_value_snoc)
qed

lemma digits_value_readable_bound:
  "list_all readable_char cs \<Longrightarrow> digits_value 0 cs + 3 \<le> 3 * 32 ^ length cs"
proof (induction cs rule: rev_induct)
  case Nil
  then show ?case by (simp add: digits_value_def)
next
  case (snoc c cs)
  then have "digits_value 0 cs + 3 \<le> 3 * 32 ^ length cs" "digit_value c < 79"
    by (auto simp: readable_value)
  then show ?case by (simp add: digits_value_snoc)
qed

lemma digits_text_props:
  "length (digits_text k m) = k" "list_all account_char (digits_text k m)"
  "list_all readable_char (digits_text k m)"
  by (induction k arbitrary: m) (simp_all add: account_char_lookup lookup_digit)

lemma digits_value_text: "digits_value 0 (digits_text k m) = m mod 32 ^ k"
proof (induction k arbitrary: m)
  case 0
  then show ?case by (simp add: digits_value_def)
next
  case (Suc k)
  then show ?case
    by (simp add: digits_value_snoc lookup_digit mod_mult2_eq add.commute mult.commute)
qed

lemma digits_text_value: "list_all account_char cs \<Longrightarrow> digits_text (length cs) (digits_value 0 cs) = cs"
proof (induction cs rule: rev_induct)
  case Nil
  then show ?case by simp
next
  case (snoc c cs)
  then have "digit_value c < 32" "account_lookup ! digit_value c = c" by (simp_all add: account_char_value)
  with snoc show ?case by (simp add: digits_value_snoc)
qed

lemma encode_account_loop_text:
  "m < 2 ^ 512 \<Longrightarrow> encode_account_loop k (of_nat m) dest = Some (dest @ rev (digits_text k m))"
proof (induction k arbitrary: m dest)
  case 0
  then show ?case by simp
next
  case (Suc k)
  have fits: "m < 2 ^ LENGTH(512)" using Suc.prems by simp
  have small: "m mod 32 < 2 ^ LENGTH(512)" "m mod 32 < 2 ^ LENGTH(8)" "m mod 32 < 32"
    by (simp_all add: less_le_trans [OF mod_less_divisor])
  have "(of_nat m AND 0x1f :: u512) = of_nat (m mod 32)"
    using and_mask_of_nat [of m 5, where 'a = 512] by (simp add: mask_numeral)
  then have low: "ucast (of_nat m AND 0x1f :: u512) = (of_nat (m mod 32) :: byte)"
    by (simp only: ucast_of_nat_fits [OF small(1)])
  have "unat (of_nat (m mod 32) :: byte) = m mod 32" by (rule unat_of_nat_fits [OF small(2)])
  then have enc: "account_encode (ucast (of_nat m AND 0x1f :: u512)) = Some (account_lookup ! (m mod 32))"
    using small(3) by (simp only: low account_encode_def word_less_nat_alt) simp
  have shift: "drop_bit 5 (of_nat m :: u512) = of_nat (m div 32)"
    using drop_bit_of_nat_fits [OF fits, of 5] by simp
  have "m div 32 < 2 ^ 512" using Suc.prems by (rule le_less_trans [OF div_le_dividend])
  then show ?case using Suc.IH [of "m div 32"] by (simp only: encode_account_loop.simps enc shift) simp
qed


section \<open>The encoder and the decoder on numbers\<close>

text \<open>The number behind the sixty digits: the account above, the check value in the low 40 bits.\<close>

definition account_number :: "rai_env \<Rightarrow> u256 \<Rightarrow> nat" where
  "account_number E a = unat a * 2 ^ 40 + unat (account_check E a)"

definition check_fits :: "rai_env \<Rightarrow> bool" where
  "check_fits E \<longleftrightarrow> (\<forall>m. length (blake2b E 5 m) = 5)"

lemma account_check_bound: "check_fits E \<Longrightarrow> unat (account_check E a) < 2 ^ 40"
proof -
  assume "check_fits E"
  then have len: "length (blake2b E 5 (uint256_bytes a)) = 5" by (simp add: check_fits_def)
  have "take_bit (8 * 5) (account_check E a) = account_check E a"
    using le_word_bound [of "blake2b E 5 (uint256_bytes a)", where 'a = 64] len
    by (simp add: account_check_def)
  then have "unat (account_check E a) = take_bit 40 (unat (account_check E a))"
    using unsigned_take_bit_eq [of 40 "account_check E a", where 'a = nat] by simp
  then show ?thesis by (metis take_bit_nat_less_exp)
qed

lemma account_number_bound:
  assumes "check_fits E"
  shows "account_number E a < 2 ^ 296"
proof -
  have "unat a + 1 \<le> 2 ^ 256" using unsigned_less [of a, where 'a = nat] by simp
  then have "(unat a + 1) * 2 ^ 40 \<le> 2 ^ 256 * 2 ^ 40" by (rule mult_le_mono1)
  with account_check_bound [OF assms, of a] show ?thesis by (simp add: account_number_def)
qed

lemma encode_number:
  assumes "check_fits E"
  shows "push_bit 40 (ucast a) OR ucast (account_check E a) = (of_nat (account_number E a) :: u512)"
proof -
  let ?c = "account_check E a"
  have c: "(ucast ?c :: u512) = of_nat (unat ?c)" and a: "(ucast a :: u512) = of_nat (unat a)"
    by (simp_all only: of_nat_unat)
  have low: "unat ?c = take_bit 40 (unat ?c)"
    using account_check_bound [OF assms, of a] by (simp only: take_bit_nat_eq_self)
  have t: "take_bit 40 (ucast ?c :: u512) = ucast ?c"
    unfolding c using low by (simp only: take_bit_of_nat)
  have "push_bit 40 (ucast a) AND take_bit 40 (ucast ?c :: u512) = 0"
    by (rule bit_eqI) (auto simp: bit_simps)
  then have "push_bit 40 (ucast a) OR ucast ?c = push_bit 40 (ucast a) + (ucast ?c :: u512)"
    unfolding t by (rule disjunctive_add_eq_or [symmetric])
  then show ?thesis unfolding account_number_def c a by (simp add: push_bit_eq_mult)
qed

lemma encode_account_text:
  assumes "check_fits E"
  shows "encode_account E a [] = Some (''xrb_'' @ digits_text 60 (account_number E a))"
proof -
  have "account_number E a < 2 ^ 512"
    by (rule less_trans [OF account_number_bound [OF assms]]) simp
  then have "encode_account_loop 60 (of_nat (account_number E a)) [] =
      Some (rev (digits_text 60 (account_number E a)))"
    using encode_account_loop_text [of "account_number E a" 60 "[]"] by simp
  then show ?thesis by (simp only: encode_account_def encode_number [OF assms]) simp
qed

lemma account_prefix_cases:
  assumes "p \<in> set account_prefixes" "length s = 60"
  shows "(if xrb_prefix (p @ s) then 4 else 5) = length p" "xrb_prefix (p @ s) \<or> nano_prefix (p @ s)"
    "\<not> (length (p @ s) < 5)"
    "\<not> ((xrb_prefix (p @ s) \<and> length (p @ s) \<noteq> 64) \<or> (nano_prefix (p @ s) \<and> length (p @ s) \<noteq> 65))"
  using assms by (auto simp: account_prefixes_def xrb_prefix_def nano_prefix_def)

lemma decode_account_text:
  assumes "p \<in> set account_prefixes" "length s = 60" "list_all readable_char s"
  shows "decode_account E this (p @ s) =
    (if s ! 0 = CHR ''1'' \<or> s ! 0 = CHR ''3''
     then let v = digits_value 0 s; a = of_nat (v div 2 ^ 40)
          in Some (of_nat (v mod 2 ^ 40) \<noteq> account_check E a, a)
     else Some (True, this))"
proof -
  let ?v = "digits_value 0 s"
  have loop: "decode_account_loop s 0 = Some (Some (of_nat ?v))"
    using decode_account_loop_value [OF assms(3), of 0] by simp
  have "?v + 3 \<le> 3 * 32 ^ 60" using digits_value_readable_bound [OF assms(3)] assms(2) by simp
  moreover have "(3 * 32 ^ 60 :: nat) < 2 ^ LENGTH(512)" by simp
  ultimately have fits: "?v < 2 ^ LENGTH(512)" by linarith
  have small: "?v div 2 ^ 40 < 2 ^ LENGTH(512)" "?v mod 2 ^ 40 < 2 ^ LENGTH(512)"
    using fits by (rule le_less_trans [OF div_le_dividend], rule le_less_trans [OF mod_less_eq_dividend])
  have high: "(ucast (drop_bit 40 (of_nat ?v :: u512)) :: u256) = of_nat (?v div 2 ^ 40)"
    by (simp only: drop_bit_of_nat_fits [OF fits] ucast_of_nat_fits [OF small(1)])
  have mask: "(0xffffffffff :: u512) = mask 40" by (simp add: mask_numeral)
  have low: "(ucast ((of_nat ?v :: u512) AND 0xffffffffff) :: u64) = of_nat (?v mod 2 ^ 40)"
    by (simp only: mask and_mask_of_nat ucast_of_nat_fits [OF small(2)])
  have first: "(p @ s) ! length p = s ! 0" using assms(2) by (simp add: nth_append)
  note pre = account_prefix_cases [OF assms(1,2)]
  show ?thesis
    unfolding decode_account_def Let_def pre(1) first append_eq_conv_conj
    by (simp only: pre(2-4) if_True if_False append_eq_conv_conj append_eq_append_conv drop_append
        diff_self_eq_0 drop_0 append_Nil loop option.case high low drop_all order_refl)
qed

section \<open>Round trip and uniqueness\<close>

lemma digits_text_first: "digits_text (Suc k) m ! 0 = account_lookup ! ((m div 32 ^ k) mod 32)"
proof (induction k arbitrary: m)
  case 0
  then show ?case by simp
next
  case (Suc k)
  have "digits_text (Suc (Suc k)) m ! 0 = digits_text (Suc k) (m div 32) ! 0"
    by (simp only: digits_text.simps(2) [of "Suc k"]) (simp add: nth_append digits_text_props)
  also have "\<dots> = account_lookup ! ((m div 32 div 32 ^ k) mod 32)" by (rule Suc)
  finally show ?case by (simp add: div_mult2_eq)
qed

lemma account_number_parts:
  assumes "check_fits E"
  shows "of_nat (account_number E a div 2 ^ 40) = a"
    "of_nat (account_number E a mod 2 ^ 40) = account_check E a"
  using account_check_bound [OF assms, of a] by (simp_all add: account_number_def)

lemma lookup_first: "v < 2 \<Longrightarrow> account_lookup ! v = CHR ''1'' \<or> account_lookup ! v = CHR ''3''"
  by (auto simp: account_lookup_def less_2_cases_iff)

lemma account_number_first:
  assumes "m < 2 ^ 296"
  shows "digits_text 60 m ! 0 = CHR ''1'' \<or> digits_text 60 m ! 0 = CHR ''3''"
proof -
  have "m div 32 ^ 59 < 2" using assms by (intro less_mult_imp_div_less) simp
  then have "(m div 32 ^ 59) mod 32 < 2" by simp
  then show ?thesis using digits_text_first [of 59 m] lookup_first by simp
qed

lemma decode_encoded:
  assumes fits: "check_fits E" and "p \<in> set account_prefixes"
  shows "decode_account E this (p @ digits_text 60 (account_number E a)) = Some (False, a)"
proof -
  let ?m = "account_number E a"
  have b: "?m < 2 ^ 296" by (rule account_number_bound [OF fits])
  have "?m < 32 ^ 60" by (rule less_trans [OF b]) simp
  then have v: "digits_value 0 (digits_text 60 ?m) = ?m" by (simp only: digits_value_text mod_less)
  show ?thesis
    using account_number_first [OF b]
    by (simp only: decode_account_text [OF assms(2) digits_text_props(1,3)] v Let_def
        account_number_parts [OF fits] if_True simp_thms)
qed

text \<open>A text is accepted only behind one of the four prefixes, with sixty readable characters.\<close>

lemma decode_account_loop_readable:
  "decode_account_loop cs n = Some (Some v) \<Longrightarrow> list_all readable_char cs"
proof (induction cs arbitrary: n)
  case Nil
  then show ?case by simp
next
  case (Cons c cs)
  then show ?case
    by (auto simp: readable_char_def account_decode_def Let_def bind_Some_iff split: if_splits)
qed

lemma decode_account_accepts:
  assumes "decode_account E this t = Some (False, a)"
  obtains p s where "p \<in> set account_prefixes" "t = p @ s" "length s = 60" "list_all readable_char s"
    "s ! 0 = CHR ''1'' \<or> s ! 0 = CHR ''3''"
proof -
  let ?i = "if xrb_prefix t then 4 else 5 :: nat"
  have t: "5 \<le> length t" "xrb_prefix t \<or> nano_prefix t" "xrb_prefix t \<longrightarrow> length t = 64"
      "nano_prefix t \<longrightarrow> length t = 65" "t ! ?i = CHR ''1'' \<or> t ! ?i = CHR ''3''"
      "\<exists>v. decode_account_loop (drop ?i t) 0 = Some (Some v)"
    using assms by (auto simp: decode_account_def Let_def split: if_splits option.splits)
  have p: "take ?i t \<in> set account_prefixes"
    using t(1,2) by (auto simp: account_prefixes_def xrb_prefix_def nano_prefix_def list_eq_iff_nth_eq
        nth_Cons' less_Suc_eq numeral_eq_Suc)
  show thesis
    using t p decode_account_loop_readable
    by (intro that [of "take ?i t" "drop ?i t"]) (auto split: if_splits)
qed

lemma first_digit_bound:
  assumes "s ! 0 = CHR ''1'' \<or> s ! 0 = CHR ''3''" "length s = Suc k" "list_all account_char s"
  shows "digits_value 0 s < 2 * 32 ^ k"
proof -
  have "digits_value 0 s div 32 ^ k < 2"
  proof -
    have "s ! 0 = account_lookup ! ((digits_value 0 s div 32 ^ k) mod 32)"
      using digits_text_first [of k "digits_value 0 s"] digits_text_value [OF assms(3)] assms(2) by simp
    moreover have "digits_value 0 s div 32 ^ k < 32"
      using digits_value_bound [OF assms(3)] assms(2) by (simp add: div_less_iff_less_mult)
    moreover have "digit_value (CHR ''1'') = 0" "digit_value (CHR ''3'') = 1"
      using lookup_digit(1) [of 0] lookup_digit(1) [of 1] by (simp_all add: account_lookup_def)
    ultimately have "digits_value 0 s div 32 ^ k = digit_value (s ! 0)"
      by (simp add: lookup_digit)
    then show ?thesis
      using assms(1) \<open>digit_value (CHR ''1'') = 0\<close> \<open>digit_value (CHR ''3'') = 1\<close> by auto
  qed
  then show ?thesis by (simp add: div_less_iff_less_mult)
qed

lemma decode_unique:
  assumes fits: "check_fits E" and dec: "decode_account E this (p @ s) = Some (False, a)"
    and p: "p \<in> set account_prefixes" "length s = 60" and s: "list_all account_char s"
  shows "s = digits_text 60 (account_number E a)"
proof -
  let ?v = "digits_value 0 s"
  have r: "list_all readable_char s" using s by (auto simp: list_all_iff account_char_value)
  have first: "s ! 0 = CHR ''1'' \<or> s ! 0 = CHR ''3''"
    using dec decode_account_text [OF p r, of E this] by (auto split: if_splits)
  then have a: "a = of_nat (?v div 2 ^ 40)" and c: "of_nat (?v mod 2 ^ 40) = account_check E a"
    using dec decode_account_text [OF p r, of E this] by (auto simp: Let_def)
  have "?v < 2 * 32 ^ 59" using first_digit_bound [OF first, of 59] p(2) s by simp
  then have "?v div 2 ^ 40 < 2 ^ LENGTH(256)" by (intro less_mult_imp_div_less) simp
  then have ua: "unat a = ?v div 2 ^ 40" unfolding a by (rule unat_of_nat_fits)
  have "?v mod 2 ^ 40 < 2 ^ LENGTH(64)" by (rule less_trans [OF mod_less_divisor]) simp_all
  then have "unat (account_check E a) = ?v mod 2 ^ 40" unfolding c [symmetric] by (rule unat_of_nat_fits)
  then have "account_number E a = ?v" by (simp only: account_number_def ua div_mult_mod_eq)
  then show ?thesis using digits_text_value [OF s] p(2) by simp
qed

text \<open>Two digits of which the second is not in the alphabet can stand for two that are.\<close>

lemma digits_value_append: "digits_value n (u @ w) = digits_value (digits_value n u) w"
  by (simp add: digits_value_def)

lemma zero_readable: "readable_char (CHR ''0'')" "digit_value (CHR ''0'') = 78" "\<not> account_char (CHR ''0'')"
  by (simp_all add: readable_char_def digit_value_def account_reverse_def account_char_def account_lookup_def)

lemma g_readable: "readable_char (CHR ''g'')" "digit_value (CHR ''g'') = 14"
  using lookup_digit [of 14] by (simp_all add: account_lookup_def)

lemma digits_value_carry:
  assumes "d < 30"
  shows "digits_value n (u @ [account_lookup ! d, CHR ''0''] @ w)
    = digits_value n (u @ [account_lookup ! (d + 2), CHR ''g''] @ w)"
  using assms by (simp add: digits_value_append) (simp add: digits_value_def lookup_digit zero_readable g_readable add_ac)

text \<open>The delete character passes the range test of the loop and fails the assertion of the digit.\<close>

lemma decode_account_loop_delete: "decode_account_loop (CHR 0x7F # cs) n = None"
  by (simp add: account_decode_def)

text \<open>The two rules of the decoder on whole texts.\<close>

lemma account_text_alphabet:
  assumes "p \<in> set account_prefixes" "t = p @ s" "length s = 60" "s ! 0 = CHR ''1'' \<or> s ! 0 = CHR ''3''"
    "set (drop 5 t) \<subseteq> set account_lookup"
  shows "list_all account_char s"
proof -
  obtain c s' where s: "s = c # s'" using assms(3) by (cases s) auto
  have "account_char c"
    using assms(4) account_char_lookup [of 0] account_char_lookup [of 1]
    by (auto simp: s account_lookup_def)
  moreover have "set s' \<subseteq> set (drop 5 t)"
    using assms(1) by (auto simp: assms(2) s account_prefixes_def)
  ultimately show ?thesis
    using assms(5) by (auto simp: s list_all_iff account_char_def)
qed

lemma prefix_split:
  assumes "u @ x = q @ y" "length q < length u"
  obtains v where "u = q @ v" "v \<noteq> []" "v @ x = y"
  using assms by (auto simp: append_eq_append_conv2)

lemma decode_carry:
  assumes fits: "check_fits E"
    and s: "v @ [account_lookup ! (d + 2), CHR ''g''] @ w = digits_text 60 (account_number E a)"
    and v: "v \<noteq> []" "d < 30"
  shows "decode_account E this (''xrb_'' @ v @ [account_lookup ! d, CHR ''0''] @ w) = Some (False, a)"
proof -
  let ?s = "v @ [account_lookup ! (d + 2), CHR ''g''] @ w" and ?s' = "v @ [account_lookup ! d, CHR ''0''] @ w"
  have p: "''xrb_'' \<in> set account_prefixes" by (simp add: account_prefixes_def)
  have len: "length ?s = 60" and r: "list_all readable_char ?s"
    unfolding s by (rule digits_text_props)+
  have len': "length ?s' = 60" using len by simp
  have r': "list_all readable_char ?s'" using r v(2) by (simp add: lookup_digit zero_readable)
  have "?s' ! 0 = ?s ! 0" using v(1) by (simp add: nth_append)
  then have "decode_account E this (''xrb_'' @ ?s') = decode_account E this (''xrb_'' @ ?s)
      \<or> \<not> (?s ! 0 = CHR ''1'' \<or> ?s ! 0 = CHR ''3'')"
    unfolding decode_account_text [OF p len r] decode_account_text [OF p len' r']
      digits_value_carry [OF v(2)] by simp
  moreover have "decode_account E this (''xrb_'' @ ?s) = Some (False, a)"
    unfolding s by (rule decode_encoded [OF fits p])
  moreover have "?s ! 0 = CHR ''1'' \<or> ?s ! 0 = CHR ''3''"
    unfolding s by (rule account_number_first [OF account_number_bound [OF fits]])
  ultimately show ?thesis by metis
qed

end
