(* ===== verification/Rai_Streams.thy ===== *)
theory Rai_Streams
  imports Rai_Numbers
begin

text \<open>
  \<open>rai::read\<close> and \<open>rai::write\<close> of \<^verbatim>\<open>src/rai/lib/blocks.hpp\<close>. A stream is the list of
  bytes still to be read; reading a plain-old-data value takes exactly \<open>sizeof\<close> bytes and
  fails when fewer are left, writing appends the bytes of the value's memory image (integers
  least significant byte first, as on the hosts the node is built for).

  The locale \<open>codec\<close> is the contract between a writer and its reader: what is written is
  read back with the rest of the stream untouched, a successful read consumed exactly the
  encoding of its result, and the reader fails only when the stream is too short.
\<close>

type_synonym 'a reader = "byte list \<Rightarrow> ('a \<times> byte list) option"

section \<open>The codec contract\<close>

locale codec =
  fixes enc :: "'a \<Rightarrow> byte list"
    and dec :: "byte list \<Rightarrow> ('a \<times> byte list) option"
    and width :: nat
  assumes dec_enc: "dec (enc x @ rest) = Some (x, rest)"
    and enc_dec: "dec bs = Some (x, rest) \<Longrightarrow> bs = enc x @ rest"
    and enc_width: "length (enc x) = width"
    and dec_total: "width \<le> length bs \<Longrightarrow> dec bs \<noteq> None"
begin

lemma enc_inject: "enc x = enc y \<longleftrightarrow> x = y"
proof
  assume "enc x = enc y"
  then have "dec (enc x @ []) = dec (enc y @ [])" by simp
  then show "x = y" by (simp only: dec_enc) simp
qed simp

lemma enc_append_inject: "enc x @ r = enc y @ r' \<longleftrightarrow> x = y \<and> r = r'"
proof
  assume "enc x @ r = enc y @ r'"
  then have "dec (enc x @ r) = dec (enc y @ r')" by simp
  then show "x = y \<and> r = r'" by (simp only: dec_enc) simp
qed simp

lemma dec_None_iff: "dec bs = None \<longleftrightarrow> length bs < width"
proof
  assume "dec bs = None"
  with dec_total [of bs] show "length bs < width" by (cases "width \<le> length bs") auto
next
  assume short: "length bs < width"
  show "dec bs = None"
  proof (cases "dec bs")
    case (Some p)
    then obtain x r where "dec bs = Some (x, r)" by (cases p) auto
    then have "bs = enc x @ r" by (rule enc_dec)
    with short enc_width [of x] show ?thesis by simp
  qed simp
qed

lemma dec_rest: "dec bs = Some (x, rest) \<Longrightarrow> rest = drop width bs"
  using enc_dec [of bs x rest] enc_width [of x] by simp

end

section \<open>Plain-old-data values\<close>

definition read_bytes :: "nat \<Rightarrow> byte list reader" where
  "read_bytes n bs = (if length bs < n then None else Some (take n bs, drop n bs))"

definition read_with :: "nat \<Rightarrow> (byte list \<Rightarrow> 'a) \<Rightarrow> 'a reader" where
  "read_with n f bs = (case read_bytes n bs of None \<Rightarrow> None | Some (v, rest) \<Rightarrow> Some (f v, rest))"

definition write_u256 :: "u256 \<Rightarrow> byte list" where "write_u256 x = uint256_bytes x"
definition read_u256 :: "u256 reader" where "read_u256 = read_with 32 uint256_number"

definition write_u128 :: "u128 \<Rightarrow> byte list" where "write_u128 x = uint128_bytes x"
definition read_u128 :: "u128 reader" where "read_u128 = read_with 16 uint128_number"

definition write_u512 :: "u512 \<Rightarrow> byte list" where "write_u512 x = uint512_bytes x"
definition read_u512 :: "u512 reader" where "read_u512 = read_with 64 uint512_number"

definition write_u64 :: "u64 \<Rightarrow> byte list" where "write_u64 x = le_bytes 8 x"
definition read_u64 :: "u64 reader" where "read_u64 = read_with 8 le_word"

definition write_u32 :: "u32 \<Rightarrow> byte list" where "write_u32 x = le_bytes 4 x"
definition read_u32 :: "u32 reader" where "read_u32 = read_with 4 le_word"

definition write_u16 :: "u16 \<Rightarrow> byte list" where "write_u16 x = le_bytes 2 x"
definition read_u16 :: "u16 reader" where "read_u16 = read_with 2 le_word"

definition write_u8 :: "byte \<Rightarrow> byte list" where "write_u8 x = [x]"
definition read_u8 :: "byte reader" where "read_u8 = read_with 1 hd"

text \<open>\<open>boost::endian::native_to_big\<close> and \<open>big_to_native_inplace\<close> on a little-endian host.\<close>

definition native_to_big64 :: "u64 \<Rightarrow> u64" where
  "native_to_big64 x = le_word (rev (le_bytes 8 x))"

lemma read_with_codec:
  assumes "\<And>x. length (e x) = n" "\<And>x. f (e x) = x" "\<And>bs. length bs = n \<Longrightarrow> e (f bs) = bs"
  shows "codec e (read_with n f) n"
proof
  show "read_with n f (e x @ rest) = Some (x, rest)" for x rest
    using assms(1) [of x] assms(2) [of x] by (simp add: read_with_def read_bytes_def)
  show "bs = e x @ rest" if "read_with n f bs = Some (x, rest)" for bs x rest
    using that assms(3) [of "take n bs"]
    by (auto simp: read_with_def read_bytes_def split: if_splits)
  show "length (e x) = n" for x by (rule assms(1))
  show "read_with n f bs \<noteq> None" if "n \<le> length bs" for bs
    using that by (auto simp: read_with_def read_bytes_def)
qed

lemma le_codec:
  assumes "LENGTH('a::len) = 8 * n"
  shows "codec (le_bytes n :: 'a word \<Rightarrow> byte list) (read_with n le_word) n"
proof (rule read_with_codec)
  show "length (le_bytes n (x :: 'a word)) = n" for x by simp
  show "le_word (le_bytes n x) = x" for x :: "'a word"
    using assms by (simp add: le_word_le_bytes take_bit_word_eq_self)
  show "le_bytes n (le_word bs :: 'a word) = bs" if "length bs = n" for bs
    using le_bytes_le_word [of bs, where 'a = 'a] that assms by simp
qed

interpretation u256: codec write_u256 read_u256 32
  unfolding read_u256_def by (rule read_with_codec) (simp_all add: write_u256_def)

interpretation u128: codec write_u128 read_u128 16
  unfolding read_u128_def by (rule read_with_codec) (simp_all add: write_u128_def)

interpretation u512: codec write_u512 read_u512 64
  unfolding read_u512_def by (rule read_with_codec) (simp_all add: write_u512_def)

interpretation u64: codec write_u64 read_u64 8
  unfolding read_u64_def write_u64_def [abs_def] by (rule le_codec) simp

interpretation u32: codec write_u32 read_u32 4
  unfolding read_u32_def write_u32_def [abs_def] by (rule le_codec) simp

interpretation u16: codec write_u16 read_u16 2
  unfolding read_u16_def write_u16_def [abs_def] by (rule le_codec) simp

interpretation u8: codec write_u8 read_u8 1
  unfolding read_u8_def
  by (rule read_with_codec) (auto simp: write_u8_def length_Suc_conv)

lemmas pod_read_write [simp, codec_simps] =
  u256.dec_enc u128.dec_enc u512.dec_enc u64.dec_enc u32.dec_enc u16.dec_enc u8.dec_enc

lemmas pod_width [simp, width_simps] =
  u256.enc_width u128.enc_width u512.enc_width u64.enc_width u32.enc_width u16.enc_width u8.enc_width

lemmas pod_readD =
  u256.enc_dec u128.enc_dec u512.enc_dec u64.enc_dec u32.enc_dec u16.enc_dec u8.enc_dec

lemmas pod_read_None =
  u256.dec_None_iff u128.dec_None_iff u512.dec_None_iff u64.dec_None_iff u32.dec_None_iff
  u16.dec_None_iff u8.dec_None_iff

text \<open>On a stream that is long enough a read is a split of the stream.\<close>

lemma pod_read_long:
  "32 \<le> length bs \<Longrightarrow> read_u256 bs = Some (uint256_number (take 32 bs), drop 32 bs)"
  "16 \<le> length bs \<Longrightarrow> read_u128 bs = Some (uint128_number (take 16 bs), drop 16 bs)"
  "64 \<le> length bs \<Longrightarrow> read_u512 bs = Some (uint512_number (take 64 bs), drop 64 bs)"
  "8 \<le> length bs \<Longrightarrow> read_u64 bs = Some (le_word (take 8 bs), drop 8 bs)"
  by (simp_all add: read_u256_def read_u128_def read_u512_def read_u64_def read_with_def read_bytes_def)

lemma native_to_big64_involution [simp, codec_simps]: "native_to_big64 (native_to_big64 x) = x"
proof -
  have "le_bytes (length (rev (le_bytes 8 x))) (le_word (rev (le_bytes 8 x)) :: u64) = rev (le_bytes 8 x)"
    by (rule le_bytes_le_word) simp
  then have "le_bytes 8 (native_to_big64 x) = rev (le_bytes 8 x)"
    by (simp add: native_to_big64_def)
  then have "native_to_big64 (native_to_big64 x) = le_word (le_bytes 8 x)"
    by (simp add: native_to_big64_def [of "native_to_big64 x"])
  then show ?thesis by (simp add: le_word_le_bytes take_bit_word_eq_self)
qed

text \<open>The empty encoding, and one value after another.\<close>

lemma codec_pair:
  assumes "codec e1 d1 w1" "codec e2 d2 w2"
    and enc: "\<And>x y. e (mk x y) = e1 x @ e2 y"
    and dec: "\<And>bs. d bs = d1 bs \<bind> (\<lambda>(x, bs'). d2 bs' \<bind> (\<lambda>(y, rest). Some (mk x y, rest)))"
    and surj: "\<And>z. \<exists>x y. z = mk x y"
  shows "codec e d (w1 + w2)"
proof -
  note c1 = codec.dec_enc [OF assms(1)] codec.enc_width [OF assms(1)]
  note c2 = codec.dec_enc [OF assms(2)] codec.enc_width [OF assms(2)]
  show ?thesis
  proof
    fix z rest
    obtain x y where z: "z = mk x y" using surj by blast
    show "d (e z @ rest) = Some (z, rest)" by (simp add: z enc dec c1 c2)
    show "length (e z) = w1 + w2" by (simp add: z enc c1 c2)
  next
    fix bs z rest assume "d bs = Some (z, rest)"
    then obtain x bs' y where 1: "d1 bs = Some (x, bs')" "d2 bs' = Some (y, rest)" "z = mk x y"
      by (auto simp: dec bind_Some_iff)
    with codec.enc_dec [OF assms(1)] codec.enc_dec [OF assms(2)] show "bs = e z @ rest"
      by (simp add: enc)
  next
    fix bs :: "byte list" assume len: "w1 + w2 \<le> length bs"
    then obtain x bs' where 1: "d1 bs = Some (x, bs')"
      using codec.dec_None_iff [OF assms(1), of bs] by (cases "d1 bs") auto
    with len codec.dec_rest [OF assms(1) 1] have "w2 \<le> length bs'" by simp
    then obtain y r where "d2 bs' = Some (y, r)"
      using codec.dec_None_iff [OF assms(2), of bs'] by (cases "d2 bs'") auto
    with 1 show "d bs \<noteq> None" by (simp add: dec)
  qed
qed

end
