(* ===== verification/Rai_Blocks.thy ===== *)
theory Rai_Blocks
  imports Rai_Streams
begin

text \<open>
  The five block classes of \<^verbatim>\<open>src/rai/lib/blocks.hpp\<close> and \<^verbatim>\<open>blocks.cpp\<close>: their
  hashables, constructors, accessors, hashes, equality and binary form. Each class is a
  record of its hashables, signature and work; \<open>block\<close> is the tagged union of the five,
  so a virtual call is a case distinction.
\<close>

section \<open>Data\<close>

record send_hashables =
  s_previous :: u256
  s_destination :: u256
  s_balance :: u128

record send_block =
  send_hashables :: send_hashables
  send_signature :: u512
  send_work :: u64

record receive_hashables =
  r_previous :: u256
  r_source :: u256

record receive_block =
  receive_hashables :: receive_hashables
  receive_signature :: u512
  receive_work :: u64

record open_hashables =
  o_source :: u256
  o_representative :: u256
  o_account :: u256

record open_block =
  open_hashables :: open_hashables
  open_signature :: u512
  open_work :: u64

record change_hashables =
  c_previous :: u256
  c_representative :: u256

record change_block =
  change_hashables :: change_hashables
  change_signature :: u512
  change_work :: u64

record state_hashables =
  st_account :: u256
  st_previous :: u256
  st_representative :: u256
  st_balance :: u128
  st_link :: u256

record state_block =
  state_hashables :: state_hashables
  state_signature :: u512
  state_work :: u64

datatype block =
    Send send_block
  | Receive receive_block
  | Open open_block
  | Change change_block
  | State state_block

datatype block_type =
  Bt_invalid | Bt_not_a_block | Bt_send | Bt_receive | Bt_open | Bt_change | Bt_state

section \<open>Accessors\<close>

fun type_of :: "block \<Rightarrow> block_type" where
  "type_of (Send b) = Bt_send"
| "type_of (Receive b) = Bt_receive"
| "type_of (Open b) = Bt_open"
| "type_of (Change b) = Bt_change"
| "type_of (State b) = Bt_state"

text \<open>The underlying values of \<open>enum class block_type : uint8_t\<close>.\<close>

fun block_type_code :: "block_type \<Rightarrow> byte" where
  "block_type_code Bt_invalid = 0"
| "block_type_code Bt_not_a_block = 1"
| "block_type_code Bt_send = 2"
| "block_type_code Bt_receive = 3"
| "block_type_code Bt_open = 4"
| "block_type_code Bt_change = 5"
| "block_type_code Bt_state = 6"

text \<open>A byte read into a \<open>block_type\<close>; a value that is no enumerator has no name.\<close>

definition block_type_of_code :: "byte \<Rightarrow> block_type option" where
  "block_type_of_code c =
     (if c = 0 then Some Bt_invalid else if c = 1 then Some Bt_not_a_block
      else if c = 2 then Some Bt_send else if c = 3 then Some Bt_receive
      else if c = 4 then Some Bt_open else if c = 5 then Some Bt_change
      else if c = 6 then Some Bt_state else None)"

lemma block_type_of_code_code [simp]: "block_type_of_code (block_type_code t) = Some t"
  by (cases t) (simp_all add: block_type_of_code_def)

fun previous :: "block \<Rightarrow> u256" where
  "previous (Send b) = s_previous (send_hashables b)"
| "previous (Receive b) = r_previous (receive_hashables b)"
| "previous (Open b) = 0"
| "previous (Change b) = c_previous (change_hashables b)"
| "previous (State b) = st_previous (state_hashables b)"

fun source :: "block \<Rightarrow> u256" where
  "source (Send b) = 0"
| "source (Receive b) = r_source (receive_hashables b)"
| "source (Open b) = o_source (open_hashables b)"
| "source (Change b) = 0"
| "source (State b) = 0"

fun root :: "block \<Rightarrow> u256" where
  "root (Send b) = s_previous (send_hashables b)"
| "root (Receive b) = r_previous (receive_hashables b)"
| "root (Open b) = o_account (open_hashables b)"
| "root (Change b) = c_previous (change_hashables b)"
| "root (State b) = (if \<not> uint256_is_zero (st_previous (state_hashables b))
     then st_previous (state_hashables b) else st_account (state_hashables b))"

fun representative :: "block \<Rightarrow> u256" where
  "representative (Send b) = 0"
| "representative (Receive b) = 0"
| "representative (Open b) = o_representative (open_hashables b)"
| "representative (Change b) = c_representative (change_hashables b)"
| "representative (State b) = st_representative (state_hashables b)"

fun block_work :: "block \<Rightarrow> u64" where
  "block_work (Send b) = send_work b"
| "block_work (Receive b) = receive_work b"
| "block_work (Open b) = open_work b"
| "block_work (Change b) = change_work b"
| "block_work (State b) = state_work b"

fun block_work_set :: "u64 \<Rightarrow> block \<Rightarrow> block" where
  "block_work_set w (Send b) = Send (b\<lparr>send_work := w\<rparr>)"
| "block_work_set w (Receive b) = Receive (b\<lparr>receive_work := w\<rparr>)"
| "block_work_set w (Open b) = Open (b\<lparr>open_work := w\<rparr>)"
| "block_work_set w (Change b) = Change (b\<lparr>change_work := w\<rparr>)"
| "block_work_set w (State b) = State (b\<lparr>state_work := w\<rparr>)"

fun block_signature :: "block \<Rightarrow> u512" where
  "block_signature (Send b) = send_signature b"
| "block_signature (Receive b) = receive_signature b"
| "block_signature (Open b) = open_signature b"
| "block_signature (Change b) = change_signature b"
| "block_signature (State b) = state_signature b"

fun signature_set :: "u512 \<Rightarrow> block \<Rightarrow> block" where
  "signature_set x (Send b) = Send (b\<lparr>send_signature := x\<rparr>)"
| "signature_set x (Receive b) = Receive (b\<lparr>receive_signature := x\<rparr>)"
| "signature_set x (Open b) = Open (b\<lparr>open_signature := x\<rparr>)"
| "signature_set x (Change b) = Change (b\<lparr>change_signature := x\<rparr>)"
| "signature_set x (State b) = State (b\<lparr>state_signature := x\<rparr>)"

text \<open>Which blocks may directly follow which: the legacy kinds never follow a state block.\<close>

fun valid_predecessor :: "block \<Rightarrow> block \<Rightarrow> bool" where
  "valid_predecessor (Send _) p = (case type_of p of
      Bt_send \<Rightarrow> True | Bt_receive \<Rightarrow> True | Bt_open \<Rightarrow> True | Bt_change \<Rightarrow> True | _ \<Rightarrow> False)"
| "valid_predecessor (Receive _) p = (case type_of p of
      Bt_send \<Rightarrow> True | Bt_receive \<Rightarrow> True | Bt_open \<Rightarrow> True | Bt_change \<Rightarrow> True | _ \<Rightarrow> False)"
| "valid_predecessor (Open _) p = False"
| "valid_predecessor (Change _) p = (case type_of p of
      Bt_send \<Rightarrow> True | Bt_receive \<Rightarrow> True | Bt_open \<Rightarrow> True | Bt_change \<Rightarrow> True | _ \<Rightarrow> False)"
| "valid_predecessor (State _) p = True"

definition is_state :: "block \<Rightarrow> bool" where
  "is_state b \<longleftrightarrow> type_of b = Bt_state"

lemma is_state_simps [simp]:
  "\<not> is_state (Send a)" "\<not> is_state (Receive b)" "\<not> is_state (Open c)" "\<not> is_state (Change d)"
  "is_state (State e)"
  by (simp_all add: is_state_def)

lemma valid_predecessor_legacy:
  "\<not> is_state b \<Longrightarrow> valid_predecessor b p \<Longrightarrow> \<not> is_state p"
  by (cases b; cases p) simp_all

section \<open>Equality\<close>

text \<open>\<open>operator==\<close> compares the types first and then every field.\<close>

fun block_equal :: "block \<Rightarrow> block \<Rightarrow> bool" where
  "block_equal (Send a) (Send b) \<longleftrightarrow>
     s_destination (send_hashables a) = s_destination (send_hashables b)
     \<and> s_previous (send_hashables a) = s_previous (send_hashables b)
     \<and> s_balance (send_hashables a) = s_balance (send_hashables b)
     \<and> send_work a = send_work b \<and> send_signature a = send_signature b"
| "block_equal (Receive a) (Receive b) \<longleftrightarrow>
     r_previous (receive_hashables a) = r_previous (receive_hashables b)
     \<and> r_source (receive_hashables a) = r_source (receive_hashables b)
     \<and> receive_work a = receive_work b \<and> receive_signature a = receive_signature b"
| "block_equal (Open a) (Open b) \<longleftrightarrow>
     o_source (open_hashables a) = o_source (open_hashables b)
     \<and> o_representative (open_hashables a) = o_representative (open_hashables b)
     \<and> o_account (open_hashables a) = o_account (open_hashables b)
     \<and> open_work a = open_work b \<and> open_signature a = open_signature b"
| "block_equal (Change a) (Change b) \<longleftrightarrow>
     c_previous (change_hashables a) = c_previous (change_hashables b)
     \<and> c_representative (change_hashables a) = c_representative (change_hashables b)
     \<and> change_work a = change_work b \<and> change_signature a = change_signature b"
| "block_equal (State a) (State b) \<longleftrightarrow>
     st_account (state_hashables a) = st_account (state_hashables b)
     \<and> st_previous (state_hashables a) = st_previous (state_hashables b)
     \<and> st_representative (state_hashables a) = st_representative (state_hashables b)
     \<and> st_balance (state_hashables a) = st_balance (state_hashables b)
     \<and> st_link (state_hashables a) = st_link (state_hashables b)
     \<and> state_signature a = state_signature b \<and> state_work a = state_work b"
| "block_equal _ _ \<longleftrightarrow> False"

lemma block_equal_iff: "block_equal a b \<longleftrightarrow> a = b"
  by (cases a; cases b) auto

section \<open>Hashes\<close>

definition send_hashables_bytes :: "send_hashables \<Rightarrow> byte list" where
  "send_hashables_bytes h = uint256_bytes (s_previous h) @ uint256_bytes (s_destination h)
     @ uint128_bytes (s_balance h)"

definition receive_hashables_bytes :: "receive_hashables \<Rightarrow> byte list" where
  "receive_hashables_bytes h = uint256_bytes (r_previous h) @ uint256_bytes (r_source h)"

definition open_hashables_bytes :: "open_hashables \<Rightarrow> byte list" where
  "open_hashables_bytes h = uint256_bytes (o_source h) @ uint256_bytes (o_representative h)
     @ uint256_bytes (o_account h)"

definition change_hashables_bytes :: "change_hashables \<Rightarrow> byte list" where
  "change_hashables_bytes h = uint256_bytes (c_previous h) @ uint256_bytes (c_representative h)"

definition state_hashables_bytes :: "state_hashables \<Rightarrow> byte list" where
  "state_hashables_bytes h = uint256_bytes (st_account h) @ uint256_bytes (st_previous h)
     @ uint256_bytes (st_representative h) @ uint128_bytes (st_balance h) @ uint256_bytes (st_link h)"

text \<open>
  The bytes \<open>hash (blake2b_state &)\<close> feeds to the digest; a state block is prefixed by the
  32 byte number of its type.
\<close>

fun hash_input :: "block \<Rightarrow> byte list" where
  "hash_input (Send b) = send_hashables_bytes (send_hashables b)"
| "hash_input (Receive b) = receive_hashables_bytes (receive_hashables b)"
| "hash_input (Open b) = open_hashables_bytes (open_hashables b)"
| "hash_input (Change b) = change_hashables_bytes (change_hashables b)"
| "hash_input (State b) =
     uint256_bytes (ucast (block_type_code Bt_state)) @ state_hashables_bytes (state_hashables b)"

definition block_hash :: "rai_env \<Rightarrow> block \<Rightarrow> u256" where
  "block_hash E b = uint256_number (blake2b E 32 (hash_input b))"

lemma uint_bytes_inject [simp]:
  "uint256_bytes x = uint256_bytes y \<longleftrightarrow> x = y" "uint128_bytes u = uint128_bytes v \<longleftrightarrow> u = v"
  by (metis uint_number_bytes(2), metis uint_number_bytes(1))

lemma length_hash_input:
  "length (hash_input b) = (case b of Send _ \<Rightarrow> 80 | Receive _ \<Rightarrow> 64 | Open _ \<Rightarrow> 96 | Change _ \<Rightarrow> 64 | State _ \<Rightarrow> 176)"
  by (cases b) (simp_all add: send_hashables_bytes_def receive_hashables_bytes_def open_hashables_bytes_def
      change_hashables_bytes_def state_hashables_bytes_def)

text \<open>The hashed members can be read off the hashed bytes.\<close>

lemma hashed_layout:
  "send_hashables_bytes a = send_hashables_bytes b \<longleftrightarrow> a = b"
  "receive_hashables_bytes c = receive_hashables_bytes d \<longleftrightarrow> c = d"
  "open_hashables_bytes e = open_hashables_bytes f \<longleftrightarrow> e = f"
  "change_hashables_bytes g = change_hashables_bytes h \<longleftrightarrow> g = h"
  "state_hashables_bytes i = state_hashables_bytes j \<longleftrightarrow> i = j"
  "receive_hashables_bytes c = change_hashables_bytes g \<longleftrightarrow> r_previous c = c_previous g \<and> r_source c = c_representative g"
  "change_hashables_bytes g = receive_hashables_bytes c \<longleftrightarrow> c_previous g = r_previous c \<and> c_representative g = r_source c"
  by (auto simp: send_hashables_bytes_def receive_hashables_bytes_def open_hashables_bytes_def
      change_hashables_bytes_def state_hashables_bytes_def)

section \<open>Construction of signed blocks\<close>

definition new_send_block :: "rai_env \<Rightarrow> u256 \<Rightarrow> u256 \<Rightarrow> u128 \<Rightarrow> u256 \<Rightarrow> u256 \<Rightarrow> u64 \<Rightarrow> send_block" where
  "new_send_block E previous_a destination_a balance_a prv_a pub_a work_a =
    (let h = \<lparr>s_previous = previous_a, s_destination = destination_a, s_balance = balance_a\<rparr>;
         hash = block_hash E (Send \<lparr>send_hashables = h, send_signature = 0, send_work = 0\<rparr>)
     in \<lparr>send_hashables = h, send_signature = sign_message E prv_a pub_a hash, send_work = work_a\<rparr>)"

definition new_receive_block :: "rai_env \<Rightarrow> u256 \<Rightarrow> u256 \<Rightarrow> u256 \<Rightarrow> u256 \<Rightarrow> u64 \<Rightarrow> receive_block" where
  "new_receive_block E previous_a source_a prv_a pub_a work_a =
    (let h = \<lparr>r_previous = previous_a, r_source = source_a\<rparr>;
         hash = block_hash E (Receive \<lparr>receive_hashables = h, receive_signature = 0, receive_work = 0\<rparr>)
     in \<lparr>receive_hashables = h, receive_signature = sign_message E prv_a pub_a hash, receive_work = work_a\<rparr>)"

text \<open>The signing constructor of an open block asserts that the representative is not zero.\<close>

definition new_open_block :: "rai_env \<Rightarrow> u256 \<Rightarrow> u256 \<Rightarrow> u256 \<Rightarrow> u256 \<Rightarrow> u256 \<Rightarrow> u64 \<Rightarrow> open_block option" where
  "new_open_block E source_a representative_a account_a prv_a pub_a work_a =
    (let h = \<lparr>o_source = source_a, o_representative = representative_a, o_account = account_a\<rparr>;
         hash = block_hash E (Open \<lparr>open_hashables = h, open_signature = 0, open_work = 0\<rparr>)
     in do { assert_that (\<not> uint256_is_zero representative_a);
             Some \<lparr>open_hashables = h, open_signature = sign_message E prv_a pub_a hash, open_work = work_a\<rparr> })"

definition new_open_block_unsigned :: "u256 \<Rightarrow> u256 \<Rightarrow> u256 \<Rightarrow> open_block" where
  "new_open_block_unsigned source_a representative_a account_a =
     \<lparr>open_hashables = \<lparr>o_source = source_a, o_representative = representative_a, o_account = account_a\<rparr>,
      open_signature = 0, open_work = 0\<rparr>"

definition new_change_block :: "rai_env \<Rightarrow> u256 \<Rightarrow> u256 \<Rightarrow> u256 \<Rightarrow> u256 \<Rightarrow> u64 \<Rightarrow> change_block" where
  "new_change_block E previous_a representative_a prv_a pub_a work_a =
    (let h = \<lparr>c_previous = previous_a, c_representative = representative_a\<rparr>;
         hash = block_hash E (Change \<lparr>change_hashables = h, change_signature = 0, change_work = 0\<rparr>)
     in \<lparr>change_hashables = h, change_signature = sign_message E prv_a pub_a hash, change_work = work_a\<rparr>)"

definition new_state_block ::
  "rai_env \<Rightarrow> u256 \<Rightarrow> u256 \<Rightarrow> u256 \<Rightarrow> u128 \<Rightarrow> u256 \<Rightarrow> u256 \<Rightarrow> u256 \<Rightarrow> u64 \<Rightarrow> state_block" where
  "new_state_block E account_a previous_a representative_a balance_a link_a prv_a pub_a work_a =
    (let h = \<lparr>st_account = account_a, st_previous = previous_a, st_representative = representative_a,
              st_balance = balance_a, st_link = link_a\<rparr>;
         hash = block_hash E (State \<lparr>state_hashables = h, state_signature = 0, state_work = 0\<rparr>)
     in \<lparr>state_hashables = h, state_signature = sign_message E prv_a pub_a hash, state_work = work_a\<rparr>)"

section \<open>Binary form\<close>

fun serialize :: "block \<Rightarrow> byte list" where
  "serialize (Send b) = write_u256 (s_previous (send_hashables b))
     @ write_u256 (s_destination (send_hashables b)) @ write_u128 (s_balance (send_hashables b))
     @ write_u512 (send_signature b) @ write_u64 (send_work b)"
| "serialize (Receive b) = write_u256 (r_previous (receive_hashables b))
     @ write_u256 (r_source (receive_hashables b))
     @ write_u512 (receive_signature b) @ write_u64 (receive_work b)"
| "serialize (Open b) = write_u256 (o_source (open_hashables b))
     @ write_u256 (o_representative (open_hashables b)) @ write_u256 (o_account (open_hashables b))
     @ write_u512 (open_signature b) @ write_u64 (open_work b)"
| "serialize (Change b) = write_u256 (c_previous (change_hashables b))
     @ write_u256 (c_representative (change_hashables b))
     @ write_u512 (change_signature b) @ write_u64 (change_work b)"
| "serialize (State b) = write_u256 (st_account (state_hashables b))
     @ write_u256 (st_previous (state_hashables b)) @ write_u256 (st_representative (state_hashables b))
     @ write_u128 (st_balance (state_hashables b)) @ write_u256 (st_link (state_hashables b))
     @ write_u512 (state_signature b) @ write_u64 (native_to_big64 (state_work b))"

text \<open>The stream constructors of the hashables.\<close>

definition read_send_hashables :: "send_hashables reader" where
  "read_send_hashables bs = do {
     (previous_a, bs) \<leftarrow> read_u256 bs;
     (destination_a, bs) \<leftarrow> read_u256 bs;
     (balance_a, bs) \<leftarrow> read_u128 bs;
     Some (\<lparr>s_previous = previous_a, s_destination = destination_a, s_balance = balance_a\<rparr>, bs) }"

definition read_receive_hashables :: "receive_hashables reader" where
  "read_receive_hashables bs = do {
     (previous_a, bs) \<leftarrow> read_u256 bs;
     (source_a, bs) \<leftarrow> read_u256 bs;
     Some (\<lparr>r_previous = previous_a, r_source = source_a\<rparr>, bs) }"

definition read_open_hashables :: "open_hashables reader" where
  "read_open_hashables bs = do {
     (source_a, bs) \<leftarrow> read_u256 bs;
     (representative_a, bs) \<leftarrow> read_u256 bs;
     (account_a, bs) \<leftarrow> read_u256 bs;
     Some (\<lparr>o_source = source_a, o_representative = representative_a, o_account = account_a\<rparr>, bs) }"

definition read_change_hashables :: "change_hashables reader" where
  "read_change_hashables bs = do {
     (previous_a, bs) \<leftarrow> read_u256 bs;
     (representative_a, bs) \<leftarrow> read_u256 bs;
     Some (\<lparr>c_previous = previous_a, c_representative = representative_a\<rparr>, bs) }"

definition read_state_hashables :: "state_hashables reader" where
  "read_state_hashables bs = do {
     (account_a, bs) \<leftarrow> read_u256 bs;
     (previous_a, bs) \<leftarrow> read_u256 bs;
     (representative_a, bs) \<leftarrow> read_u256 bs;
     (balance_a, bs) \<leftarrow> read_u128 bs;
     (link_a, bs) \<leftarrow> read_u256 bs;
     Some (\<lparr>st_account = account_a, st_previous = previous_a, st_representative = representative_a,
            st_balance = balance_a, st_link = link_a\<rparr>, bs) }"

text \<open>The stream constructors of the blocks.\<close>

definition read_send_block :: "send_block reader" where
  "read_send_block bs = do {
     (hashables_a, bs) \<leftarrow> read_send_hashables bs;
     (signature_a, bs) \<leftarrow> read_u512 bs;
     (work_a, bs) \<leftarrow> read_u64 bs;
     Some (\<lparr>send_hashables = hashables_a, send_signature = signature_a, send_work = work_a\<rparr>, bs) }"

definition read_receive_block :: "receive_block reader" where
  "read_receive_block bs = do {
     (hashables_a, bs) \<leftarrow> read_receive_hashables bs;
     (signature_a, bs) \<leftarrow> read_u512 bs;
     (work_a, bs) \<leftarrow> read_u64 bs;
     Some (\<lparr>receive_hashables = hashables_a, receive_signature = signature_a, receive_work = work_a\<rparr>, bs) }"

definition read_open_block :: "open_block reader" where
  "read_open_block bs = do {
     (hashables_a, bs) \<leftarrow> read_open_hashables bs;
     (signature_a, bs) \<leftarrow> read_u512 bs;
     (work_a, bs) \<leftarrow> read_u64 bs;
     Some (\<lparr>open_hashables = hashables_a, open_signature = signature_a, open_work = work_a\<rparr>, bs) }"

definition read_change_block :: "change_block reader" where
  "read_change_block bs = do {
     (hashables_a, bs) \<leftarrow> read_change_hashables bs;
     (signature_a, bs) \<leftarrow> read_u512 bs;
     (work_a, bs) \<leftarrow> read_u64 bs;
     Some (\<lparr>change_hashables = hashables_a, change_signature = signature_a, change_work = work_a\<rparr>, bs) }"

definition read_state_block :: "state_block reader" where
  "read_state_block bs = do {
     (hashables_a, bs) \<leftarrow> read_state_hashables bs;
     (signature_a, bs) \<leftarrow> read_u512 bs;
     (work_a, bs) \<leftarrow> read_u64 bs;
     Some (\<lparr>state_hashables = hashables_a, state_signature = signature_a,
            state_work = native_to_big64 work_a\<rparr>, bs) }"

lemmas read_block_defs =
  read_send_block_def read_receive_block_def read_open_block_def read_change_block_def
  read_state_block_def read_send_hashables_def read_receive_hashables_def
  read_open_hashables_def read_change_hashables_def read_state_hashables_def

text \<open>
  \<open>deserialize_block (stream, type)\<close>: the outer option is the \<open>assert (false)\<close> of the
  default branch, the inner one the null result of a stream that is too short.
\<close>

fun deserialize_block_typed :: "block_type \<Rightarrow> byte list \<Rightarrow> (block \<times> byte list) option option" where
  "deserialize_block_typed Bt_receive bs = Some (map_option (map_prod Receive id) (read_receive_block bs))"
| "deserialize_block_typed Bt_send bs = Some (map_option (map_prod Send id) (read_send_block bs))"
| "deserialize_block_typed Bt_open bs = Some (map_option (map_prod Open id) (read_open_block bs))"
| "deserialize_block_typed Bt_change bs = Some (map_option (map_prod Change id) (read_change_block bs))"
| "deserialize_block_typed Bt_state bs = Some (map_option (map_prod State id) (read_state_block bs))"
| "deserialize_block_typed Bt_invalid bs = None"
| "deserialize_block_typed Bt_not_a_block bs = None"

definition deserialize_block :: "byte list \<Rightarrow> (block \<times> byte list) option option" where
  "deserialize_block bs =
     (case read_u8 bs of None \<Rightarrow> Some None
      | Some (c, bs') \<Rightarrow> (case block_type_of_code c of None \<Rightarrow> None
          | Some t \<Rightarrow> deserialize_block_typed t bs'))"

definition serialize_block :: "block \<Rightarrow> byte list" where
  "serialize_block b = write_u8 (block_type_code (type_of b)) @ serialize b"

text \<open>The \<open>static size_t constexpr size\<close> of each class, as sums of the field sizes.\<close>

fun block_size :: "block_type \<Rightarrow> nat" where
  "block_size Bt_send = 32 + 32 + 16 + 64 + 8"
| "block_size Bt_receive = 32 + 32 + 64 + 8"
| "block_size Bt_open = 32 + 32 + 32 + 64 + 8"
| "block_size Bt_change = 32 + 32 + 64 + 8"
| "block_size Bt_state = 32 + 32 + 32 + 16 + 32 + 64 + 8"
| "block_size Bt_invalid = 0"
| "block_size Bt_not_a_block = 0"

lemma length_serialize [simp, width_simps]: "length (serialize b) = block_size (type_of b)"
  by (cases b) simp_all

text \<open>
  The member function \<open>deserialize (stream)\<close> of each class reads the fields in one nest of
  conditionals; it agrees with the stream constructor.
\<close>

definition send_block_deserialize :: "send_block reader" where
  "send_block_deserialize bs = do {
     (previous_a, bs) \<leftarrow> read_u256 bs;
     (destination_a, bs) \<leftarrow> read_u256 bs;
     (balance_a, bs) \<leftarrow> read_u128 bs;
     (signature_a, bs) \<leftarrow> read_u512 bs;
     (work_a, bs) \<leftarrow> read_u64 bs;
     Some (\<lparr>send_hashables = \<lparr>s_previous = previous_a, s_destination = destination_a, s_balance = balance_a\<rparr>,
            send_signature = signature_a, send_work = work_a\<rparr>, bs) }"

definition receive_block_deserialize :: "receive_block reader" where
  "receive_block_deserialize bs = do {
     (previous_a, bs) \<leftarrow> read_u256 bs;
     (source_a, bs) \<leftarrow> read_u256 bs;
     (signature_a, bs) \<leftarrow> read_u512 bs;
     (work_a, bs) \<leftarrow> read_u64 bs;
     Some (\<lparr>receive_hashables = \<lparr>r_previous = previous_a, r_source = source_a\<rparr>,
            receive_signature = signature_a, receive_work = work_a\<rparr>, bs) }"

definition open_block_deserialize :: "open_block reader" where
  "open_block_deserialize bs = do {
     (source_a, bs) \<leftarrow> read_u256 bs;
     (representative_a, bs) \<leftarrow> read_u256 bs;
     (account_a, bs) \<leftarrow> read_u256 bs;
     (signature_a, bs) \<leftarrow> read_u512 bs;
     (work_a, bs) \<leftarrow> read_u64 bs;
     Some (\<lparr>open_hashables = \<lparr>o_source = source_a, o_representative = representative_a, o_account = account_a\<rparr>,
            open_signature = signature_a, open_work = work_a\<rparr>, bs) }"

definition change_block_deserialize :: "change_block reader" where
  "change_block_deserialize bs = do {
     (previous_a, bs) \<leftarrow> read_u256 bs;
     (representative_a, bs) \<leftarrow> read_u256 bs;
     (signature_a, bs) \<leftarrow> read_u512 bs;
     (work_a, bs) \<leftarrow> read_u64 bs;
     Some (\<lparr>change_hashables = \<lparr>c_previous = previous_a, c_representative = representative_a\<rparr>,
            change_signature = signature_a, change_work = work_a\<rparr>, bs) }"

definition state_block_deserialize :: "state_block reader" where
  "state_block_deserialize bs = do {
     (account_a, bs) \<leftarrow> read_u256 bs;
     (previous_a, bs) \<leftarrow> read_u256 bs;
     (representative_a, bs) \<leftarrow> read_u256 bs;
     (balance_a, bs) \<leftarrow> read_u128 bs;
     (link_a, bs) \<leftarrow> read_u256 bs;
     (signature_a, bs) \<leftarrow> read_u512 bs;
     (work_a, bs) \<leftarrow> read_u64 bs;
     Some (\<lparr>state_hashables = \<lparr>st_account = account_a, st_previous = previous_a,
              st_representative = representative_a, st_balance = balance_a, st_link = link_a\<rparr>,
            state_signature = signature_a, state_work = native_to_big64 work_a\<rparr>, bs) }"

lemmas block_deserialize_defs =
  send_block_deserialize_def receive_block_deserialize_def open_block_deserialize_def
  change_block_deserialize_def state_block_deserialize_def

section \<open>Round trips\<close>

lemma deserialize_serialize [simp, codec_simps]:
  "deserialize_block_typed (type_of b) (serialize b @ rest) = Some (Some (b, rest))"
  by (cases b) (simp_all add: read_block_defs)

lemma serialize_deserialize:
  assumes "deserialize_block_typed t bs = Some (Some (b, rest))"
  shows "type_of b = t \<and> bs = serialize b @ rest"
  using assms
  by (cases t) (auto simp: read_block_defs bind_Some_iff dest!: pod_readD)

text \<open>Reading a block of a real type fails only on a stream shorter than the block.\<close>

lemma deserialize_block_typed_null_iff:
  assumes "t \<notin> {Bt_invalid, Bt_not_a_block}"
  shows "deserialize_block_typed t bs = Some None \<longleftrightarrow> length bs < block_size t"
proof
  assume "length bs < block_size t"
  then show "deserialize_block_typed t bs = Some None"
  proof (cases "deserialize_block_typed t bs")
    case None
    with assms show ?thesis by (cases t) simp_all
  next
    case (Some r)
    show ?thesis
    proof (cases r)
      case None
      with Some show ?thesis by simp
    next
      fix p assume "r = Some p"
      with Some obtain b rest where "deserialize_block_typed t bs = Some (Some (b, rest))"
        by (cases p) auto
      then have "type_of b = t \<and> bs = serialize b @ rest" by (rule serialize_deserialize)
      with \<open>length bs < block_size t\<close> show ?thesis by auto
    qed
  qed
next
  assume null: "deserialize_block_typed t bs = Some None"
  show "length bs < block_size t"
  proof (rule ccontr)
    assume "\<not> length bs < block_size t"
    with null show False
      by (cases t) (simp_all add: read_block_defs pod_read_long)
  qed
qed

end
