(* ===== verification/Rai_Common.thy ===== *)
theory Rai_Common
  imports Rai_Blocks
begin

text \<open>
  The records of \<^verbatim>\<open>src/rai/common.hpp\<close> and \<^verbatim>\<open>common.cpp\<close> the store keeps (account
  information, pending entries, block information), votes and the tally of an election's
  votes, the older record layouts of \<^verbatim>\<open>src/rai/versioning.cpp\<close>, and the ledger constants.
\<close>

section \<open>Ledger constants\<close>

definition rai_test_account :: u256 where
  "rai_test_account = 0xB0311EA55708D6A53C75CDBF88300259C6D018522FE3D4D0A242E431F9E8B6D0"

definition rai_beta_account :: u256 where
  "rai_beta_account = 0x0311B25E0D1E1D7724BBA5BD523954F1DBCFC01CB8671D55ED2D32C7549FB252"

definition rai_live_account :: u256 where
  "rai_live_account = 0xE89208DD038FBB269987689621D52292AE9C35941A7484756ECCED92A65093BA"

definition genesis_account :: "rai_env \<Rightarrow> u256" where
  "genesis_account E =
     (if rai_network E = Rai_test_network then rai_test_account
      else if rai_network E = Rai_beta_network then rai_beta_account else rai_live_account)"

definition genesis_amount :: u128 where
  "genesis_amount = - 1"

definition burn_account :: u256 where
  "burn_account = 0"

lemma genesis_account_nonzero [simp]: "genesis_account E \<noteq> 0"
  by (simp add: genesis_account_def rai_test_account_def rai_beta_account_def rai_live_account_def)

lemma length_128: "LENGTH(128) = 128"
  by simp

lemma unat_genesis_amount: "unat genesis_amount = 2 ^ 128 - 1"
  by (simp only: genesis_amount_def unsigned_minus_1_eq_mask mask_eq_exp_minus_1 length_128)

text \<open>
  The genesis blocks: \<open>test_genesis_data\<close>, \<open>beta_genesis_data\<close> and \<open>live_genesis_data\<close>,
  open blocks whose source, representative and account are the genesis account.
\<close>

definition genesis_open :: "rai_env \<Rightarrow> open_block" where
  "genesis_open E =
     (let a = genesis_account E in
      \<lparr>open_hashables = \<lparr>o_source = a, o_representative = a, o_account = a\<rparr>,
       open_signature =
         (if rai_network E = Rai_test_network
          then 0xECDA914373A2F0CA1296475BAEE40500A7F0A7AD72A5A80C81D7FAB7F6C802B2CC7DB50F5DD0FB25B2EF11761FA7344A158DD5A700B21BD47DE5BD0F63153A02
          else if rai_network E = Rai_beta_network
          then 0x34DF447C7F185673128C3516A657DFEC7906F16C68FB5A8879432E2E4FB908C8ED0DD24BBECFAB3C7852898231544A421DC8CB636EF66C82E1245083EB08EA0F
          else 0x9F0C933C8ADE004D808EA1985FA746A7E95BA2A38F867640F53EC8F180BDFE9E2C1268DEAD7C2664F356E37ABA362BC58E46DBA03E523A7B5A19E4B6EB12BB02),
       open_work =
         (if rai_network E = Rai_test_network then 0x9680625b39d3363d
          else if rai_network E = Rai_beta_network then 0x869e17b2bfa36639
          else 0x62f05417dd3fb691)\<rparr>)"

section \<open>Account, pending and block information\<close>

record account_info =
  head :: u256
  rep_block :: u256
  open_block :: u256
  balance :: u128
  modified :: u64
  block_count :: u64

record pending_info =
  pending_source :: u256
  pending_amount :: u128

text \<open>
  A pending key is the pair of destination account and send hash. Keys are compared the way the
  database compares their bytes: by account first, then by hash.
\<close>

datatype pending_key = Pending_key (key_account: u256) (key_hash: u256)

instantiation pending_key :: linorder
begin

definition less_eq_pending_key :: "pending_key \<Rightarrow> pending_key \<Rightarrow> bool" where
  "less_eq_pending_key a b \<longleftrightarrow>
     key_account a < key_account b \<or> (key_account a = key_account b \<and> key_hash a \<le> key_hash b)"

definition less_pending_key :: "pending_key \<Rightarrow> pending_key \<Rightarrow> bool" where
  "less_pending_key a b \<longleftrightarrow>
     key_account a < key_account b \<or> (key_account a = key_account b \<and> key_hash a < key_hash b)"

instance
  by intro_classes (auto simp: less_eq_pending_key_def less_pending_key_def pending_key.expand)

end

record block_info =
  info_account :: u256
  info_balance :: u128

definition account_info_zero :: account_info where
  "account_info_zero = \<lparr>head = 0, rep_block = 0, open_block = 0, balance = 0, modified = 0, block_count = 0\<rparr>"

definition account_info_serialize :: "account_info \<Rightarrow> byte list" where
  "account_info_serialize i = write_u256 (head i) @ write_u256 (rep_block i) @ write_u256 (open_block i)
     @ write_u128 (balance i) @ write_u64 (modified i) @ write_u64 (block_count i)"

definition account_info_deserialize :: "account_info reader" where
  "account_info_deserialize bs = do {
     (head_a, bs) \<leftarrow> read_u256 bs;
     (rep_block_a, bs) \<leftarrow> read_u256 bs;
     (open_block_a, bs) \<leftarrow> read_u256 bs;
     (balance_a, bs) \<leftarrow> read_u128 bs;
     (modified_a, bs) \<leftarrow> read_u64 bs;
     (block_count_a, bs) \<leftarrow> read_u64 bs;
     Some (\<lparr>head = head_a, rep_block = rep_block_a, open_block = open_block_a, balance = balance_a,
            modified = modified_a, block_count = block_count_a\<rparr>, bs) }"

definition account_info_equal :: "account_info \<Rightarrow> account_info \<Rightarrow> bool" where
  "account_info_equal a b \<longleftrightarrow> head a = head b \<and> rep_block a = rep_block b \<and> open_block a = open_block b
     \<and> balance a = balance b \<and> modified a = modified b \<and> block_count a = block_count b"

definition pending_info_zero :: pending_info where
  "pending_info_zero = \<lparr>pending_source = 0, pending_amount = 0\<rparr>"

definition pending_info_serialize :: "pending_info \<Rightarrow> byte list" where
  "pending_info_serialize i = write_u256 (pending_source i) @ write_u128 (pending_amount i)"

definition pending_info_deserialize :: "pending_info reader" where
  "pending_info_deserialize bs = do {
     (source_a, bs) \<leftarrow> read_u256 bs;
     (amount_a, bs) \<leftarrow> read_u128 bs;
     Some (\<lparr>pending_source = source_a, pending_amount = amount_a\<rparr>, bs) }"

definition pending_key_serialize :: "pending_key \<Rightarrow> byte list" where
  "pending_key_serialize k = write_u256 (key_account k) @ write_u256 (key_hash k)"

definition pending_key_deserialize :: "pending_key reader" where
  "pending_key_deserialize bs = do {
     (account_a, bs) \<leftarrow> read_u256 bs;
     (hash_a, bs) \<leftarrow> read_u256 bs;
     Some (Pending_key account_a hash_a, bs) }"

definition block_info_zero :: block_info where
  "block_info_zero = \<lparr>info_account = 0, info_balance = 0\<rparr>"

definition block_info_serialize :: "block_info \<Rightarrow> byte list" where
  "block_info_serialize i = write_u256 (info_account i) @ write_u128 (info_balance i)"

definition block_info_deserialize :: "block_info reader" where
  "block_info_deserialize bs = do {
     (account_a, bs) \<leftarrow> read_u256 bs;
     (balance_a, bs) \<leftarrow> read_u128 bs;
     Some (\<lparr>info_account = account_a, info_balance = balance_a\<rparr>, bs) }"

record block_counts =
  count_send :: u64
  count_receive :: u64
  count_open :: u64
  count_change :: u64
  count_state :: u64

definition block_counts_sum :: "block_counts \<Rightarrow> u64" where
  "block_counts_sum c = count_send c + count_receive c + count_open c + count_change c + count_state c"

section \<open>Older layouts\<close>

record account_info_v1 =
  v1_head :: u256
  v1_rep_block :: u256
  v1_balance :: u128
  v1_modified :: u64

definition account_info_v1_serialize :: "account_info_v1 \<Rightarrow> byte list" where
  "account_info_v1_serialize i = write_u256 (v1_head i) @ write_u256 (v1_rep_block i)
     @ write_u128 (v1_balance i) @ write_u64 (v1_modified i)"

definition account_info_v1_deserialize :: "account_info_v1 reader" where
  "account_info_v1_deserialize bs = do {
     (head_a, bs) \<leftarrow> read_u256 bs;
     (rep_block_a, bs) \<leftarrow> read_u256 bs;
     (balance_a, bs) \<leftarrow> read_u128 bs;
     (modified_a, bs) \<leftarrow> read_u64 bs;
     Some (\<lparr>v1_head = head_a, v1_rep_block = rep_block_a, v1_balance = balance_a, v1_modified = modified_a\<rparr>, bs) }"

record pending_info_v3 =
  v3_source :: u256
  v3_amount :: u128
  v3_destination :: u256

definition pending_info_v3_serialize :: "pending_info_v3 \<Rightarrow> byte list" where
  "pending_info_v3_serialize i = write_u256 (v3_source i) @ write_u128 (v3_amount i)
     @ write_u256 (v3_destination i)"

definition pending_info_v3_deserialize :: "pending_info_v3 reader" where
  "pending_info_v3_deserialize bs = do {
     (source_a, bs) \<leftarrow> read_u256 bs;
     (amount_a, bs) \<leftarrow> read_u128 bs;
     (destination_a, bs) \<leftarrow> read_u256 bs;
     Some (\<lparr>v3_source = source_a, v3_amount = amount_a, v3_destination = destination_a\<rparr>, bs) }"

record account_info_v5 =
  v5_head :: u256
  v5_rep_block :: u256
  v5_open_block :: u256
  v5_balance :: u128
  v5_modified :: u64

definition account_info_v5_serialize :: "account_info_v5 \<Rightarrow> byte list" where
  "account_info_v5_serialize i = write_u256 (v5_head i) @ write_u256 (v5_rep_block i)
     @ write_u256 (v5_open_block i) @ write_u128 (v5_balance i) @ write_u64 (v5_modified i)"

definition account_info_v5_deserialize :: "account_info_v5 reader" where
  "account_info_v5_deserialize bs = do {
     (head_a, bs) \<leftarrow> read_u256 bs;
     (rep_block_a, bs) \<leftarrow> read_u256 bs;
     (open_block_a, bs) \<leftarrow> read_u256 bs;
     (balance_a, bs) \<leftarrow> read_u128 bs;
     (modified_a, bs) \<leftarrow> read_u64 bs;
     Some (\<lparr>v5_head = head_a, v5_rep_block = rep_block_a, v5_open_block = open_block_a,
            v5_balance = balance_a, v5_modified = modified_a\<rparr>, bs) }"

lemmas record_codec_defs =
  account_info_serialize_def account_info_deserialize_def
  pending_info_serialize_def pending_info_deserialize_def
  pending_key_serialize_def pending_key_deserialize_def
  block_info_serialize_def block_info_deserialize_def
  account_info_v1_serialize_def account_info_v1_deserialize_def
  pending_info_v3_serialize_def pending_info_v3_deserialize_def
  account_info_v5_serialize_def account_info_v5_deserialize_def

lemma codecI:
  assumes "\<And>x rest. d (e x @ rest) = Some (x, rest)" "\<And>bs x rest. d bs = Some (x, rest) \<Longrightarrow> bs = e x @ rest"
    "\<And>x. length (e x) = w" "\<And>bs. w \<le> length bs \<Longrightarrow> \<exists>x rest. d bs = Some (x, rest)"
  shows "codec e d w"
  by unfold_locales (use assms in fastforce)+

interpretation account_info: codec account_info_serialize account_info_deserialize 128
  by (rule codecI)
    (auto simp: record_codec_defs pod_read_long bind_Some_iff dest!: pod_readD)

interpretation pending_info: codec pending_info_serialize pending_info_deserialize 48
  by (rule codecI)
    (auto simp: record_codec_defs pod_read_long bind_Some_iff dest!: pod_readD)

interpretation pending_key: codec pending_key_serialize pending_key_deserialize 64
  by (rule codecI)
    (auto simp: record_codec_defs pod_read_long bind_Some_iff dest!: pod_readD)

interpretation block_info: codec block_info_serialize block_info_deserialize 48
  by (rule codecI)
    (auto simp: record_codec_defs pod_read_long bind_Some_iff dest!: pod_readD)

interpretation account_info_v1: codec account_info_v1_serialize account_info_v1_deserialize 88
  by (rule codecI)
    (auto simp: record_codec_defs pod_read_long bind_Some_iff dest!: pod_readD)

interpretation pending_info_v3: codec pending_info_v3_serialize pending_info_v3_deserialize 80
  by (rule codecI)
    (auto simp: record_codec_defs pod_read_long bind_Some_iff dest!: pod_readD)

interpretation account_info_v5: codec account_info_v5_serialize account_info_v5_deserialize 120
  by (rule codecI)
    (auto simp: record_codec_defs pod_read_long bind_Some_iff dest!: pod_readD)

section \<open>Votes\<close>

record vote =
  vote_sequence :: u64
  vote_block :: block
  vote_account :: u256
  vote_signature :: u512

definition vote_hash :: "rai_env \<Rightarrow> block \<Rightarrow> u64 \<Rightarrow> u256" where
  "vote_hash E b sequence = uint256_number (blake2b E 32 (uint256_bytes (block_hash E b) @ write_u64 sequence))"

definition new_vote :: "rai_env \<Rightarrow> u256 \<Rightarrow> u256 \<Rightarrow> u64 \<Rightarrow> block \<Rightarrow> vote" where
  "new_vote E account_a prv_a sequence_a block_a =
     \<lparr>vote_sequence = sequence_a, vote_block = block_a, vote_account = account_a,
      vote_signature = sign_message E prv_a account_a (vote_hash E block_a sequence_a)\<rparr>"

definition vote_validate :: "rai_env \<Rightarrow> vote \<Rightarrow> bool" where
  "vote_validate E v =
     validate_message E (vote_account v) (vote_hash E (vote_block v) (vote_sequence v)) (vote_signature v)"

definition vote_equal :: "vote \<Rightarrow> vote \<Rightarrow> bool" where
  "vote_equal a b \<longleftrightarrow> vote_sequence a = vote_sequence b \<and> block_equal (vote_block a) (vote_block b)
     \<and> vote_account a = vote_account b \<and> vote_signature a = vote_signature b"

definition vote_serialize_typed :: "vote \<Rightarrow> byte list" where
  "vote_serialize_typed v = write_u256 (vote_account v) @ write_u512 (vote_signature v)
     @ write_u64 (vote_sequence v) @ serialize (vote_block v)"

definition vote_serialize :: "vote \<Rightarrow> byte list" where
  "vote_serialize v = write_u256 (vote_account v) @ write_u512 (vote_signature v)
     @ write_u64 (vote_sequence v) @ serialize_block (vote_block v)"

text \<open>
  The readers share the three leading fields; they differ in how the block is read. As for
  blocks, the outer option is a failed assertion, the inner one the \<open>error_a\<close> result.
\<close>

definition read_vote_with :: "(byte list \<Rightarrow> (block \<times> byte list) option option) \<Rightarrow>
    byte list \<Rightarrow> (vote \<times> byte list) option option" where
  "read_vote_with read_block bs =
    (case do { (account_a, bs) \<leftarrow> read_u256 bs; (signature_a, bs) \<leftarrow> read_u512 bs;
               (sequence_a, bs) \<leftarrow> read_u64 bs; Some (account_a, signature_a, sequence_a, bs) } of
       None \<Rightarrow> Some None
     | Some (account_a, signature_a, sequence_a, bs) \<Rightarrow>
         (case read_block bs of None \<Rightarrow> None
          | Some None \<Rightarrow> Some None
          | Some (Some (b, rest)) \<Rightarrow>
              Some (Some (\<lparr>vote_sequence = sequence_a, vote_block = b, vote_account = account_a,
                           vote_signature = signature_a\<rparr>, rest))))"

definition read_vote :: "byte list \<Rightarrow> (vote \<times> byte list) option option" where
  "read_vote = read_vote_with deserialize_block"

definition read_vote_typed :: "block_type \<Rightarrow> byte list \<Rightarrow> (vote \<times> byte list) option option" where
  "read_vote_typed t = read_vote_with (deserialize_block_typed t)"

text \<open>
  \<open>vote::deserialize\<close> passes \<open>block_type ()\<close>, the value-initialised enumeration, which is
  \<open>invalid\<close>.
\<close>

definition vote_deserialize :: "byte list \<Rightarrow> (vote \<times> byte list) option option" where
  "vote_deserialize = read_vote_with (deserialize_block_typed Bt_invalid)"

lemma deserialize_block_serialize_block [simp, codec_simps]:
  "deserialize_block (serialize_block b @ rest) = Some (Some (b, rest))"
  by (simp add: deserialize_block_def serialize_block_def)

lemma read_vote_serialize [codec_simps]:
  "read_vote (vote_serialize v @ rest) = Some (Some (v, rest))"
  by (simp add: read_vote_def read_vote_with_def vote_serialize_def)

lemma read_vote_typed_serialize [codec_simps]:
  "read_vote_typed (type_of (vote_block v)) (vote_serialize_typed v @ rest) = Some (Some (v, rest))"
  by (simp add: read_vote_typed_def read_vote_with_def vote_serialize_typed_def)

lemma vote_equal_iff: "vote_equal a b \<longleftrightarrow> a = b"
  by (cases a; cases b) (auto simp: vote_equal_def block_equal_iff)

section \<open>The votes of an election\<close>

datatype tally_result = Tally_vote | Tally_changed | Tally_confirm

datatype vote_code = Vote_invalid | Vote_replay | Vote_vote

text \<open>\<open>rep_votes\<close>, an unordered map, as an association list in some iteration order.\<close>

record votes =
  votes_id :: u256
  rep_votes :: "(u256 \<times> block) list"

definition new_votes :: "u256 \<Rightarrow> block \<Rightarrow> votes" where
  "new_votes not_an_account block_a = \<lparr>votes_id = root block_a, rep_votes = [(not_an_account, block_a)]\<rparr>"

fun assign :: "'k \<Rightarrow> 'v \<Rightarrow> ('k \<times> 'v) list \<Rightarrow> ('k \<times> 'v) list" where
  "assign k v [] = []"
| "assign k v ((k', v') # xs) = (if k = k' then (k', v) # xs else (k', v') # assign k v xs)"

definition votes_vote :: "votes \<Rightarrow> vote \<Rightarrow> tally_result \<times> votes" where
  "votes_vote vs v =
    (case map_of (rep_votes vs) (vote_account v) of
       None \<Rightarrow> (Tally_vote, vs\<lparr>rep_votes := (vote_account v, vote_block v) # rep_votes vs\<rparr>)
     | Some b \<Rightarrow>
         if \<not> block_equal b (vote_block v)
         then (Tally_changed, vs\<lparr>rep_votes := assign (vote_account v) (vote_block v) (rep_votes vs)\<rparr>)
         else (Tally_confirm, vs))"

text \<open>The loop stops at the first block that differs from the first one.\<close>

fun uncontested_loop :: "block \<Rightarrow> (u256 \<times> block) list \<Rightarrow> bool" where
  "uncontested_loop b [] = True"
| "uncontested_loop b ((_, c) # xs) = (if block_equal c b then uncontested_loop b xs else False)"

definition uncontested :: "votes \<Rightarrow> bool" where
  "uncontested vs = (case rep_votes vs of [] \<Rightarrow> True | (_, b) # _ \<Rightarrow> uncontested_loop b (rep_votes vs))"

lemma map_of_assign:
  "map_of (assign k v xs) = (if k \<in> dom (map_of xs) then (map_of xs)(k \<mapsto> v) else map_of xs)"
  by (induction xs) (auto simp: fun_eq_iff)

lemma keys_assign [simp]: "map fst (assign k v xs) = map fst xs"
  by (induction xs) auto

lemma uncontested_loop_iff: "uncontested_loop b xs \<longleftrightarrow> (\<forall>c \<in> snd ` set xs. c = b)"
  by (induction xs) (auto simp: block_equal_iff split: if_splits)

text \<open>
  After a vote the representative's entry is the block voted for, whatever it was before, and
  no other representative's entry moved; keys stay distinct.
\<close>

lemma votes_vote_lookup:
  "map_of (rep_votes (snd (votes_vote vs v))) = (map_of (rep_votes vs))(vote_account v \<mapsto> vote_block v)"
  by (auto simp: votes_vote_def map_of_assign block_equal_iff fun_eq_iff split: option.splits)

lemma votes_vote_distinct:
  "distinct (map fst (rep_votes vs)) \<Longrightarrow> distinct (map fst (rep_votes (snd (votes_vote vs v))))"
  by (auto simp: votes_vote_def map_of_eq_None_iff image_image split: option.splits)

lemma uncontested_iff:
  "uncontested vs \<longleftrightarrow> (\<forall>b \<in> snd ` set (rep_votes vs). \<forall>c \<in> snd ` set (rep_votes vs). b = c)"
proof (cases "rep_votes vs")
  case Nil
  then show ?thesis by (simp add: uncontested_def)
next
  case (Cons p xs)
  have "uncontested vs \<longleftrightarrow> (\<forall>c \<in> snd ` set (p # xs). c = snd p)"
    by (simp only: uncontested_def Cons list.case case_prod_beta uncontested_loop_iff)
  also have "\<dots> \<longleftrightarrow> (\<forall>b \<in> snd ` set (p # xs). \<forall>c \<in> snd ` set (p # xs). b = c)"
    by (metis image_eqI list.set_intros(1))
  finally show ?thesis by (simp only: Cons)
qed

end
