(* ===== verification/Rai_Store.thy ===== *)
theory Rai_Store
  imports Rai_Common "HOL-Library.List_Lexorder"
begin

text \<open>
  The block store of \<^verbatim>\<open>src/rai/blockstore.hpp\<close> and \<^verbatim>\<open>blockstore.cpp\<close>. Every named
  database of the LMDB environment is a finite map from keys to values. The five block tables
  hold the raw value the code writes: the serialized block followed by the 32 bytes of its
  successor's hash, which \<open>set_predecessor\<close> patches in place when the successor arrives. The
  other tables hold records, whose byte layouts and round trips are in \<open>Rai_Common\<close>.

  The second half proves that, on well-formed tables, the raw operations implement a plain map
  from hashes to blocks and a map from hashes to successors; the locale \<open>keyed_table\<close> states the
  contract of the other tables and is interpreted on each of them. The caches of votes and
  unchecked blocks follow, and the order in which LMDB visits the keys.
\<close>

section \<open>State\<close>

record block_dbs =
  send_blocks :: "u256 \<rightharpoonup> byte list"
  receive_blocks :: "u256 \<rightharpoonup> byte list"
  open_blocks :: "u256 \<rightharpoonup> byte list"
  change_blocks :: "u256 \<rightharpoonup> byte list"
  state_blocks :: "u256 \<rightharpoonup> byte list"

record block_store =
  frontiers :: "u256 \<rightharpoonup> u256"
  accounts :: "u256 \<rightharpoonup> account_info"
  dbs :: block_dbs
  pending :: "pending_key \<rightharpoonup> pending_info"
  blocks_info :: "u256 \<rightharpoonup> block_info"
  representation :: "u256 \<rightharpoonup> u128"
  unchecked_table :: "u256 \<Rightarrow> byte list list"
  checksum :: "u64 \<rightharpoonup> u256"
  vote_table :: "u256 \<rightharpoonup> byte list"
  meta :: "u256 \<rightharpoonup> u256"
  unchecked_cache :: "(u256 \<times> block) list"
  vote_cache :: "u256 \<rightharpoonup> vote"

definition empty_store :: block_store where
  "empty_store = \<lparr>frontiers = Map.empty, accounts = Map.empty,
     dbs = \<lparr>send_blocks = Map.empty, receive_blocks = Map.empty, open_blocks = Map.empty,
            change_blocks = Map.empty, state_blocks = Map.empty\<rparr>,
     pending = Map.empty, blocks_info = Map.empty, representation = Map.empty,
     unchecked_table = (\<lambda>_. []), checksum = Map.empty, vote_table = Map.empty, meta = Map.empty,
     unchecked_cache = [], vote_cache = Map.empty\<rparr>"

definition block_info_max :: u64 where
  "block_info_max = 32"

text \<open>
  A cursor positioned by \<open>MDB_FIRST\<close> or \<open>MDB_SET_RANGE\<close>, as the keys still to be visited in
  key order; the end iterator is the empty list.
\<close>

definition cursor_first :: "('k::linorder \<rightharpoonup> 'v) \<Rightarrow> 'k list" where
  "cursor_first m = sorted_list_of_set (dom m)"

definition cursor_range :: "('k::linorder \<rightharpoonup> 'v) \<Rightarrow> 'k \<Rightarrow> 'k list" where
  "cursor_range m k = filter (\<lambda>x. k \<le> x) (cursor_first m)"

section \<open>Blocks\<close>

fun block_database :: "block_dbs \<Rightarrow> block_type \<Rightarrow> (u256 \<rightharpoonup> byte list) option" where
  "block_database d Bt_send = Some (send_blocks d)"
| "block_database d Bt_receive = Some (receive_blocks d)"
| "block_database d Bt_open = Some (open_blocks d)"
| "block_database d Bt_change = Some (change_blocks d)"
| "block_database d Bt_state = Some (state_blocks d)"
| "block_database d Bt_invalid = None"
| "block_database d Bt_not_a_block = None"

fun mdb_put_block :: "block_type \<Rightarrow> u256 \<Rightarrow> byte list \<Rightarrow> block_dbs \<Rightarrow> block_dbs option" where
  "mdb_put_block Bt_send h v d = Some (d\<lparr>send_blocks := (send_blocks d)(h \<mapsto> v)\<rparr>)"
| "mdb_put_block Bt_receive h v d = Some (d\<lparr>receive_blocks := (receive_blocks d)(h \<mapsto> v)\<rparr>)"
| "mdb_put_block Bt_open h v d = Some (d\<lparr>open_blocks := (open_blocks d)(h \<mapsto> v)\<rparr>)"
| "mdb_put_block Bt_change h v d = Some (d\<lparr>change_blocks := (change_blocks d)(h \<mapsto> v)\<rparr>)"
| "mdb_put_block Bt_state h v d = Some (d\<lparr>state_blocks := (state_blocks d)(h \<mapsto> v)\<rparr>)"
| "mdb_put_block Bt_invalid h v d = None"
| "mdb_put_block Bt_not_a_block h v d = None"

definition block_put_raw :: "block_store \<Rightarrow> block_type \<Rightarrow> u256 \<Rightarrow> byte list \<Rightarrow> block_store option" where
  "block_put_raw s t hash_a value_a = do {
     d \<leftarrow> mdb_put_block t hash_a value_a (dbs s);
     Some (s\<lparr>dbs := d\<rparr>) }"

text \<open>The tables are tried in the order send, receive, open, change, state.\<close>

definition block_get_raw :: "block_dbs \<Rightarrow> u256 \<Rightarrow> (block_type \<times> byte list) option" where
  "block_get_raw d hash_a =
    (case send_blocks d hash_a of
       None \<Rightarrow> (case receive_blocks d hash_a of
         None \<Rightarrow> (case open_blocks d hash_a of
           None \<Rightarrow> (case change_blocks d hash_a of
             None \<Rightarrow> (case state_blocks d hash_a of
               None \<Rightarrow> None
             | Some v \<Rightarrow> Some (Bt_state, v))
           | Some v \<Rightarrow> Some (Bt_change, v))
         | Some v \<Rightarrow> Some (Bt_open, v))
       | Some v \<Rightarrow> Some (Bt_receive, v))
     | Some v \<Rightarrow> Some (Bt_send, v))"

definition block_exists :: "block_store \<Rightarrow> u256 \<Rightarrow> bool" where
  "block_exists s hash_a \<longleftrightarrow>
     send_blocks (dbs s) hash_a \<noteq> None \<or> receive_blocks (dbs s) hash_a \<noteq> None
     \<or> open_blocks (dbs s) hash_a \<noteq> None \<or> change_blocks (dbs s) hash_a \<noteq> None
     \<or> state_blocks (dbs s) hash_a \<noteq> None"

text \<open>The outer option is the assertion that a stored value decodes; the inner one "not found".\<close>

definition block_get :: "block_store \<Rightarrow> u256 \<Rightarrow> block option option" where
  "block_get s hash_a =
    (case block_get_raw (dbs s) hash_a of
       None \<Rightarrow> Some None
     | Some (t, v) \<Rightarrow>
         if v = [] then Some None
         else (case deserialize_block_typed t v of
                 Some (Some (b, _)) \<Rightarrow> Some (Some b)
               | _ \<Rightarrow> None))"

definition block_successor :: "block_store \<Rightarrow> u256 \<Rightarrow> u256 option" where
  "block_successor s hash_a =
    (case block_get_raw (dbs s) hash_a of
       None \<Rightarrow> Some 0
     | Some (t, v) \<Rightarrow>
         if v = [] then Some 0
         else do { assert_that (32 \<le> length v);
                   (result, _) \<leftarrow> read_u256 (drop (length v - 32) v);
                   Some result })"

text \<open>
  The last 32 bytes of the predecessor's value become the hash of the new block. A value shorter
  than a hash would be written out of bounds; the model stops there.
\<close>

definition fill_value :: "rai_env \<Rightarrow> block_store \<Rightarrow> block \<Rightarrow> block_store option" where
  "fill_value E s b =
    (case block_get_raw (dbs s) (previous b) of
       None \<Rightarrow> None
     | Some (t, v) \<Rightarrow> do {
         assert_that (v \<noteq> []);
         assert_that (32 \<le> length v);
         block_put_raw s t (previous b) (take (length v - 32) v @ uint256_bytes (block_hash E b)) })"

fun set_predecessor :: "rai_env \<Rightarrow> block_store \<Rightarrow> block \<Rightarrow> block_store option" where
  "set_predecessor E s (Send b) = fill_value E s (Send b)"
| "set_predecessor E s (Receive b) = fill_value E s (Receive b)"
| "set_predecessor E s (Open b) = Some s"
| "set_predecessor E s (Change b) = fill_value E s (Change b)"
| "set_predecessor E s (State b) =
     (if \<not> uint256_is_zero (previous (State b)) then fill_value E s (State b) else Some s)"

definition block_put :: "rai_env \<Rightarrow> block_store \<Rightarrow> u256 \<Rightarrow> block \<Rightarrow> u256 \<Rightarrow> block_store option" where
  "block_put E s hash_a block_a successor_a = do {
     assert_that (uint256_is_zero successor_a \<or> block_exists s successor_a);
     s1 \<leftarrow> block_put_raw s (type_of block_a) hash_a (serialize block_a @ write_u256 successor_a);
     s2 \<leftarrow> set_predecessor E s1 block_a;
     if uint256_is_zero (previous block_a) then Some s2
     else do { successor \<leftarrow> block_successor s2 (previous block_a);
               assert_that (successor = hash_a);
               Some s2 } }"

definition block_successor_clear :: "rai_env \<Rightarrow> block_store \<Rightarrow> u256 \<Rightarrow> block_store option" where
  "block_successor_clear E s hash_a = do {
     b \<leftarrow> block_get s hash_a;
     block_a \<leftarrow> b;
     block_put E s hash_a block_a 0 }"

definition block_del :: "block_store \<Rightarrow> u256 \<Rightarrow> block_store option" where
  "block_del s hash_a =
    (let d = dbs s in
     if state_blocks d hash_a \<noteq> None then Some (s\<lparr>dbs := d\<lparr>state_blocks := (state_blocks d)(hash_a := None)\<rparr>\<rparr>)
     else if send_blocks d hash_a \<noteq> None then Some (s\<lparr>dbs := d\<lparr>send_blocks := (send_blocks d)(hash_a := None)\<rparr>\<rparr>)
     else if receive_blocks d hash_a \<noteq> None then Some (s\<lparr>dbs := d\<lparr>receive_blocks := (receive_blocks d)(hash_a := None)\<rparr>\<rparr>)
     else if open_blocks d hash_a \<noteq> None then Some (s\<lparr>dbs := d\<lparr>open_blocks := (open_blocks d)(hash_a := None)\<rparr>\<rparr>)
     else do { assert_that (change_blocks d hash_a \<noteq> None);
               Some (s\<lparr>dbs := d\<lparr>change_blocks := (change_blocks d)(hash_a := None)\<rparr>\<rparr>) })"

definition block_count_of :: "block_store \<Rightarrow> block_counts" where
  "block_count_of s =
     \<lparr>count_send = of_nat (card (dom (send_blocks (dbs s)))),
      count_receive = of_nat (card (dom (receive_blocks (dbs s)))),
      count_open = of_nat (card (dom (open_blocks (dbs s)))),
      count_change = of_nat (card (dom (change_blocks (dbs s)))),
      count_state = of_nat (card (dom (state_blocks (dbs s))))\<rparr>"

section \<open>Accounts and frontiers\<close>

definition account_put :: "block_store \<Rightarrow> u256 \<Rightarrow> account_info \<Rightarrow> block_store" where
  "account_put s account_a info_a = s\<lparr>accounts := (accounts s)(account_a \<mapsto> info_a)\<rparr>"

text \<open>The error result of \<open>account_get\<close> (no such account) is \<open>None\<close>.\<close>

definition account_get :: "block_store \<Rightarrow> u256 \<Rightarrow> account_info option" where
  "account_get s account_a = accounts s account_a"

definition account_del :: "block_store \<Rightarrow> u256 \<Rightarrow> block_store option" where
  "account_del s account_a = do {
     assert_that (accounts s account_a \<noteq> None);
     Some (s\<lparr>accounts := (accounts s)(account_a := None)\<rparr>) }"

definition account_exists :: "block_store \<Rightarrow> u256 \<Rightarrow> bool" where
  "account_exists s account_a =
     (case cursor_range (accounts s) account_a of [] \<Rightarrow> False | k # _ \<Rightarrow> k = account_a)"

definition account_count :: "block_store \<Rightarrow> nat" where
  "account_count s = card (dom (accounts s))"

definition root_exists :: "block_store \<Rightarrow> u256 \<Rightarrow> bool" where
  "root_exists s root_a \<longleftrightarrow> block_exists s root_a \<or> account_exists s root_a"

definition frontier_put :: "block_store \<Rightarrow> u256 \<Rightarrow> u256 \<Rightarrow> block_store" where
  "frontier_put s block_a account_a = s\<lparr>frontiers := (frontiers s)(block_a \<mapsto> account_a)\<rparr>"

definition frontier_get :: "block_store \<Rightarrow> u256 \<Rightarrow> u256" where
  "frontier_get s block_a = (case frontiers s block_a of None \<Rightarrow> 0 | Some a \<Rightarrow> a)"

definition frontier_del :: "block_store \<Rightarrow> u256 \<Rightarrow> block_store option" where
  "frontier_del s block_a = do {
     assert_that (frontiers s block_a \<noteq> None);
     Some (s\<lparr>frontiers := (frontiers s)(block_a := None)\<rparr>) }"

section \<open>Pending entries\<close>

definition pending_put :: "block_store \<Rightarrow> pending_key \<Rightarrow> pending_info \<Rightarrow> block_store" where
  "pending_put s key_a pending_a = s\<lparr>pending := (pending s)(key_a \<mapsto> pending_a)\<rparr>"

definition pending_del :: "block_store \<Rightarrow> pending_key \<Rightarrow> block_store option" where
  "pending_del s key_a = do {
     assert_that (pending s key_a \<noteq> None);
     Some (s\<lparr>pending := (pending s)(key_a := None)\<rparr>) }"

definition pending_get :: "block_store \<Rightarrow> pending_key \<Rightarrow> pending_info option" where
  "pending_get s key_a = pending s key_a"

definition pending_exists :: "block_store \<Rightarrow> pending_key \<Rightarrow> bool" where
  "pending_exists s key_a =
     (case cursor_range (pending s) key_a of [] \<Rightarrow> False | k # _ \<Rightarrow> k = key_a)"

section \<open>Block information, representation and checksum\<close>

definition block_info_put :: "block_store \<Rightarrow> u256 \<Rightarrow> block_info \<Rightarrow> block_store" where
  "block_info_put s hash_a info_a = s\<lparr>blocks_info := (blocks_info s)(hash_a \<mapsto> info_a)\<rparr>"

definition block_info_del :: "block_store \<Rightarrow> u256 \<Rightarrow> block_store option" where
  "block_info_del s hash_a = do {
     assert_that (blocks_info s hash_a \<noteq> None);
     Some (s\<lparr>blocks_info := (blocks_info s)(hash_a := None)\<rparr>) }"

definition block_info_get :: "block_store \<Rightarrow> u256 \<Rightarrow> block_info option" where
  "block_info_get s hash_a = blocks_info s hash_a"

definition block_info_exists :: "block_store \<Rightarrow> u256 \<Rightarrow> bool" where
  "block_info_exists s hash_a =
     (case cursor_range (blocks_info s) hash_a of [] \<Rightarrow> False | k # _ \<Rightarrow> k = hash_a)"

definition representation_get :: "block_store \<Rightarrow> u256 \<Rightarrow> u128" where
  "representation_get s account_a = (case representation s account_a of None \<Rightarrow> 0 | Some r \<Rightarrow> r)"

definition representation_put :: "block_store \<Rightarrow> u256 \<Rightarrow> u128 \<Rightarrow> block_store" where
  "representation_put s account_a representation_a =
     s\<lparr>representation := (representation s)(account_a \<mapsto> representation_a)\<rparr>"

definition representation_add :: "block_store \<Rightarrow> u256 \<Rightarrow> u128 \<Rightarrow> block_store option" where
  "representation_add s source_a amount_a = do {
     b \<leftarrow> block_get s source_a;
     source_block \<leftarrow> b;
     let source_rep = representative source_block;
     let source_previous = representation_get s source_rep;
     Some (representation_put s source_rep (source_previous + amount_a)) }"

definition checksum_key :: "u64 \<Rightarrow> byte \<Rightarrow> u64 option" where
  "checksum_key prefix mask_a = do {
     assert_that (prefix AND 0xff = 0);
     Some (prefix OR ucast mask_a) }"

definition checksum_put :: "block_store \<Rightarrow> u64 \<Rightarrow> byte \<Rightarrow> u256 \<Rightarrow> block_store option" where
  "checksum_put s prefix mask_a hash_a = do {
     key \<leftarrow> checksum_key prefix mask_a;
     Some (s\<lparr>checksum := (checksum s)(key \<mapsto> hash_a)\<rparr>) }"

definition checksum_get :: "block_store \<Rightarrow> u64 \<Rightarrow> byte \<Rightarrow> u256 option option" where
  "checksum_get s prefix mask_a = do {
     key \<leftarrow> checksum_key prefix mask_a;
     Some (checksum s key) }"

definition checksum_del :: "block_store \<Rightarrow> u64 \<Rightarrow> byte \<Rightarrow> block_store option" where
  "checksum_del s prefix mask_a = do {
     key \<leftarrow> checksum_key prefix mask_a;
     assert_that (checksum s key \<noteq> None);
     Some (s\<lparr>checksum := (checksum s)(key := None)\<rparr>) }"

section \<open>Unchecked blocks\<close>

text \<open>
  The table is opened with \<open>MDB_DUPSORT\<close>: a key has a sorted set of values. The cache is a
  multimap, kept as a list of pairs in insertion order.
\<close>

definition unchecked_clear :: "block_store \<Rightarrow> block_store" where
  "unchecked_clear s = s\<lparr>unchecked_table := (\<lambda>_. [])\<rparr>"

text \<open>
  Cached blocks first, then the decoded table entries; a table entry that does not decode is a
  null pointer in the result (\<open>None\<close> in the list).
\<close>

fun unchecked_decode :: "byte list list \<Rightarrow> block option list option" where
  "unchecked_decode [] = Some []"
| "unchecked_decode (v # vs) = do {
     r \<leftarrow> deserialize_block v;
     rs \<leftarrow> unchecked_decode vs;
     Some (map_option fst r # rs) }"

definition unchecked_get :: "block_store \<Rightarrow> u256 \<Rightarrow> block option list option" where
  "unchecked_get s hash_a = do {
     stored \<leftarrow> unchecked_decode (unchecked_table s hash_a);
     Some (map (Some \<circ> snd) (filter (\<lambda>e. fst e = hash_a) (unchecked_cache s)) @ stored) }"

fun unchecked_found :: "rai_env \<Rightarrow> u256 \<Rightarrow> block option list \<Rightarrow> bool option" where
  "unchecked_found E h [] = Some False"
| "unchecked_found E h (None # bs) = None"
| "unchecked_found E h (Some b # bs) = (if block_hash E b = h then Some True else unchecked_found E h bs)"

definition unchecked_put :: "rai_env \<Rightarrow> block_store \<Rightarrow> u256 \<Rightarrow> block \<Rightarrow> block_store option" where
  "unchecked_put E s hash_a block_a = do {
     cached \<leftarrow> unchecked_get s hash_a;
     found \<leftarrow> unchecked_found E (block_hash E block_a) cached;
     Some (if \<not> found then s\<lparr>unchecked_cache := unchecked_cache s @ [(hash_a, block_a)]\<rparr> else s) }"

definition unchecked_del :: "block_store \<Rightarrow> u256 \<Rightarrow> block \<Rightarrow> block_store" where
  "unchecked_del s hash_a block_a =
     s\<lparr>unchecked_cache := filter (\<lambda>e. \<not> (fst e = hash_a \<and> block_equal (snd e) block_a)) (unchecked_cache s),
       unchecked_table := (unchecked_table s)
         (hash_a := filter (\<lambda>v. v \<noteq> serialize_block block_a) (unchecked_table s hash_a))\<rparr>"

section \<open>Votes\<close>

text \<open>Outer option: the assertions of the constructor \<open>vote (MDB_val)\<close>; inner: a null pointer.\<close>

definition vote_get :: "block_store \<Rightarrow> u256 \<Rightarrow> vote option option" where
  "vote_get s account_a =
    (case vote_table s account_a of
       None \<Rightarrow> Some None
     | Some value \<Rightarrow> (case read_vote value of
           Some (Some (v, _)) \<Rightarrow> Some (Some v)
         | _ \<Rightarrow> None))"

definition vote_current :: "block_store \<Rightarrow> u256 \<Rightarrow> vote option option" where
  "vote_current s account_a =
    (case vote_cache s account_a of Some v \<Rightarrow> Some (Some v) | None \<Rightarrow> vote_get s account_a)"

definition vote_generate :: "rai_env \<Rightarrow> block_store \<Rightarrow> u256 \<Rightarrow> u256 \<Rightarrow> block \<Rightarrow> (vote \<times> block_store) option" where
  "vote_generate E s account_a key_a block_a = do {
     current \<leftarrow> vote_current s account_a;
     let sequence = (case current of Some v \<Rightarrow> vote_sequence v | None \<Rightarrow> 0) + 1;
     let result = new_vote E account_a key_a sequence block_a;
     Some (result, s\<lparr>vote_cache := (vote_cache s)(account_a \<mapsto> result)\<rparr>) }"

definition vote_max :: "block_store \<Rightarrow> vote \<Rightarrow> (vote \<times> block_store) option" where
  "vote_max s vote_a = do {
     current \<leftarrow> vote_current s (vote_account vote_a);
     let result = (case current of
                     Some c \<Rightarrow> if vote_sequence c > vote_sequence vote_a then c else vote_a
                   | None \<Rightarrow> vote_a);
     Some (result, s\<lparr>vote_cache := (vote_cache s)(vote_account vote_a \<mapsto> result)\<rparr>) }"

text \<open>
  \<open>flush\<close> empties both caches into their tables. The order of an \<open>unordered_map\<close> is
  unspecified; each vote goes to a key of its own, so the votes are written at once.
\<close>

fun flush_unchecked :: "(u256 \<times> block) list \<Rightarrow> (u256 \<Rightarrow> byte list list) \<Rightarrow> (u256 \<Rightarrow> byte list list)" where
  "flush_unchecked [] t = t"
| "flush_unchecked ((k, b) # rest) t = flush_unchecked rest (t(k := insort_insert (serialize_block b) (t k)))"

definition flush :: "block_store \<Rightarrow> block_store" where
  "flush s = s\<lparr>vote_cache := Map.empty, unchecked_cache := [],
     unchecked_table := flush_unchecked (unchecked_cache s) (unchecked_table s),
     vote_table := (\<lambda>a. case vote_cache s a of Some v \<Rightarrow> Some (vote_serialize v) | None \<Rightarrow> vote_table s a)\<rparr>"

section \<open>Version\<close>

definition version_put :: "block_store \<Rightarrow> int \<Rightarrow> block_store" where
  "version_put s version_a = s\<lparr>meta := (meta s)(1 \<mapsto> word_of_int version_a)\<rparr>"

definition version_get :: "block_store \<Rightarrow> int option" where
  "version_get s =
    (case meta s 1 of
       None \<Rightarrow> Some 1
     | Some version_value \<Rightarrow> do {
         assert_that (uint256_qwords version_value ! 2 = 0 \<and> uint256_qwords version_value ! 1 = 0
                      \<and> uint256_qwords version_value ! 0 = 0);
         Some (uint version_value) })"

definition upgrade_v6_to_v7 :: "block_store \<Rightarrow> block_store" where
  "upgrade_v6_to_v7 s = (version_put s 7)\<lparr>unchecked_table := (\<lambda>_. [])\<rparr>"

definition upgrade_v7_to_v8 :: "block_store \<Rightarrow> block_store" where
  "upgrade_v7_to_v8 s = (version_put s 8)\<lparr>unchecked_table := (\<lambda>_. [])\<rparr>"

text \<open>The step to version 11 drops the table \<open>unsynced\<close>, which nothing else reads.\<close>

definition upgrade_v10_to_v11 :: "block_store \<Rightarrow> block_store" where
  "upgrade_v10_to_v11 s = s"

section \<open>The raw tables implement a map of blocks and a map of successors\<close>

text \<open>
  A well-formed set of block tables: every value is a serialized block of the table's type and 32
  bytes, no hash is in two tables, and the tables are finite.
\<close>

definition dbs_wf :: "block_dbs \<Rightarrow> bool" where
  "dbs_wf d \<longleftrightarrow>
     (\<forall>t T h v. block_database d t = Some T \<longrightarrow> T h = Some v \<longrightarrow> length v = block_size t + 32)
     \<and> (\<forall>t t' T T' h. block_database d t = Some T \<longrightarrow> block_database d t' = Some T'
          \<longrightarrow> T h \<noteq> None \<longrightarrow> T' h \<noteq> None \<longrightarrow> t = t')
     \<and> (\<forall>t T. block_database d t = Some T \<longrightarrow> finite (dom T))"

definition blk :: "block_dbs \<Rightarrow> u256 \<rightharpoonup> block" where
  "blk d h = (case block_get_raw d h of
      None \<Rightarrow> None
    | Some (t, v) \<Rightarrow> (case deserialize_block_typed t v of Some (Some (b, _)) \<Rightarrow> Some b | _ \<Rightarrow> None))"

definition suc :: "block_dbs \<Rightarrow> u256 \<rightharpoonup> u256" where
  "suc d h = (case block_get_raw d h of
      None \<Rightarrow> None
    | Some (t, v) \<Rightarrow> map_option fst (read_u256 (drop (length v - 32) v)))"

abbreviation real_type :: "block_type \<Rightarrow> bool" where
  "real_type t \<equiv> t \<noteq> Bt_invalid \<and> t \<noteq> Bt_not_a_block"

lemma block_database_None_iff [simp]: "block_database d t = None \<longleftrightarrow> \<not> real_type t"
  by (cases t) auto

lemma real_type_type_of [simp]: "type_of b \<noteq> Bt_invalid" "type_of b \<noteq> Bt_not_a_block"
  by (cases b; simp)+

lemma block_get_raw_Some:
  assumes "dbs_wf d"
  shows "block_get_raw d h = Some (t, v) \<longleftrightarrow> (\<exists>T. block_database d t = Some T \<and> T h = Some v)"
proof
  show "block_get_raw d h = Some (t, v) \<Longrightarrow> \<exists>T. block_database d t = Some T \<and> T h = Some v"
    by (auto simp: block_get_raw_def split: option.splits)
  assume "\<exists>T. block_database d t = Some T \<and> T h = Some v"
  then obtain T where T: "block_database d t = Some T" "T h = Some v" by auto
  have none: "T' h = None" if "block_database d t' = Some T'" "t' \<noteq> t" for t' T'
    using assms T that unfolding dbs_wf_def by (metis option.distinct(1))
  have "t \<noteq> Bt_send \<Longrightarrow> send_blocks d h = None" "t \<noteq> Bt_receive \<Longrightarrow> receive_blocks d h = None"
    "t \<noteq> Bt_open \<Longrightarrow> open_blocks d h = None" "t \<noteq> Bt_change \<Longrightarrow> change_blocks d h = None"
    using none[of Bt_send] none[of Bt_receive] none[of Bt_open] none[of Bt_change] by auto
  then show "block_get_raw d h = Some (t, v)"
    using T by (cases t) (simp_all add: block_get_raw_def)
qed

lemma mdb_put_block_database:
  "mdb_put_block t h v d = Some d' \<Longrightarrow>
   block_database d' t' = (if t' = t then map_option (\<lambda>T. T(h \<mapsto> v)) (block_database d t') else block_database d t')"
  by (cases t; cases t') auto

lemma mdb_put_block_total: "real_type t \<Longrightarrow> \<exists>d'. mdb_put_block t h v d = Some d'"
  by (cases t) auto

lemma dbs_wf_put:
  assumes wf: "dbs_wf d" and put: "mdb_put_block t h v d = Some d'"
    and len: "length v = block_size t + 32"
    and free: "\<And>t' v'. block_get_raw d h = Some (t', v') \<Longrightarrow> t' = t"
  shows "dbs_wf d'"
proof -
  have other: "t' = t" if "block_database d t' = Some T" "T h \<noteq> None" for t' T
    using free block_get_raw_Some[OF wf, of h] that by blast
  have old: "\<exists>T. block_database d t' = Some T \<and> T' = (if t' = t then T(h \<mapsto> v) else T)"
    if "block_database d' t' = Some T'" for t' T'
    using that by (auto simp: mdb_put_block_database[OF put] split: if_splits)
  show ?thesis
    unfolding dbs_wf_def
  proof (intro conjI allI impI)
    fix t' T' k w
    assume a: "block_database d' t' = Some T'" "T' k = Some w"
    obtain T where T: "block_database d t' = Some T" "T' = (if t' = t then T(h \<mapsto> v) else T)"
      using old a(1) by blast
    have "T k = Some w \<Longrightarrow> length w = block_size t' + 32" using wf T(1) unfolding dbs_wf_def by blast
    then show "length w = block_size t' + 32" using T(2) a(2) len by (auto split: if_splits)
  next
    fix t1 t2 T1 T2 k
    assume a: "block_database d' t1 = Some T1" "block_database d' t2 = Some T2" "T1 k \<noteq> None" "T2 k \<noteq> None"
    obtain U1 U2 where u: "block_database d t1 = Some U1" "T1 = (if t1 = t then U1(h \<mapsto> v) else U1)"
      "block_database d t2 = Some U2" "T2 = (if t2 = t then U2(h \<mapsto> v) else U2)"
      using old a by meson
    show "t1 = t2"
    proof (cases "k = h")
      case True
      then have "t1 = t" "t2 = t" using u a other[of t1 U1] other[of t2 U2] by (auto split: if_splits)
      then show ?thesis by simp
    next
      case False
      then have "U1 k \<noteq> None" "U2 k \<noteq> None" using u a by (auto split: if_splits)
      then show ?thesis using u wf unfolding dbs_wf_def by blast
    qed
  next
    fix t' T'
    assume "block_database d' t' = Some T'"
    then obtain T where "block_database d t' = Some T" "T' = (if t' = t then T(h \<mapsto> v) else T)"
      using old by blast
    moreover from this(1) have "finite (dom T)" using wf unfolding dbs_wf_def by blast
    ultimately show "finite (dom T')" by simp
  qed
qed

lemma block_get_raw_put:
  assumes wf: "dbs_wf d" and put: "mdb_put_block t h v d = Some d'"
    and len: "length v = block_size t + 32"
    and free: "\<And>t' v'. block_get_raw d h = Some (t', v') \<Longrightarrow> t' = t"
  shows "block_get_raw d' = (block_get_raw d)(h \<mapsto> (t, v))"
proof -
  have wf': "dbs_wf d'" by (rule dbs_wf_put[OF assms])
  have real: "real_type t" using put by (cases t) auto
  have "block_get_raw d' k = Some (t', v') \<longleftrightarrow> ((block_get_raw d)(h \<mapsto> (t, v))) k = Some (t', v')" for k t' v'
  proof (cases "k = h")
    case True
    obtain T where "block_database d t = Some T" using real by (metis block_database_None_iff option.exhaust)
    then have "block_get_raw d' h = Some (t, v)"
      by (auto simp: block_get_raw_Some[OF wf'] mdb_put_block_database[OF put])
    then show ?thesis using True by auto
  next
    case False
    then show ?thesis
      by (auto simp: block_get_raw_Some[OF wf'] block_get_raw_Some[OF wf] mdb_put_block_database[OF put])
  qed
  then have "block_get_raw d' k = ((block_get_raw d)(h \<mapsto> (t, v))) k" for k
    by (metis option.exhaust surj_pair)
  then show ?thesis by blast
qed

text \<open>Every raw value of a well-formed store is a block of the table's type and a successor.\<close>

lemma raw_valueE:
  assumes wf: "dbs_wf d" and get: "block_get_raw d h = Some (t, v)"
  obtains b s where "t = type_of b" "v = serialize b @ write_u256 s"
proof -
  have T: "\<exists>T. block_database d t = Some T \<and> T h = Some v" using block_get_raw_Some[OF wf] get by blast
  then have len: "length v = block_size t + 32" using wf unfolding dbs_wf_def by blast
  have real: "t \<notin> {Bt_invalid, Bt_not_a_block}" using T by auto
  obtain b r where b: "deserialize_block_typed t v = Some (Some (b, r))"
    using deserialize_block_typed_null_iff[OF real, of v] len real
    by (cases t; cases "deserialize_block_typed t v") auto
  then have v: "type_of b = t" "v = serialize b @ r" using serialize_deserialize by blast+
  then have "length r = 32" using len by simp
  then obtain s r' where "read_u256 r = Some (s, r')" using u256.dec_total[of r] by auto
  then have "r = write_u256 s @ r'" by (rule u256.enc_dec)
  moreover from this have "r' = []" using \<open>length r = 32\<close> by simp
  ultimately show ?thesis using that v by auto
qed

lemma write_u256_nonempty [simp]: "write_u256 s \<noteq> []"
  by (metis list.size(3) pod_width(1) zero_neq_numeral)

lemma read_write_u256_nil [simp]: "read_u256 (write_u256 s) = Some (s, [])"
  using u256.dec_enc[of s "[]"] by simp

lemma views_raw:
  assumes "block_get_raw d h = Some (type_of b, serialize b @ write_u256 s)"
  shows "blk d h = Some b" "suc d h = Some s"
  using assms by (simp_all add: blk_def suc_def)

lemma blk_Some_raw:
  assumes "dbs_wf d"
  shows "blk d h = Some b \<longleftrightarrow> (\<exists>s. block_get_raw d h = Some (type_of b, serialize b @ write_u256 s))"
proof
  assume b: "blk d h = Some b"
  then obtain t v where raw: "block_get_raw d h = Some (t, v)" by (auto simp: blk_def split: option.splits)
  with assms obtain b' s where "t = type_of b'" "v = serialize b' @ write_u256 s" by (rule raw_valueE)
  moreover from this have "blk d h = Some b'" using raw views_raw by simp
  ultimately show "\<exists>s. block_get_raw d h = Some (type_of b, serialize b @ write_u256 s)" using b raw by auto
qed (auto dest: views_raw)

lemma raw_None_iff:
  assumes "dbs_wf d"
  shows "block_get_raw d h = None \<longleftrightarrow> blk d h = None" "block_get_raw d h = None \<longleftrightarrow> suc d h = None"
  using assms by (auto simp: blk_def suc_def split: option.splits elim!: raw_valueE)

lemma dom_suc: "dbs_wf d \<Longrightarrow> dom (suc d) = dom (blk d)"
  using raw_None_iff by (auto simp: dom_def)

lemma block_exists_iff:
  assumes "dbs_wf (dbs s)"
  shows "block_exists s h \<longleftrightarrow> h \<in> dom (blk (dbs s))"
proof -
  have "block_exists s h \<longleftrightarrow> block_get_raw (dbs s) h \<noteq> None"
    by (auto simp: block_exists_def block_get_raw_def split: option.splits)
  then show ?thesis using raw_None_iff(1)[OF assms] by auto
qed

lemma block_get_blk:
  assumes wf: "dbs_wf (dbs s)"
  shows "block_get s h = Some (blk (dbs s) h)"
proof (cases "block_get_raw (dbs s) h")
  case None
  then show ?thesis by (simp add: block_get_def blk_def)
next
  case (Some p)
  then obtain t v where raw: "block_get_raw (dbs s) h = Some (t, v)" by (cases p) auto
  with wf obtain b n where tv: "t = type_of b" "v = serialize b @ write_u256 n" by (rule raw_valueE)
  then show ?thesis using raw by (simp add: block_get_def blk_def)
qed

lemma block_successor_suc:
  assumes wf: "dbs_wf (dbs s)"
  shows "block_successor s h = Some (case suc (dbs s) h of None \<Rightarrow> 0 | Some n \<Rightarrow> n)"
proof (cases "block_get_raw (dbs s) h")
  case None
  then show ?thesis by (simp add: block_successor_def suc_def)
next
  case (Some p)
  then obtain t v where raw: "block_get_raw (dbs s) h = Some (t, v)" by (cases p) auto
  with wf obtain b n where tv: "t = type_of b" "v = serialize b @ write_u256 n" by (rule raw_valueE)
  then show ?thesis using raw by (simp add: block_successor_def suc_def)
qed

text \<open>Writing a block, or patching the successor of one, is an update of the two maps.\<close>

lemma put_block_views:
  assumes wf: "dbs_wf d" and free: "\<And>b'. blk d h = Some b' \<Longrightarrow> type_of b' = type_of b"
  obtains d' where "mdb_put_block (type_of b) h (serialize b @ write_u256 n) d = Some d'"
    "dbs_wf d'" "blk d' = (blk d)(h \<mapsto> b)" "suc d' = (suc d)(h \<mapsto> n)"
proof -
  obtain d' where put: "mdb_put_block (type_of b) h (serialize b @ write_u256 n) d = Some d'"
    using mdb_put_block_total[of "type_of b" h "serialize b @ write_u256 n" d] by auto
  have free': "t' = type_of b" if g: "block_get_raw d h = Some (t', v')" for t' v'
  proof -
    obtain b' s where "t' = type_of b'" "v' = serialize b' @ write_u256 s" using raw_valueE[OF wf g] .
    then show ?thesis using g free views_raw(1) by metis
  qed
  have len: "length (serialize b @ write_u256 n) = block_size (type_of b) + 32" by simp
  have raw: "block_get_raw d' = (block_get_raw d)(h \<mapsto> (type_of b, serialize b @ write_u256 n))"
    by (rule block_get_raw_put[OF wf put len free'])
  have "blk d' h = Some b" "suc d' h = Some n" using views_raw[of d' h b n] raw by simp_all
  moreover have "blk d' k = blk d k" "suc d' k = suc d k" if "k \<noteq> h" for k
    using that raw by (simp_all add: blk_def suc_def)
  ultimately have "blk d' = (blk d)(h \<mapsto> b)" "suc d' = (suc d)(h \<mapsto> n)" by auto
  moreover have "dbs_wf d'" by (rule dbs_wf_put[OF wf put len free'])
  ultimately show ?thesis using that put by blast
qed

lemma fill_value_views:
  assumes wf: "dbs_wf (dbs s)" and prev: "previous b \<in> dom (blk (dbs s))"
  obtains d' where "fill_value E s b = Some (s\<lparr>dbs := d'\<rparr>)" "dbs_wf d'" "blk d' = blk (dbs s)"
    "suc d' = (suc (dbs s))(previous b \<mapsto> block_hash E b)"
proof -
  obtain p where p: "blk (dbs s) (previous b) = Some p" using prev by auto
  then obtain m where raw: "block_get_raw (dbs s) (previous b) = Some (type_of p, serialize p @ write_u256 m)"
    using blk_Some_raw[OF wf] by blast
  have free: "\<And>b'. blk (dbs s) (previous b) = Some b' \<Longrightarrow> type_of b' = type_of p" using p by simp
  obtain d' where d': "mdb_put_block (type_of p) (previous b) (serialize p @ write_u256 (block_hash E b)) (dbs s) = Some d'"
      "dbs_wf d'" "blk d' = (blk (dbs s))(previous b \<mapsto> p)" "suc d' = (suc (dbs s))(previous b \<mapsto> block_hash E b)"
    using put_block_views[OF wf free] by blast
  have "fill_value E s b = Some (s\<lparr>dbs := d'\<rparr>)"
    using raw d'(1) by (simp add: fill_value_def block_put_raw_def write_u256_def[symmetric])
  moreover have "blk d' = blk (dbs s)" using d'(3) p by (simp add: fun_upd_idem)
  ultimately show ?thesis using that d' by blast
qed

text \<open>
  The contract of \<open>block_put\<close>: the block is stored under its hash, the predecessor's successor
  becomes that hash, and nothing else of the store changes.
\<close>

lemma block_put_views:
  assumes wf: "dbs_wf (dbs s)"
    and free: "\<And>b'. blk (dbs s) h = Some b' \<Longrightarrow> type_of b' = type_of b"
    and n: "n = 0 \<or> n \<in> dom (blk (dbs s))"
    and prev: "previous b \<noteq> 0 \<Longrightarrow> previous b \<in> dom (blk (dbs s)) \<and> h = block_hash E b"
    and first: "previous b = 0 \<Longrightarrow> type_of b \<in> {Bt_open, Bt_state}"
  obtains d' where "block_put E s h b n = Some (s\<lparr>dbs := d'\<rparr>)" "dbs_wf d'"
    "blk d' = (blk (dbs s))(h \<mapsto> b)"
    "suc d' = (if previous b = 0 then (suc (dbs s))(h \<mapsto> n) else (suc (dbs s))(h \<mapsto> n, previous b \<mapsto> h))"
proof -
  obtain d1 where d1: "mdb_put_block (type_of b) h (serialize b @ write_u256 n) (dbs s) = Some d1"
      "dbs_wf d1" "blk d1 = (blk (dbs s))(h \<mapsto> b)" "suc d1 = (suc (dbs s))(h \<mapsto> n)"
    using put_block_views[OF wf free] by blast
  have raw: "block_put_raw s (type_of b) h (serialize b @ write_u256 n) = Some (s\<lparr>dbs := d1\<rparr>)"
    using d1(1) by (simp add: block_put_raw_def)
  have ok: "uint256_is_zero n \<or> block_exists s n"
    using n by (simp add: block_exists_iff[OF wf])
  show ?thesis
  proof (cases "previous b = 0")
    case True
    then have "set_predecessor E (s\<lparr>dbs := d1\<rparr>) b = Some (s\<lparr>dbs := d1\<rparr>)"
      using first by (cases b) simp_all
    then have "block_put E s h b n = Some (s\<lparr>dbs := d1\<rparr>)"
      using raw ok True by (simp add: block_put_def)
    then show ?thesis using that d1 True by simp
  next
    case False
    have "previous b \<in> dom (blk (dbs (s\<lparr>dbs := d1\<rparr>)))" using prev[OF False] d1(3) by simp
    then obtain d2 where d2: "fill_value E (s\<lparr>dbs := d1\<rparr>) b = Some (s\<lparr>dbs := d2\<rparr>)" "dbs_wf d2"
        "blk d2 = blk d1" "suc d2 = (suc d1)(previous b \<mapsto> block_hash E b)"
      using fill_value_views[of "s\<lparr>dbs := d1\<rparr>" b] d1(2) by auto
    have set: "set_predecessor E (s\<lparr>dbs := d1\<rparr>) b = Some (s\<lparr>dbs := d2\<rparr>)"
      using d2(1) False by (cases b) simp_all
    have "block_successor (s\<lparr>dbs := d2\<rparr>) (previous b) = Some h"
      using d2 prev[OF False] by (simp add: block_successor_suc)
    then have "block_put E s h b n = Some (s\<lparr>dbs := d2\<rparr>)"
      using raw ok set False by (simp add: block_put_def)
    then show ?thesis using that d1 d2 prev[OF False] False by simp
  qed
qed

lemma block_successor_clear_views:
  assumes wf: "dbs_wf (dbs s)" and b: "blk (dbs s) h = Some b"
    and prev: "previous b \<noteq> 0 \<Longrightarrow> previous b \<in> dom (blk (dbs s)) \<and> h = block_hash E b"
    and first: "previous b = 0 \<Longrightarrow> type_of b \<in> {Bt_open, Bt_state}"
  obtains d' where "block_successor_clear E s h = Some (s\<lparr>dbs := d'\<rparr>)" "dbs_wf d'" "blk d' = blk (dbs s)"
    "suc d' = (if previous b = 0 then (suc (dbs s))(h \<mapsto> 0) else (suc (dbs s))(h \<mapsto> 0, previous b \<mapsto> h))"
proof -
  have free: "\<And>b'. blk (dbs s) h = Some b' \<Longrightarrow> type_of b' = type_of b" using b by simp
  obtain d' where "block_put E s h b 0 = Some (s\<lparr>dbs := d'\<rparr>)" "dbs_wf d'" "blk d' = (blk (dbs s))(h \<mapsto> b)"
    "suc d' = (if previous b = 0 then (suc (dbs s))(h \<mapsto> 0) else (suc (dbs s))(h \<mapsto> 0, previous b \<mapsto> h))"
    using block_put_views[OF wf free _ prev first, of 0] by blast
  then show ?thesis
    using that b by (simp add: block_successor_clear_def block_get_blk[OF wf] fun_upd_idem)
qed

lemma block_del_database:
  assumes wf: "dbs_wf (dbs s)" and h: "h \<in> dom (blk (dbs s))"
  obtains d' where "block_del s h = Some (s\<lparr>dbs := d'\<rparr>)"
    "\<And>t. block_database d' t = map_option (\<lambda>T. T(h := None)) (block_database (dbs s) t)"
proof -
  obtain t v where "block_get_raw (dbs s) h = Some (t, v)"
    using h raw_None_iff(1)[OF wf, of h] by (cases "block_get_raw (dbs s) h") auto
  then obtain T where T: "block_database (dbs s) t = Some T" "T h = Some v"
    using block_get_raw_Some[OF wf] by blast
  have none: "T' h = None" if "block_database (dbs s) t' = Some T'" "t' \<noteq> t" for t' T'
    using wf T that unfolding dbs_wf_def by (metis option.distinct(1))
  have nones: "t \<noteq> Bt_send \<Longrightarrow> send_blocks (dbs s) h = None" "t \<noteq> Bt_receive \<Longrightarrow> receive_blocks (dbs s) h = None"
    "t \<noteq> Bt_open \<Longrightarrow> open_blocks (dbs s) h = None" "t \<noteq> Bt_change \<Longrightarrow> change_blocks (dbs s) h = None"
    "t \<noteq> Bt_state \<Longrightarrow> state_blocks (dbs s) h = None"
    using none[of Bt_send] none[of Bt_receive] none[of Bt_open] none[of Bt_change] none[of Bt_state] by auto
  have del: "block_del s h = Some (s\<lparr>dbs := (case t of
      Bt_state \<Rightarrow> dbs s\<lparr>state_blocks := (state_blocks (dbs s))(h := None)\<rparr>
    | Bt_send \<Rightarrow> dbs s\<lparr>send_blocks := (send_blocks (dbs s))(h := None)\<rparr>
    | Bt_receive \<Rightarrow> dbs s\<lparr>receive_blocks := (receive_blocks (dbs s))(h := None)\<rparr>
    | Bt_open \<Rightarrow> dbs s\<lparr>open_blocks := (open_blocks (dbs s))(h := None)\<rparr>
    | _ \<Rightarrow> dbs s\<lparr>change_blocks := (change_blocks (dbs s))(h := None)\<rparr>)\<rparr>)" (is "_ = Some (s\<lparr>dbs := ?d\<rparr>)")
    using T nones by (cases t) (simp_all add: block_del_def Let_def)
  moreover have "block_database ?d t' = map_option (\<lambda>T. T(h := None)) (block_database (dbs s) t')" for t'
    using T nones by (cases t; cases t') (simp_all add: fun_upd_idem)
  ultimately show ?thesis using that by blast
qed

lemma block_del_views:
  assumes wf: "dbs_wf (dbs s)" and h: "h \<in> dom (blk (dbs s))"
  obtains d' where "block_del s h = Some (s\<lparr>dbs := d'\<rparr>)" "dbs_wf d'"
    "blk d' = (blk (dbs s))(h := None)" "suc d' = (suc (dbs s))(h := None)"
proof -
  obtain d' where del: "block_del s h = Some (s\<lparr>dbs := d'\<rparr>)"
    and db: "\<And>t. block_database d' t = map_option (\<lambda>T. T(h := None)) (block_database (dbs s) t)"
    using block_del_database[OF wf h] by blast
  have wf': "dbs_wf d'"
    using wf unfolding dbs_wf_def db by (auto split: if_splits) blast+
  have "block_get_raw d' k = Some (t, v) \<longleftrightarrow> ((block_get_raw (dbs s))(h := None)) k = Some (t, v)" for k t v
    by (auto simp: block_get_raw_Some[OF wf'] block_get_raw_Some[OF wf] db)
  then have "block_get_raw d' k = ((block_get_raw (dbs s))(h := None)) k" for k
    by (metis option.exhaust surj_pair)
  then have "blk d' = (blk (dbs s))(h := None)" "suc d' = (suc (dbs s))(h := None)"
    by (auto simp: blk_def suc_def fun_eq_iff)
  then show ?thesis using that del wf' by blast
qed

lemma finite_dom_blk: "dbs_wf d \<Longrightarrow> finite (dom (blk d))"
proof -
  assume wf: "dbs_wf d"
  have "dom (blk d) \<subseteq> dom (send_blocks d) \<union> dom (receive_blocks d) \<union> dom (open_blocks d)
      \<union> dom (change_blocks d) \<union> dom (state_blocks d)"
    by (auto simp: blk_def block_get_raw_def split: option.splits)
  moreover have fin: "finite (dom T)" if "block_database d t = Some T" for t T
    using wf that unfolding dbs_wf_def by blast
  have "finite (dom (send_blocks d) \<union> dom (receive_blocks d) \<union> dom (open_blocks d)
      \<union> dom (change_blocks d) \<union> dom (state_blocks d))"
    using fin[of Bt_send] fin[of Bt_receive] fin[of Bt_open] fin[of Bt_change] fin[of Bt_state] by simp
  ultimately show ?thesis by (rule finite_subset)
qed

lemma dbs_wf_empty [simp]: "dbs_wf (dbs empty_store)" "blk (dbs empty_store) = Map.empty"
  "suc (dbs empty_store) = Map.empty"
proof -
  have "T = Map.empty" if "block_database (dbs empty_store) t = Some T" for t T
    using that by (cases t) (simp_all add: empty_store_def)
  then have "T h = None" "finite (dom T)" if "block_database (dbs empty_store) t = Some T" for t T h
    using that by auto
  then show "dbs_wf (dbs empty_store)" unfolding dbs_wf_def by (metis option.distinct(1))
qed (auto simp: empty_store_def blk_def suc_def block_get_raw_def)

section \<open>Lookups through a range cursor\<close>

text \<open>
  The existence tests position a cursor at the first key not below the one asked for and compare;
  they agree with a lookup.
\<close>

lemma cursor_range_member:
  assumes "finite (dom m)"
  shows "(case cursor_range m k of [] \<Rightarrow> False | x # _ \<Rightarrow> x = k) \<longleftrightarrow> k \<in> dom m"
proof -
  define ks where "ks = sorted_list_of_set (dom m)"
  have "(case filter (\<lambda>x. k \<le> x) xs of [] \<Rightarrow> False | x # _ \<Rightarrow> x = k) \<longleftrightarrow> k \<in> set xs" if "sorted xs" for xs
    using that by (induction xs) (auto split: list.splits)
  moreover have "sorted ks" "set ks = dom m" using assms by (simp_all add: ks_def)
  ultimately show ?thesis by (simp add: cursor_range_def cursor_first_def ks_def[symmetric])
qed

lemma account_exists_iff: "finite (dom (accounts s)) \<Longrightarrow> account_exists s a \<longleftrightarrow> a \<in> dom (accounts s)"
  unfolding account_exists_def by (rule cursor_range_member)

lemma pending_exists_iff: "finite (dom (pending s)) \<Longrightarrow> pending_exists s k \<longleftrightarrow> k \<in> dom (pending s)"
  unfolding pending_exists_def by (rule cursor_range_member)

lemma block_info_exists_iff:
  "finite (dom (blocks_info s)) \<Longrightarrow> block_info_exists s h \<longleftrightarrow> h \<in> dom (blocks_info s)"
  unfolding block_info_exists_def by (rule cursor_range_member)

section \<open>The contract of a keyed table\<close>

text \<open>
  What every table with put, get and del promises: a lookup sees the last write of its key, a
  deletion needs the key to be there, and writes and deletions leave the rest of the store alone.
  \<open>rest\<close> is the store with this table blanked out.
\<close>

locale keyed_table =
  fixes get :: "'s \<Rightarrow> 'k \<Rightarrow> 'v option"
    and put :: "'s \<Rightarrow> 'k \<Rightarrow> 'v \<Rightarrow> 's"
    and del :: "'s \<Rightarrow> 'k \<Rightarrow> 's option"
    and rest :: "'s \<Rightarrow> 's"
  assumes get_put: "get (put s k v) = (get s)(k \<mapsto> v)"
    and del_None: "del s k = None \<longleftrightarrow> get s k = None"
    and get_del: "del s k = Some s' \<Longrightarrow> get s' = (get s)(k := None)"
    and rest_put: "rest (put s k v) = rest s"
    and rest_del: "del s k = Some s' \<Longrightarrow> rest s' = rest s"
    and state_eqI: "get s = get s' \<Longrightarrow> rest s = rest s' \<Longrightarrow> s = s'"
begin

lemma put_put: "put (put s k v) k w = put s k w"
  by (rule state_eqI) (simp_all add: get_put rest_put)

lemma put_commute: "k \<noteq> l \<Longrightarrow> put (put s k v) l w = put (put s l w) k v"
  by (rule state_eqI) (simp_all add: get_put rest_put fun_upd_twist)

lemma put_same: "get s k = Some v \<Longrightarrow> put s k v = s"
  by (rule state_eqI) (simp_all add: get_put rest_put fun_upd_idem)

lemma del_put: "get s k = None \<Longrightarrow> del (put s k v) k = Some s"
proof -
  assume "get s k = None"
  obtain s' where s': "del (put s k v) k = Some s'"
    using del_None[of "put s k v" k] by (cases "del (put s k v) k") (simp_all add: get_put)
  moreover have "s' = s"
    using s' \<open>get s k = None\<close> by - (rule state_eqI, simp_all add: get_del[OF s'] rest_del[OF s'] get_put rest_put fun_upd_idem)
  ultimately show ?thesis by simp
qed

lemma put_del: "get s k = Some v \<Longrightarrow> del s k = Some s' \<Longrightarrow> put s' k v = s"
  by (rule state_eqI) (simp_all add: get_put rest_put get_del rest_del fun_upd_idem)

end

lemma block_store_ext:
  "accounts s = accounts s' \<Longrightarrow> s\<lparr>accounts := f\<rparr> = s'\<lparr>accounts := f\<rparr> \<Longrightarrow> s = s'"
  "pending s = pending s' \<Longrightarrow> s\<lparr>pending := g\<rparr> = s'\<lparr>pending := g\<rparr> \<Longrightarrow> s = s'"
  "blocks_info s = blocks_info s' \<Longrightarrow> s\<lparr>blocks_info := i\<rparr> = s'\<lparr>blocks_info := i\<rparr> \<Longrightarrow> s = s'"
  "frontiers s = frontiers s' \<Longrightarrow> s\<lparr>frontiers := j\<rparr> = s'\<lparr>frontiers := j\<rparr> \<Longrightarrow> s = s'"
  by (cases s; cases s'; simp)+

interpretation account_table: keyed_table account_get account_put account_del
    "\<lambda>s. s\<lparr>accounts := Map.empty\<rparr>"
  by unfold_locales (auto simp: account_get_def[abs_def] account_put_def account_del_def assert_that_def split: if_splits, erule (1) block_store_ext)

interpretation pending_table: keyed_table pending_get pending_put pending_del
    "\<lambda>s. s\<lparr>pending := Map.empty\<rparr>"
  by unfold_locales (auto simp: pending_get_def[abs_def] pending_put_def pending_del_def assert_that_def split: if_splits, erule (1) block_store_ext)

interpretation block_info_table: keyed_table block_info_get block_info_put block_info_del
    "\<lambda>s. s\<lparr>blocks_info := Map.empty\<rparr>"
  by unfold_locales (auto simp: block_info_get_def[abs_def] block_info_put_def block_info_del_def assert_that_def split: if_splits, erule (1) block_store_ext)

interpretation frontier_table: keyed_table frontiers frontier_put frontier_del
    "\<lambda>s. s\<lparr>frontiers := Map.empty\<rparr>"
  by unfold_locales (auto simp: frontier_put_def frontier_del_def assert_that_def split: if_splits, erule (1) block_store_ext)

section \<open>Votes\<close>

lemma vote_get_put [simp]: "vote_table s a = Some (vote_serialize v) \<Longrightarrow> vote_get s a = Some (Some v)"
  using read_vote_serialize[of v "[]"] by (simp add: vote_get_def)

text \<open>Flushing moves cached votes to the table without changing the current vote of any account.\<close>

lemma vote_current_flush: "vote_current (flush s) a = vote_current s a"
proof (cases "vote_cache s a")
  case None
  then show ?thesis by (simp add: vote_current_def flush_def vote_get_def)
next
  case (Some v)
  then have "vote_table (flush s) a = Some (vote_serialize v)" by (simp add: flush_def)
  then show ?thesis using Some by (simp add: vote_current_def) (simp add: flush_def)
qed

lemma vote_max_cases:
  assumes "vote_max s v = Some (r, s')"
  obtains c where "vote_current s (vote_account v) = Some c"
    "r = (case c of Some c \<Rightarrow> if vote_sequence c > vote_sequence v then c else v | None \<Rightarrow> v)"
    "s' = s\<lparr>vote_cache := (vote_cache s)(vote_account v \<mapsto> r)\<rparr>"
  using assms by (auto simp: vote_max_def bind_Some_iff Let_def)

section \<open>Unchecked blocks\<close>

lemma unchecked_decode_Some:
  "unchecked_decode vs = Some bs \<Longrightarrow> set bs = (\<lambda>v. map_option fst (the (deserialize_block v))) ` set vs"
  by (induction vs arbitrary: bs) (auto simp: bind_Some_iff)

lemma unchecked_decode_total:
  "(\<exists>bs. unchecked_decode vs = Some bs) \<longleftrightarrow> (\<forall>v \<in> set vs. deserialize_block v \<noteq> None)"
  by (induction vs) (auto simp: bind_Some_iff)

lemma set_flush_unchecked:
  "set (flush_unchecked c t k) = set (t k) \<union> {serialize_block b | b. (k, b) \<in> set c}"
proof (induction c arbitrary: t)
  case (Cons e c)
  obtain h b where e: "e = (h, b)" by (cases e)
  have "{serialize_block b' | b'. (k, b') \<in> set (e # c)} =
      (if h = k then {serialize_block b} else {}) \<union> {serialize_block b' | b'. (k, b') \<in> set c}"
    unfolding e by auto
  then show ?case unfolding e flush_unchecked.simps Cons.IH by (auto simp: set_insort_insert)
qed simp

lemma sorted_flush_unchecked:
  "(\<And>k. sorted (t k) \<and> distinct (t k)) \<Longrightarrow> sorted (flush_unchecked c t k) \<and> distinct (flush_unchecked c t k)"
proof (induction c arbitrary: t)
  case (Cons e c)
  obtain h b where e: "e = (h, b)" by (cases e)
  have "sorted ((t(h := insort_insert (serialize_block b) (t h))) k)
      \<and> distinct ((t(h := insort_insert (serialize_block b) (t h))) k)" for k
    using Cons.prems by (simp add: sorted_insort_insert distinct_insort_insert)
  then show ?case unfolding e flush_unchecked.simps by (rule Cons.IH)
qed simp

lemma deserialize_serialize_block_nil [simp]: "deserialize_block (serialize_block b) = Some (Some (b, []))"
  using deserialize_block_serialize_block[of b "[]"] by simp

text \<open>Flushing keeps, for every dependency hash, the set of blocks waiting on it.\<close>

lemma unchecked_get_flush:
  assumes "unchecked_get s h = Some bs"
  obtains bs' where "unchecked_get (flush s) h = Some bs'" "set bs' = set bs"
proof -
  obtain stored where stored: "unchecked_decode (unchecked_table s h) = Some stored"
      "bs = map (Some \<circ> snd) (filter (\<lambda>e. fst e = h) (unchecked_cache s)) @ stored"
    using assms by (auto simp: unchecked_get_def bind_Some_iff)
  let ?t = "flush_unchecked (unchecked_cache s) (unchecked_table s) h"
  have "\<forall>v \<in> set ?t. deserialize_block v \<noteq> None"
    using stored(1) unchecked_decode_total[of "unchecked_table s h"] by (auto simp: set_flush_unchecked)
  then obtain bs' where bs': "unchecked_decode ?t = Some bs'" using unchecked_decode_total by blast
  have "set bs' = set bs"
    unfolding stored(2) unchecked_decode_Some[OF bs'] set_append unchecked_decode_Some[OF stored(1)]
    by (force simp: set_flush_unchecked)
  moreover have "unchecked_get (flush s) h = Some bs'" using bs' by (simp add: unchecked_get_def flush_def)
  ultimately show ?thesis using that by blast
qed

section \<open>Version\<close>

lemma le_bytes_add: "le_bytes (m + n) w = le_bytes m w @ le_bytes n (drop_bit (8 * m) w)"
proof (induction m arbitrary: w)
  case (Suc m)
  have "drop_bit (8 * m) (drop_bit 8 w) = drop_bit (8 * Suc m) w" by (simp add: add.commute)
  then show ?case by (simp add: Suc)
qed simp

lemma le_bytes_zero [simp]: "le_bytes n 0 = replicate n 0"
  by (induction n) simp_all

lemma le_word_zeros [simp]: "le_word (replicate n 0) = 0"
  by (induction n) simp_all

text \<open>A number below \<open>2 ^ 64\<close> leaves the first three lanes of its byte array zero.\<close>

lemma qwords_small:
  assumes "uint (x :: u256) < 2 ^ 64"
  shows "uint256_qwords x ! 0 = 0" "uint256_qwords x ! 1 = 0" "uint256_qwords x ! 2 = 0"
proof -
  have "drop_bit 64 x = 0"
    using assms by (intro word_uint_eqI) (simp add: drop_bit_eq_div uint_div)
  then have "uint256_bytes x = replicate 24 0 @ rev (le_bytes 8 x)"
    using le_bytes_add[of 8 24 x] by (simp add: uint256_bytes_def union_bytes_loop_be be_bytes_def)
  then have "uint256_qwords x = lanes 4 (replicate 24 0 @ rev (le_bytes 8 x))"
    by (simp add: uint256_qwords_def)
  also have "\<dots> = [0, 0, 0, le_word (rev (le_bytes 8 x))]"
  proof -
    have "lanes (Suc n) (replicate 8 0 @ bs) = 0 # lanes n bs" for n bs
      by simp
    moreover have "replicate 24 (0 :: byte) = replicate 8 0 @ replicate 8 0 @ replicate 8 0"
      by (simp flip: replicate_add)
    moreover have "lanes 1 (rev (le_bytes 8 x)) = [le_word (rev (le_bytes 8 x))]"
      by simp
    moreover have "(4 :: nat) = Suc (Suc (Suc 1))" by simp
    ultimately show ?thesis by (simp only: append_assoc)
  qed
  finally show "uint256_qwords x ! 0 = 0" "uint256_qwords x ! 1 = 0" "uint256_qwords x ! 2 = 0"
    by simp_all
qed

lemma version_get_put:
  assumes "0 \<le> v" "v < 2 ^ 64"
  shows "version_get (version_put s v) = Some v"
proof -
  have v: "uint (word_of_int v :: u256) = v"
    using assms by (simp add: uint_word_of_int)
  then show ?thesis
    using qwords_small[of "word_of_int v"] assms(2) by (simp add: version_get_def version_put_def)
qed


section \<open>The order of keys\<close>

text \<open>LMDB compares keys byte by byte; on big-endian images of equal width that is the order of the numbers.\<close>

lemma be_bytes_Suc: "be_bytes (Suc n) w = ucast (drop_bit (8 * n) w) # be_bytes n w"
  using le_bytes_add[of n 1 w] by (simp add: be_bytes_def)

lemma unat_byte: "unat (ucast (drop_bit (8 * n) w) :: byte) = unat (w :: 'a::len word) div 256 ^ n mod 256"
proof -
  have "unat (ucast (drop_bit (8 * n) w) :: byte) = take_bit 8 (unat (drop_bit (8 * n) w))" by (simp add: unsigned_ucast_eq)
  also have "\<dots> = take_bit 8 (drop_bit (8 * n) (unat w))" by (simp only: unat_drop_bit_eq)
  finally show ?thesis by (simp add: take_bit_eq_mod drop_bit_eq_div power_mult)
qed

lemma be_bytes_less:
  fixes v w :: "'a::len word"
  shows "be_bytes n v < be_bytes n w \<longleftrightarrow> unat v mod 256 ^ n < unat w mod 256 ^ n"
  "be_bytes n v = be_bytes n w \<longleftrightarrow> unat v mod 256 ^ n = unat w mod 256 ^ n"
proof (induction n)
  case (Suc n)
  let ?d = "\<lambda>x :: 'a word. unat x div 256 ^ n mod 256" and ?r = "\<lambda>x :: 'a word. unat x mod 256 ^ n"
  have split: "unat x mod 256 ^ Suc n = 256 ^ n * ?d x + ?r x" for x :: "'a word"
    using mod_mult2_eq[of "unat x" "256 ^ n" 256] by (simp add: mult.commute)
  have r: "?r x < 256 ^ n" for x :: "'a word" by simp
  have b: "(ucast (drop_bit (8 * n) v) :: byte) < ucast (drop_bit (8 * n) w) \<longleftrightarrow> ?d v < ?d w"
    "(ucast (drop_bit (8 * n) v) :: byte) = ucast (drop_bit (8 * n) w) \<longleftrightarrow> ?d v = ?d w"
    by (simp_all add: word_less_nat_alt word_unat_eq_iff unat_byte)
  have mono: "256 ^ n * x + y < 256 ^ n * x' + y'" if "x < x'" "y < 256 ^ n" for x x' y y' :: nat
  proof -
    have "256 ^ n * x + y < 256 ^ n * Suc x" using that(2) by simp
    also have "\<dots> \<le> 256 ^ n * x'" using that(1) by (intro mult_le_mono2) simp
    finally show ?thesis by linarith
  qed
  note up = mono[OF _ r[of v], of "?d v" "?d w" "?r w"] and down = mono[OF _ r[of w], of "?d w" "?d v" "?r v"]
  show "be_bytes (Suc n) v < be_bytes (Suc n) w \<longleftrightarrow> unat v mod 256 ^ Suc n < unat w mod 256 ^ Suc n"
    unfolding be_bytes_Suc split Cons_less_Cons b Suc.IH(1)
    by (cases "?d v" "?d w" rule: linorder_cases) (use up down in \<open>simp_all del: mod_less\<close>)
  show "be_bytes (Suc n) v = be_bytes (Suc n) w \<longleftrightarrow> unat v mod 256 ^ Suc n = unat w mod 256 ^ Suc n"
    unfolding be_bytes_Suc split list.inject b Suc.IH(2)
    by (cases "?d v" "?d w" rule: linorder_cases) (use up down in \<open>simp_all del: mod_less\<close>)
qed (simp_all add: be_bytes_def)

lemma append_less_same_length:
  "length a = length b \<Longrightarrow> a @ c < b @ d \<longleftrightarrow> a < b \<or> a = b \<and> c < (d :: 'a::linorder list)"
  by (induction a b rule: list_induct2) auto

lemma uint256_bytes_less: "uint256_bytes v < uint256_bytes w \<longleftrightarrow> v < w"
proof -
  have "unat x < 2 ^ 256" for x :: u256 using unsigned_less[of x] by simp
  then have "unat x mod 256 ^ 32 = unat x" for x :: u256 by simp
  then show ?thesis
    by (simp only: uint256_bytes_def union_bytes_loop_be append_Nil2 be_bytes_less word_less_nat_alt)
qed

lemma pending_key_byte_order: "pending_key_serialize a < pending_key_serialize b \<longleftrightarrow> a < b"
  by (simp add: pending_key_serialize_def write_u256_def append_less_same_length uint256_bytes_less less_pending_key_def)

end
