(* ===== verification/Rai_Visitors.thy ===== *)
theory Rai_Visitors
  imports Rai_Store
begin

text \<open>
  The visitors of \<^verbatim>\<open>src/rai/common.cpp\<close> that walk the stored blocks: \<open>amount_visitor\<close>,
  \<open>balance_visitor\<close> and \<open>representative_visitor\<close>. The first two call each other, so one
  partial function runs both; a visitor object is the tuple of its fields. The loops have no
  bound of their own (a cyclic store would keep them running), hence \<open>partial_function\<close>: the
  value \<open>None\<close> is a failed assertion or a loop that does not end.

  The second half gives the meaning of the walks: \<open>bal_of\<close>, \<open>amt_of\<close> and \<open>rep_of\<close> define the
  balance after a block, the amount a block moves and the block that set the representative, and
  the visitors are proved to return exactly these values on every store where they exist.
\<close>

section \<open>The visitors\<close>

datatype visitor =
    Balance_visitor (bv_current_balance: u256) (bv_current_amount: u256) (bv_balance: u128)
  | Amount_visitor (av_block_hash: u256) (av_current_amount: u256) (av_current_balance: u256) (av_amount: u128)

text \<open>One visit of a block by the amount visitor: the new current amount, current balance and amount.\<close>

fun amount_visit :: "rai_env \<Rightarrow> block \<Rightarrow> u256 \<times> u256 \<times> u128 \<Rightarrow> u256 \<times> u256 \<times> u128" where
  "amount_visit E (Send b) (ca, cb, amt) =
     (0, s_previous (send_hashables b), s_balance (send_hashables b))"
| "amount_visit E (Receive b) (ca, cb, amt) = (r_source (receive_hashables b), cb, amt)"
| "amount_visit E (Open b) (ca, cb, amt) =
     (if o_source (open_hashables b) \<noteq> genesis_account E then (o_source (open_hashables b), cb, amt)
      else (0, cb, genesis_amount))"
| "amount_visit E (State b) (ca, cb, amt) =
     (0, st_previous (state_hashables b), st_balance (state_hashables b))"
| "amount_visit E (Change b) (ca, cb, amt) = (0, cb, 0)"

text \<open>One visit by the balance visitor: the new current balance, current amount and balance.\<close>

fun balance_visit :: "rai_env \<Rightarrow> block_store \<Rightarrow> block \<Rightarrow> u256 \<times> u256 \<times> u128 \<Rightarrow> u256 \<times> u256 \<times> u128" where
  "balance_visit E s (Send b) (cb, ca, bal) = (0, ca, bal + s_balance (send_hashables b))"
| "balance_visit E s (Receive b) (cb, ca, bal) =
     (case block_info_get s (block_hash E (Receive b)) of
        Some i \<Rightarrow> (0, ca, bal + info_balance i)
      | None \<Rightarrow> (r_previous (receive_hashables b), r_source (receive_hashables b), bal))"
| "balance_visit E s (Open b) (cb, ca, bal) = (0, o_source (open_hashables b), bal)"
| "balance_visit E s (Change b) (cb, ca, bal) =
     (case block_info_get s (block_hash E (Change b)) of
        Some i \<Rightarrow> (0, ca, bal + info_balance i)
      | None \<Rightarrow> (c_previous (change_hashables b), ca, bal))"
| "balance_visit E s (State b) (cb, ca, bal) = (0, ca, st_balance (state_hashables b))"

abbreviation start_balance :: "u256 \<Rightarrow> visitor" where
  "start_balance h \<equiv> Balance_visitor h 0 0"

abbreviation start_amount :: "u256 \<Rightarrow> visitor" where
  "start_amount h \<equiv> Amount_visitor h h 0 0"

partial_function (option) compute :: "rai_env \<Rightarrow> block_store \<Rightarrow> visitor \<Rightarrow> u128 option" where
  "compute E s v = (case v of
      Amount_visitor bh ca cb amt \<Rightarrow>
        if \<not> uint256_is_zero ca \<or> \<not> uint256_is_zero cb then
          if \<not> uint256_is_zero ca then
            Option.bind (block_get s ca) (\<lambda>block.
              case block of
                Some b \<Rightarrow> (case amount_visit E b (ca, cb, amt) of (ca', cb', amt') \<Rightarrow>
                             compute E s (Amount_visitor bh ca' cb' amt'))
              | None \<Rightarrow> if bh = genesis_account E then compute E s (Amount_visitor bh 0 cb (- 1)) else None)
          else
            Option.bind (compute E s (start_balance cb)) (\<lambda>prev.
              compute E s (Amount_visitor bh ca 0 (if amt < prev then prev - amt else amt - prev)))
        else Some amt
    | Balance_visitor cb ca bal \<Rightarrow>
        if \<not> uint256_is_zero cb \<or> \<not> uint256_is_zero ca then
          if \<not> uint256_is_zero ca then
            Option.bind (compute E s (start_amount ca)) (\<lambda>source.
              compute E s (Balance_visitor cb 0 (bal + source)))
          else
            Option.bind (block_get s cb) (\<lambda>block.
              Option.bind block (\<lambda>b.
                case balance_visit E s b (cb, ca, bal) of (cb', ca', bal') \<Rightarrow>
                  compute E s (Balance_visitor cb' ca' bal')))
        else Some bal)"

definition block_balance :: "rai_env \<Rightarrow> block_store \<Rightarrow> u256 \<Rightarrow> u128 option" where
  "block_balance E s hash_a = compute E s (start_balance hash_a)"

definition block_amount :: "rai_env \<Rightarrow> block_store \<Rightarrow> u256 \<Rightarrow> u128 option" where
  "block_amount E s hash_a = compute E s (start_amount hash_a)"

text \<open>One visit by the representative visitor: the new current hash and result.\<close>

fun representative_visit :: "rai_env \<Rightarrow> block \<Rightarrow> u256 \<times> u256 \<Rightarrow> u256 \<times> u256" where
  "representative_visit E (Send b) (current, result) = (previous (Send b), result)"
| "representative_visit E (Receive b) (current, result) = (previous (Receive b), result)"
| "representative_visit E (Open b) (current, result) = (current, block_hash E (Open b))"
| "representative_visit E (Change b) (current, result) = (current, block_hash E (Change b))"
| "representative_visit E (State b) (current, result) = (current, block_hash E (State b))"

partial_function (option) representative_compute :: "rai_env \<Rightarrow> block_store \<Rightarrow> u256 \<times> u256 \<Rightarrow> u256 option" where
  "representative_compute E s v = (case v of (current, result) \<Rightarrow>
     if uint256_is_zero result then
       Option.bind (block_get s current) (\<lambda>block.
         Option.bind block (\<lambda>b. representative_compute E s (representative_visit E b (current, result))))
     else Some result)"

section \<open>What the walks mean\<close>

text \<open>
  \<open>bal_of g B h v\<close>: after block \<open>h\<close> its account holds \<open>v\<close>. \<open>amt_of g B h a\<close>: block \<open>h\<close>
  moves the amount \<open>a\<close>. The hash \<open>g\<close> is the source of the genesis block, which no block has.
\<close>

definition abs_diff :: "u128 \<Rightarrow> u128 \<Rightarrow> u128" where
  "abs_diff a b = (if a < b then b - a else a - b)"

definition state_at :: "(u256 \<rightharpoonup> block) \<Rightarrow> u256 \<Rightarrow> bool" where
  "state_at B h \<longleftrightarrow> (case B h of Some b \<Rightarrow> is_state b | None \<Rightarrow> False)"

inductive bal_of :: "u256 \<Rightarrow> (u256 \<rightharpoonup> block) \<Rightarrow> u256 \<Rightarrow> u128 \<Rightarrow> bool"
  and amt_of :: "u256 \<Rightarrow> (u256 \<rightharpoonup> block) \<Rightarrow> u256 \<Rightarrow> u128 \<Rightarrow> bool"
  for g :: u256 and B :: "u256 \<rightharpoonup> block" where
  bal_send: "B h = Some (Send b) \<Longrightarrow> bal_of g B h (s_balance (send_hashables b))"
| bal_receive: "B h = Some (Receive b) \<Longrightarrow> amt_of g B (r_source (receive_hashables b)) a \<Longrightarrow>
    bal_of g B (r_previous (receive_hashables b)) v \<Longrightarrow> \<not> state_at B (r_previous (receive_hashables b)) \<Longrightarrow>
    bal_of g B h (v + a)"
| bal_genesis: "B h = Some (Open b) \<Longrightarrow> o_source (open_hashables b) = g \<Longrightarrow> B g = None \<Longrightarrow> bal_of g B h (- 1)"
| bal_open: "B h = Some (Open b) \<Longrightarrow> amt_of g B (o_source (open_hashables b)) a \<Longrightarrow> bal_of g B h a"
| bal_change: "B h = Some (Change b) \<Longrightarrow> bal_of g B (c_previous (change_hashables b)) v \<Longrightarrow>
    \<not> state_at B (c_previous (change_hashables b)) \<Longrightarrow> bal_of g B h v"
| bal_state: "B h = Some (State b) \<Longrightarrow> bal_of g B h (st_balance (state_hashables b))"
| amt_send: "B h = Some (Send b) \<Longrightarrow> bal_of g B (s_previous (send_hashables b)) v \<Longrightarrow>
    amt_of g B h (abs_diff (s_balance (send_hashables b)) v)"
| amt_receive: "B h = Some (Receive b) \<Longrightarrow> amt_of g B (r_source (receive_hashables b)) a \<Longrightarrow> amt_of g B h a"
| amt_genesis: "B h = Some (Open b) \<Longrightarrow> o_source (open_hashables b) = g \<Longrightarrow> B g = None \<Longrightarrow> amt_of g B h (- 1)"
| amt_open: "B h = Some (Open b) \<Longrightarrow> o_source (open_hashables b) \<noteq> g \<Longrightarrow>
    amt_of g B (o_source (open_hashables b)) a \<Longrightarrow> amt_of g B h a"
| amt_change: "B h = Some (Change b) \<Longrightarrow> amt_of g B h 0"
| amt_state_first: "B h = Some (State b) \<Longrightarrow> st_previous (state_hashables b) = 0 \<Longrightarrow>
    amt_of g B h (st_balance (state_hashables b))"
| amt_state: "B h = Some (State b) \<Longrightarrow> st_previous (state_hashables b) \<noteq> 0 \<Longrightarrow>
    bal_of g B (st_previous (state_hashables b)) v \<Longrightarrow>
    amt_of g B h (abs_diff (st_balance (state_hashables b)) v)"

inductive rep_of :: "(u256 \<rightharpoonup> block) \<Rightarrow> u256 \<Rightarrow> u256 \<Rightarrow> bool" for B :: "u256 \<rightharpoonup> block" where
  rep_open: "B h = Some (Open b) \<Longrightarrow> rep_of B h h"
| rep_change: "B h = Some (Change b) \<Longrightarrow> rep_of B h h"
| rep_state: "B h = Some (State b) \<Longrightarrow> rep_of B h h"
| rep_send: "B h = Some (Send b) \<Longrightarrow> rep_of B (s_previous (send_hashables b)) r \<Longrightarrow> rep_of B h r"
| rep_receive: "B h = Some (Receive b) \<Longrightarrow> rep_of B (r_previous (receive_hashables b)) r \<Longrightarrow> rep_of B h r"

text \<open>The rules read backwards, one equation per kind of block.\<close>

lemma bal_of_at:
  "B h = Some (Send sb) \<Longrightarrow> bal_of g B h v \<longleftrightarrow> v = s_balance (send_hashables sb)"
  "B h = Some (Receive rb) \<Longrightarrow> bal_of g B h v \<longleftrightarrow>
     (\<exists>a w. v = w + a \<and> amt_of g B (r_source (receive_hashables rb)) a
        \<and> bal_of g B (r_previous (receive_hashables rb)) w \<and> \<not> state_at B (r_previous (receive_hashables rb)))"
  "B h = Some (Open ob) \<Longrightarrow> bal_of g B h v \<longleftrightarrow>
     (o_source (open_hashables ob) = g \<and> B g = None \<and> v = - 1) \<or> amt_of g B (o_source (open_hashables ob)) v"
  "B h = Some (Change cb) \<Longrightarrow> bal_of g B h v \<longleftrightarrow>
     bal_of g B (c_previous (change_hashables cb)) v \<and> \<not> state_at B (c_previous (change_hashables cb))"
  "B h = Some (State tb) \<Longrightarrow> bal_of g B h v \<longleftrightarrow> v = st_balance (state_hashables tb)"
  "B h = None \<Longrightarrow> bal_of g B h v \<longleftrightarrow> False"
         apply (auto elim: bal_of.cases intro: bal_of_amt_of.intros)[1]
      apply (rule iffI, erule bal_of.cases, simp_all, blast, auto intro: bal_receive)[1]
     apply (auto elim: bal_of.cases intro: bal_of_amt_of.intros)
  done

lemma amt_of_at:
  "B h = Some (Send sb) \<Longrightarrow> amt_of g B h a \<longleftrightarrow>
     (\<exists>w. bal_of g B (s_previous (send_hashables sb)) w \<and> a = abs_diff (s_balance (send_hashables sb)) w)"
  "B h = Some (Receive rb) \<Longrightarrow> amt_of g B h a \<longleftrightarrow> amt_of g B (r_source (receive_hashables rb)) a"
  "B h = Some (Open ob) \<Longrightarrow> amt_of g B h a \<longleftrightarrow>
     (if o_source (open_hashables ob) = g then B g = None \<and> a = - 1 else amt_of g B (o_source (open_hashables ob)) a)"
  "B h = Some (Change cb) \<Longrightarrow> amt_of g B h a \<longleftrightarrow> a = 0"
  "B h = Some (State tb) \<Longrightarrow> amt_of g B h a \<longleftrightarrow>
     (if st_previous (state_hashables tb) = 0 then a = st_balance (state_hashables tb)
      else \<exists>w. bal_of g B (st_previous (state_hashables tb)) w \<and> a = abs_diff (st_balance (state_hashables tb)) w)"
  "B h = None \<Longrightarrow> amt_of g B h a \<longleftrightarrow> False"
         apply (rule iffI, erule amt_of.cases, simp_all, blast, auto intro: amt_send)[1]
      apply (auto elim: amt_of.cases intro: bal_of_amt_of.intros)[3]
   apply (rule iffI, erule amt_of.cases, simp_all, blast, auto intro: amt_state amt_state_first split: if_splits)[1]
  apply (auto elim: amt_of.cases)
  done

lemma rep_of_at:
  "B h = Some (Send sb) \<Longrightarrow> rep_of B h r \<longleftrightarrow> rep_of B (s_previous (send_hashables sb)) r"
  "B h = Some (Receive rb) \<Longrightarrow> rep_of B h r \<longleftrightarrow> rep_of B (r_previous (receive_hashables rb)) r"
  "B h = Some (Open ob) \<Longrightarrow> rep_of B h r \<longleftrightarrow> r = h"
  "B h = Some (Change cb) \<Longrightarrow> rep_of B h r \<longleftrightarrow> r = h"
  "B h = Some (State tb) \<Longrightarrow> rep_of B h r \<longleftrightarrow> r = h"
  "B h = None \<Longrightarrow> rep_of B h r \<longleftrightarrow> False"
       apply (rule iffI, erule rep_of.cases, simp_all, erule (1) rep_send)
      apply (rule iffI, erule rep_of.cases, simp_all, erule (1) rep_receive)
     apply (rule iffI, erule rep_of.cases, simp_all, erule rep_open)
    apply (rule iffI, erule rep_of.cases, simp_all, erule rep_change)
   apply (rule iffI, erule rep_of.cases, simp_all, erule rep_state)
  apply (rule notI, erule rep_of.cases, simp_all)
  done

lemmas walks_at = bal_of_at amt_of_at rep_of_at

lemma bal_of_dom: "bal_of g B h v \<Longrightarrow> h \<in> dom B"
  by (erule bal_of.cases) auto

lemma amt_of_dom: "amt_of g B h a \<Longrightarrow> h \<in> dom B"
  by (erule amt_of.cases) auto

lemma bal_amt_functional:
  "bal_of g B h v \<Longrightarrow> (\<forall>v'. bal_of g B h v' \<longrightarrow> v' = v)"
  "amt_of g B h a \<Longrightarrow> (\<forall>a'. amt_of g B h a' \<longrightarrow> a' = a)"
proof (induction rule: bal_of_amt_of.inducts)
  case bal_send
  then show ?case unfolding bal_of_at(1)[where B = B, OF bal_send(1)] by (metis amt_of_dom domIff)
next
  case bal_receive
  then show ?case unfolding bal_of_at(2)[where B = B, OF bal_receive(1)] by (metis amt_of_dom domIff)
next
  case bal_genesis
  then show ?case unfolding bal_of_at(3)[where B = B, OF bal_genesis(1)] by (metis amt_of_dom domIff)
next
  case bal_open
  then show ?case unfolding bal_of_at(3)[where B = B, OF bal_open(1)] by (metis amt_of_dom domIff)
next
  case bal_change
  then show ?case unfolding bal_of_at(4)[where B = B, OF bal_change(1)] by (metis amt_of_dom domIff)
next
  case bal_state
  then show ?case unfolding bal_of_at(5)[where B = B, OF bal_state(1)] by (metis amt_of_dom domIff)
next
  case amt_send
  then show ?case unfolding amt_of_at(1)[where B = B, OF amt_send(1)] by (metis amt_of_dom domIff)
next
  case amt_receive
  then show ?case unfolding amt_of_at(2)[where B = B, OF amt_receive(1)] by (metis amt_of_dom domIff)
next
  case amt_genesis
  then show ?case unfolding amt_of_at(3)[where B = B, OF amt_genesis(1)] by (metis amt_of_dom domIff)
next
  case amt_open
  then show ?case unfolding amt_of_at(3)[where B = B, OF amt_open(1)] by (metis amt_of_dom domIff)
next
  case amt_change
  then show ?case unfolding amt_of_at(4)[where B = B, OF amt_change(1)] by (metis amt_of_dom domIff)
next
  case amt_state_first
  then show ?case unfolding amt_of_at(5)[where B = B, OF amt_state_first(1)] by (metis amt_of_dom domIff)
next
  case amt_state
  then show ?case unfolding amt_of_at(5)[where B = B, OF amt_state(1)] by (metis amt_of_dom domIff)
qed

lemma bal_of_functional: "bal_of g B h v \<Longrightarrow> bal_of g B h v' \<Longrightarrow> v' = v"
  using bal_amt_functional(1) by blast

lemma amt_of_functional: "amt_of g B h a \<Longrightarrow> amt_of g B h a' \<Longrightarrow> a' = a"
  using bal_amt_functional(2) by blast

lemma rep_of_functional: "rep_of B h r \<Longrightarrow> rep_of B h r' \<Longrightarrow> r' = r"
  by (induction arbitrary: r' rule: rep_of.induct) (auto simp: rep_of_at)

lemma rep_of_dom: "rep_of B h r \<Longrightarrow> h \<in> dom B \<and> r \<in> dom B"
  by (induction rule: rep_of.induct) auto

text \<open>Adding a block under a fresh hash keeps the meaning of every block already there.\<close>

lemma map_leD: "B \<subseteq>\<^sub>m B' \<Longrightarrow> B h = Some y \<Longrightarrow> B' h = Some y"
  by (metis domI map_le_def)

lemma bal_amt_mono:
  assumes "B \<subseteq>\<^sub>m B'" "B g = None \<Longrightarrow> B' g = None"
  shows "bal_of g B h v \<Longrightarrow> bal_of g B' h v"
    and "amt_of g B h a \<Longrightarrow> amt_of g B' h a"
proof (induction rule: bal_of_amt_of.inducts)
  case (bal_receive h rb a v)
  then have "r_previous (receive_hashables rb) \<in> dom B" using bal_of_dom by blast
  then have "\<not> state_at B' (r_previous (receive_hashables rb))"
    using bal_receive assms(1) by (auto simp: state_at_def map_le_def)
  then show ?case using bal_receive assms(1) by - (rule bal_of_amt_of.bal_receive[where b = rb], auto dest: map_leD)
next
  case (bal_change h cb v)
  then have "c_previous (change_hashables cb) \<in> dom B" using bal_of_dom by blast
  then have "\<not> state_at B' (c_previous (change_hashables cb))"
    using bal_change assms(1) by (auto simp: state_at_def map_le_def)
  then show ?case using bal_change assms(1) by - (rule bal_of_amt_of.bal_change[where b = cb], auto dest: map_leD)
next
  case (bal_send h b)
  then show ?case using assms by - (rule bal_of_amt_of.bal_send[where b = b], auto dest: map_leD)
next
  case (bal_genesis h b)
  then show ?case using assms by - (rule bal_of_amt_of.bal_genesis[where b = b], auto dest: map_leD)
next
  case (bal_open h b a)
  then show ?case using assms by - (rule bal_of_amt_of.bal_open[where b = b], auto dest: map_leD)
next
  case (bal_state h b)
  then show ?case using assms by - (rule bal_of_amt_of.bal_state[where b = b], auto dest: map_leD)
next
  case (amt_send h b v)
  then show ?case using assms by - (rule bal_of_amt_of.amt_send[where b = b], auto dest: map_leD)
next
  case (amt_receive h b a)
  then show ?case using assms by - (rule bal_of_amt_of.amt_receive[where b = b], auto dest: map_leD)
next
  case (amt_genesis h b)
  then show ?case using assms by - (rule bal_of_amt_of.amt_genesis[where b = b], auto dest: map_leD)
next
  case (amt_open h b a)
  then show ?case using assms by - (rule bal_of_amt_of.amt_open[where b = b], auto dest: map_leD)
next
  case (amt_change h b)
  then show ?case using assms by - (rule bal_of_amt_of.amt_change[where b = b], auto dest: map_leD)
next
  case (amt_state_first h b)
  then show ?case using assms by - (rule bal_of_amt_of.amt_state_first[where b = b], auto dest: map_leD)
next
  case (amt_state h b v)
  then show ?case using assms by - (rule bal_of_amt_of.amt_state[where b = b], auto dest: map_leD)
qed

lemma rep_of_mono: "rep_of B h r \<Longrightarrow> B \<subseteq>\<^sub>m B' \<Longrightarrow> rep_of B' h r"
  by (induction rule: rep_of.induct) (auto simp: rep_of_at dest: map_leD)

lemma map_le_fresh: "k \<notin> dom B \<Longrightarrow> B \<subseteq>\<^sub>m B(k \<mapsto> b)"
  by (auto simp: map_le_def)

lemma walks_extend:
  assumes "k \<notin> dom B"
  shows "k \<noteq> g \<Longrightarrow> bal_of g B h v \<Longrightarrow> bal_of g (B(k \<mapsto> b)) h v"
    "k \<noteq> g \<Longrightarrow> amt_of g B h a \<Longrightarrow> amt_of g (B(k \<mapsto> b)) h a"
    "rep_of B h r \<Longrightarrow> rep_of (B(k \<mapsto> b)) h r"
  by (simp_all add: bal_amt_mono[OF map_le_fresh[OF assms]] rep_of_mono[OF _ map_le_fresh[OF assms]])

text \<open>Removing a block nothing refers to keeps the meaning of all others.\<close>

definition unreferenced :: "(u256 \<rightharpoonup> block) \<Rightarrow> u256 \<Rightarrow> bool" where
  "unreferenced B k \<longleftrightarrow> (\<forall>h b. B h = Some b \<longrightarrow> previous b \<noteq> k \<and> source b \<noteq> k)"

lemma unreferencedD:
  assumes "unreferenced B k"
  shows "B h = Some (Send sb) \<Longrightarrow> s_previous (send_hashables sb) \<noteq> k"
    "B h = Some (Receive rb) \<Longrightarrow> r_previous (receive_hashables rb) \<noteq> k \<and> r_source (receive_hashables rb) \<noteq> k"
    "B h = Some (Open ob) \<Longrightarrow> o_source (open_hashables ob) \<noteq> k"
    "B h = Some (Change cb) \<Longrightarrow> c_previous (change_hashables cb) \<noteq> k"
    "B h = Some (State tb) \<Longrightarrow> st_previous (state_hashables tb) \<noteq> k"
proof -
  have "previous b \<noteq> k \<and> source b \<noteq> k" if "B h = Some b" for b
    using assms that by (simp add: unreferenced_def)
  from this[of "Send sb"] this[of "Receive rb"] this[of "Open ob"] this[of "Change cb"] this[of "State tb"]
  show "B h = Some (Send sb) \<Longrightarrow> s_previous (send_hashables sb) \<noteq> k"
    "B h = Some (Receive rb) \<Longrightarrow> r_previous (receive_hashables rb) \<noteq> k \<and> r_source (receive_hashables rb) \<noteq> k"
    "B h = Some (Open ob) \<Longrightarrow> o_source (open_hashables ob) \<noteq> k"
    "B h = Some (Change cb) \<Longrightarrow> c_previous (change_hashables cb) \<noteq> k"
    "B h = Some (State tb) \<Longrightarrow> st_previous (state_hashables tb) \<noteq> k"
    by simp_all
qed

lemma bal_amt_remove:
  assumes "unreferenced B k"
  shows "bal_of g B h v \<Longrightarrow> h \<noteq> k \<longrightarrow> bal_of g (B(k := None)) h v"
    and "amt_of g B h a \<Longrightarrow> h \<noteq> k \<longrightarrow> amt_of g (B(k := None)) h a"
proof (induction rule: bal_of_amt_of.inducts)
  case (bal_receive h rb a v)
  then show ?case using unreferencedD(2)[OF assms, of h rb]
    by (auto simp: state_at_def intro!: bal_of_amt_of.bal_receive)
next
  case (bal_change h cb v)
  then show ?case using unreferencedD(4)[OF assms, of h cb] by (auto simp: bal_of_at state_at_def)
qed (auto simp: bal_of_at amt_of_at split: if_splits dest: unreferencedD[OF assms])

lemma rep_of_remove:
  assumes "unreferenced B k" "rep_of B h r" "h \<noteq> k"
  shows "rep_of (B(k := None)) h r"
  using assms(2,3)
proof (induction rule: rep_of.induct)
  case (rep_send h b r)
  then have "s_previous (send_hashables b) \<noteq> k" using assms(1) unfolding unreferenced_def by fastforce
  then show ?case using rep_send by (simp add: rep_of_at)
next
  case (rep_receive h b r)
  then have "r_previous (receive_hashables b) \<noteq> k" using assms(1) unfolding unreferenced_def by fastforce
  then show ?case using rep_receive by (simp add: rep_of_at)
qed (simp_all add: rep_of_at)

section \<open>The visitors compute the meaning\<close>

definition walkable :: "rai_env \<Rightarrow> block_store \<Rightarrow> bool" where
  "walkable E s \<longleftrightarrow> dbs_wf (dbs s)
     \<and> (\<forall>h b. blk (dbs s) h = Some b \<longrightarrow> block_hash E b = h \<and> h \<noteq> 0)
     \<and> blk (dbs s) (genesis_account E) = None
     \<and> (\<forall>h b i. blk (dbs s) h = Some b \<longrightarrow> \<not> is_state b \<longrightarrow> blocks_info s h = Some i
          \<longrightarrow> bal_of (genesis_account E) (blk (dbs s)) h (info_balance i))"

lemma walkableD:
  assumes "walkable E s"
  shows "dbs_wf (dbs s)" "blk (dbs s) h = Some b \<Longrightarrow> block_hash E b = h"
    "blk (dbs s) h = Some b \<Longrightarrow> h \<noteq> 0" "blk (dbs s) (genesis_account E) = None"
    "blk (dbs s) h = Some b \<Longrightarrow> \<not> is_state b \<Longrightarrow> blocks_info s h = Some i
       \<Longrightarrow> bal_of (genesis_account E) (blk (dbs s)) h (info_balance i)"
  using assms unfolding walkable_def by blast+

lemma compute_balance_steps:
  "compute E s (Balance_visitor 0 0 bal) = Some bal"
  "ca \<noteq> 0 \<Longrightarrow> compute E s (Balance_visitor cb ca bal) =
     Option.bind (compute E s (start_amount ca)) (\<lambda>a. compute E s (Balance_visitor cb 0 (bal + a)))"
  "dbs_wf (dbs s) \<Longrightarrow> cb \<noteq> 0 \<Longrightarrow> blk (dbs s) cb = Some b \<Longrightarrow>
     compute E s (Balance_visitor cb 0 bal) = (case balance_visit E s b (cb, 0, bal) of (cb', ca', bal') \<Rightarrow>
       compute E s (Balance_visitor cb' ca' bal'))"
  by (subst compute.simps, simp add: block_get_blk)+

lemma compute_amount_steps:
  "compute E s (Amount_visitor bh 0 0 amt) = Some amt"
  "dbs_wf (dbs s) \<Longrightarrow> ca \<noteq> 0 \<Longrightarrow> blk (dbs s) ca = Some b \<Longrightarrow>
     compute E s (Amount_visitor bh ca cb amt) = (case amount_visit E b (ca, cb, amt) of (ca', cb', amt') \<Rightarrow>
       compute E s (Amount_visitor bh ca' cb' amt'))"
  "dbs_wf (dbs s) \<Longrightarrow> ca \<noteq> 0 \<Longrightarrow> blk (dbs s) ca = None \<Longrightarrow> bh = genesis_account E \<Longrightarrow>
     compute E s (Amount_visitor bh ca cb amt) = compute E s (Amount_visitor bh 0 cb (- 1))"
  "cb \<noteq> 0 \<Longrightarrow> compute E s (Amount_visitor bh 0 cb amt) =
     Option.bind (compute E s (start_balance cb)) (\<lambda>prev. compute E s (Amount_visitor bh 0 0 (abs_diff amt prev)))"
  by (subst compute.simps, simp add: block_get_blk abs_diff_def)+

lemma compute_correct:
  assumes w: "walkable E s" and g: "g = genesis_account E" and B: "B = blk (dbs s)"
  shows "bal_of g B h v \<Longrightarrow> \<forall>acc. compute E s (Balance_visitor h 0 acc) = Some (if state_at B h then v else acc + v)"
    and "amt_of g B h a \<Longrightarrow> \<forall>bh amt. compute E s (Amount_visitor bh h 0 amt) = Some a"
proof (induction rule: bal_of_amt_of.inducts)
  note [simp] = walkableD(1)[OF w] compute_balance_steps compute_amount_steps block_info_get_def
  have nz: "B h = Some b \<Longrightarrow> h \<noteq> 0" "B h = Some b \<Longrightarrow> block_hash E b = h" for h b
    using walkableD(2,3)[OF w] B by simp_all
  have info: "v = info_balance i" if "B h = Some b" "\<not> is_state b" "blocks_info s h = Some i" "bal_of g B h v" for h b i v
    using walkableD(5)[OF w, of h b i] that bal_of_functional B g by simp
  {
    case (bal_send h b)
    then show ?case using nz[of h] B by (simp add: state_at_def)
  next
    case (bal_receive h b a v)
    have h: "h \<noteq> 0" "block_hash E (Receive b) = h" using nz bal_receive(1) by auto
    have src: "r_source (receive_hashables b) \<noteq> 0" using amt_of_dom[OF bal_receive(2)] nz by auto
    have "bal_of g B h (v + a)" by (rule bal_of_amt_of.bal_receive[OF bal_receive(1,2,4,6)])
    then have i: "blocks_info s h = Some i \<Longrightarrow> v + a = info_balance i" for i
      using info[OF bal_receive(1)] by simp
    show ?case
      using bal_receive B h src i by (simp add: state_at_def add.commute add.left_commute split: option.splits)
  next
    case (bal_genesis h b)
    then show ?case using nz B g by (simp add: state_at_def)
  next
    case (bal_open h b a)
    have "h \<noteq> 0" "o_source (open_hashables b) \<noteq> 0" using nz bal_open(1) amt_of_dom[OF bal_open(2)] by auto
    then show ?case using bal_open B by (simp add: state_at_def)
  next
    case (bal_change h b v)
    have h: "h \<noteq> 0" "block_hash E (Change b) = h" using nz bal_change(1) by auto
    have "bal_of g B h v" by (rule bal_of_amt_of.bal_change[OF bal_change(1,2,4)])
    then have i: "blocks_info s h = Some i \<Longrightarrow> v = info_balance i" for i
      using info[OF bal_change(1)] by simp
    show ?case using bal_change B h i by (simp add: state_at_def split: option.splits)
  next
    case (bal_state h b)
    then show ?case using nz[of h] B by (simp add: state_at_def)
  next
    case (amt_send h b v)
    have "h \<noteq> 0" "s_previous (send_hashables b) \<noteq> 0" using nz amt_send(1) bal_of_dom[OF amt_send(2)] by auto
    then show ?case using amt_send B by (simp split: if_splits)
  next
    case (amt_receive h b a)
    have "h \<noteq> 0" using nz amt_receive(1) by auto
    then show ?case using amt_receive B by simp
  next
    case (amt_genesis h b)
    then show ?case using nz B g by (simp add: genesis_amount_def)
  next
    case (amt_open h b a)
    have "h \<noteq> 0" using nz amt_open(1) by auto
    then show ?case using amt_open B g by simp
  next
    case (amt_change h b)
    then show ?case using nz[of h] B by simp
  next
    case (amt_state_first h b)
    then show ?case using nz[of h] B by simp
  next
    case (amt_state h b v)
    have "h \<noteq> 0" using nz amt_state(1) by auto
    then show ?case using amt_state B by (simp split: if_splits)
  }
qed

lemma block_balance_correct:
  assumes "walkable E s" "bal_of (genesis_account E) (blk (dbs s)) h v"
  shows "block_balance E s h = Some v"
  using compute_correct(1)[OF assms(1) refl refl assms(2)] by (simp add: block_balance_def)

lemma block_amount_correct:
  assumes "walkable E s" "amt_of (genesis_account E) (blk (dbs s)) h a"
  shows "block_amount E s h = Some a"
  using compute_correct(2)[OF assms(1) refl refl assms(2)] by (simp add: block_amount_def)

lemma block_balance_zero: "block_balance E s 0 = Some 0"
  by (simp add: block_balance_def compute_balance_steps)

lemma representative_compute_correct:
  assumes w: "walkable E s" and rep: "rep_of (blk (dbs s)) h r"
  shows "representative_compute E s (h, 0) = Some r"
proof -
  have step: "representative_compute E s (current, 0) =
      representative_compute E s (representative_visit E b (current, 0))"
    if "blk (dbs s) current = Some b" for current b
    using that by (subst representative_compute.simps) (simp add: block_get_blk[OF walkableD(1)[OF w]])
  have stop: "representative_compute E s (current, result) = Some result" if "result \<noteq> 0" for current result
    using that by (subst representative_compute.simps) simp
  from rep show ?thesis
    by (induction rule: rep_of.induct) (simp_all add: step stop walkableD(2,3)[OF w])
qed

end
