(* ===== verification/Rai_Stats.thy ===== *)
theory Rai_Stats
  imports Rai_Prelude
begin

text \<open>
  The statistics of \<^verbatim>\<open>src/rai/node/stats.hpp\<close> and \<^verbatim>\<open>stats.cpp\<close>: counters keyed by type,
  detail and direction, the sampling of a counter over an interval, and the writeout of counters
  and samples to a log sink. Clock readings are arguments: a \<open>rai_clock\<close> holds what the steady
  clock, the system clock (both in nanoseconds) and \<open>seconds_since_epoch\<close> return while one
  operation runs. Observers are callbacks that cannot change the statistics and are left out.
\<close>

section \<open>Keys\<close>

datatype stat_type = St_traffic | St_error | St_message | St_block | St_ledger | St_rollback
  | St_bootstrap | St_vote | St_peering

datatype stat_detail = Sd_all | Sd_bad_sender | Sd_insufficient_work | Sd_send | Sd_receive | Sd_open
  | Sd_change | Sd_state_block | Sd_keepalive | Sd_publish | Sd_republish_vote | Sd_confirm_req
  | Sd_confirm_ack | Sd_initiate | Sd_bulk_pull | Sd_bulk_push | Sd_bulk_pull_blocks | Sd_frontier_req
  | Sd_vote_valid | Sd_vote_replay | Sd_vote_invalid | Sd_handshake

datatype stat_dir = Sdir_in | Sdir_out

fun stat_type_code :: "stat_type \<Rightarrow> u32" where
  "stat_type_code St_traffic = 0" | "stat_type_code St_error = 1" | "stat_type_code St_message = 2"
| "stat_type_code St_block = 3" | "stat_type_code St_ledger = 4" | "stat_type_code St_rollback = 5"
| "stat_type_code St_bootstrap = 6" | "stat_type_code St_vote = 7" | "stat_type_code St_peering = 8"

fun stat_detail_code :: "stat_detail \<Rightarrow> u32" where
  "stat_detail_code Sd_all = 0" | "stat_detail_code Sd_bad_sender = 1"
| "stat_detail_code Sd_insufficient_work = 2" | "stat_detail_code Sd_send = 3"
| "stat_detail_code Sd_receive = 4" | "stat_detail_code Sd_open = 5"
| "stat_detail_code Sd_change = 6" | "stat_detail_code Sd_state_block = 7"
| "stat_detail_code Sd_keepalive = 8" | "stat_detail_code Sd_publish = 9"
| "stat_detail_code Sd_republish_vote = 10" | "stat_detail_code Sd_confirm_req = 11"
| "stat_detail_code Sd_confirm_ack = 12" | "stat_detail_code Sd_initiate = 13"
| "stat_detail_code Sd_bulk_pull = 14" | "stat_detail_code Sd_bulk_push = 15"
| "stat_detail_code Sd_bulk_pull_blocks = 16" | "stat_detail_code Sd_frontier_req = 17"
| "stat_detail_code Sd_vote_valid = 18" | "stat_detail_code Sd_vote_replay = 19"
| "stat_detail_code Sd_vote_invalid = 20" | "stat_detail_code Sd_handshake = 21"

fun stat_dir_code :: "stat_dir \<Rightarrow> u32" where
  "stat_dir_code Sdir_in = 0" | "stat_dir_code Sdir_out = 1"

definition key_of :: "stat_type \<Rightarrow> stat_detail \<Rightarrow> stat_dir \<Rightarrow> u32" where
  "key_of t d r = (push_bit 16 (stat_type_code t) OR push_bit 8 (stat_detail_code d)) OR stat_dir_code r"

text \<open>The names written to the log; a code without a case gives the empty string.\<close>

definition type_to_string :: "u32 \<Rightarrow> string" where
  "type_to_string key =
    (let c = drop_bit 16 key AND 0xff in
     if c = 3 then ''block'' else if c = 6 then ''bootstrap'' else if c = 1 then ''error''
     else if c = 4 then ''ledger'' else if c = 8 then ''peering'' else if c = 5 then ''rollback''
     else if c = 0 then ''traffic'' else if c = 7 then ''vote'' else if c = 2 then ''message'' else [])"

definition detail_to_string :: "u32 \<Rightarrow> string" where
  "detail_to_string key =
    (let c = drop_bit 8 key AND 0xff in
     if c = 0 then ''all'' else if c = 1 then ''bad_sender'' else if c = 14 then ''bulk_pull''
     else if c = 16 then ''bulk_pull_blocks'' else if c = 15 then ''bulk_push''
     else if c = 6 then ''change'' else if c = 12 then ''confirm_ack''
     else if c = 11 then ''confirm_req'' else if c = 17 then ''frontier_req''
     else if c = 21 then ''handshake'' else if c = 13 then ''initiate''
     else if c = 2 then ''insufficient_work'' else if c = 8 then ''keepalive''
     else if c = 5 then ''open'' else if c = 9 then ''publish'' else if c = 4 then ''receive''
     else if c = 10 then ''republish_vote'' else if c = 3 then ''send''
     else if c = 7 then ''state_block'' else if c = 18 then ''vote_valid''
     else if c = 19 then ''vote_replay'' else if c = 20 then ''vote_invalid'' else [])"

definition dir_to_string :: "u32 \<Rightarrow> string" where
  "dir_to_string key =
    (let c = key AND 0xff in if c = 0 then ''in'' else if c = 1 then ''out'' else [])"

section \<open>State\<close>

record rai_clock =
  steady_now :: nat
  system_now :: nat
  seconds_since_epoch :: u64

record stat_datapoint =
  dp_value :: u64
  dp_timestamp :: nat

record stat_entry =
  sample_capacity :: nat
  samples :: "stat_datapoint list"
  sample_start_time :: nat
  sample_interval :: nat
  sample_current :: stat_datapoint
  counter :: stat_datapoint

record stat_config =
  sampling_enabled :: bool
  cfg_capacity :: nat
  cfg_interval :: nat
  log_interval_samples :: nat
  log_interval_counters :: nat
  log_rotation_count :: nat
  log_headers :: bool

text \<open>A line of a sink is a header or an entry; rotating a file empties it and its counter.\<close>

datatype log_line = Log_header string nat | Log_entry nat string string string u64

record log_sink =
  log_entries :: nat
  log_lines :: "log_line list"

record stat =
  config :: stat_config
  entries :: "u32 \<rightharpoonup> stat_entry"
  log_last_count_writeout :: nat
  log_last_sample_writeout :: nat
  log_count :: log_sink
  log_sample :: log_sink

definition default_stat_config :: stat_config where
  "default_stat_config = \<lparr>sampling_enabled = False, cfg_capacity = 0, cfg_interval = 0,
     log_interval_samples = 0, log_interval_counters = 0, log_rotation_count = 100, log_headers = True\<rparr>"

definition new_stat :: "stat_config \<Rightarrow> nat \<Rightarrow> stat" where
  "new_stat cfg now = \<lparr>config = cfg, entries = Map.empty, log_last_count_writeout = now,
     log_last_sample_writeout = now, log_count = \<lparr>log_entries = 0, log_lines = []\<rparr>,
     log_sample = \<lparr>log_entries = 0, log_lines = []\<rparr>\<rparr>"

definition new_stat_entry :: "rai_clock \<Rightarrow> nat \<Rightarrow> nat \<Rightarrow> stat_entry" where
  "new_stat_entry T capacity_a interval_a =
     \<lparr>sample_capacity = capacity_a, samples = [], sample_start_time = steady_now T,
      sample_interval = interval_a, sample_current = \<lparr>dp_value = 0, dp_timestamp = system_now T\<rparr>,
      counter = \<lparr>dp_value = 0, dp_timestamp = system_now T\<rparr>\<rparr>"

definition datapoint_add :: "rai_clock \<Rightarrow> u64 \<Rightarrow> bool \<Rightarrow> stat_datapoint \<Rightarrow> stat_datapoint" where
  "datapoint_add T addend update_timestamp p =
     (let p = p\<lparr>dp_value := dp_value p + addend\<rparr> in
      if update_timestamp then p\<lparr>dp_timestamp := system_now T\<rparr> else p)"

text \<open>\<open>boost::circular_buffer::push_back\<close>: the oldest element makes room; capacity 0 keeps nothing.\<close>

definition circular_push :: "nat \<Rightarrow> 'a \<Rightarrow> 'a list \<Rightarrow> 'a list" where
  "circular_push capacity_a x xs = drop (length xs + 1 - capacity_a) (xs @ [x])"

section \<open>Operations\<close>

definition get_entry_impl :: "rai_clock \<Rightarrow> stat \<Rightarrow> u32 \<Rightarrow> nat \<Rightarrow> nat \<Rightarrow> stat_entry \<times> stat" where
  "get_entry_impl T st key interval_a capacity_a =
    (case entries st key of
       None \<Rightarrow> (let e = new_stat_entry T capacity_a interval_a in (e, st\<lparr>entries := (entries st)(key \<mapsto> e)\<rparr>))
     | Some e \<Rightarrow> (e, st))"

definition get_entry :: "rai_clock \<Rightarrow> stat \<Rightarrow> u32 \<Rightarrow> stat_entry \<times> stat" where
  "get_entry T st key = get_entry_impl T st key (cfg_interval (config st)) (cfg_capacity (config st))"

definition rotate_sink :: "nat \<Rightarrow> log_sink \<Rightarrow> log_sink" where
  "rotate_sink limit k = (if limit \<le> log_entries k then \<lparr>log_entries = 0, log_lines = []\<rparr> else k)"

definition write_header :: "rai_clock \<Rightarrow> stat_config \<Rightarrow> string \<Rightarrow> log_sink \<Rightarrow> log_sink" where
  "write_header T cfg name k =
     (if log_headers cfg then k\<lparr>log_lines := log_lines k @ [Log_header name (system_now T)]\<rparr> else k)"

definition entry_line :: "u32 \<Rightarrow> stat_datapoint \<Rightarrow> log_line" where
  "entry_line key p =
     Log_entry (dp_timestamp p) (type_to_string key) (detail_to_string key) (dir_to_string key) (dp_value p)"

definition log_counters_impl :: "rai_clock \<Rightarrow> stat \<Rightarrow> log_sink \<Rightarrow> log_sink" where
  "log_counters_impl T st sink =
    (let k = write_header T (config st) ''counters'' (rotate_sink (log_rotation_count (config st)) sink);
         ls = map (\<lambda>key. entry_line key (counter (the (entries st key)))) (sorted_list_of_set (dom (entries st)))
     in \<lparr>log_entries = log_entries k + 1, log_lines = log_lines k @ ls\<rparr>)"

definition log_samples_impl :: "rai_clock \<Rightarrow> stat \<Rightarrow> log_sink \<Rightarrow> log_sink" where
  "log_samples_impl T st sink =
    (let k = write_header T (config st) ''samples'' (rotate_sink (log_rotation_count (config st)) sink);
         ls = concat (map (\<lambda>key. map (entry_line key) (samples (the (entries st key))))
                          (sorted_list_of_set (dom (entries st))))
     in \<lparr>log_entries = log_entries k + 1, log_lines = log_lines k @ ls\<rparr>)"

text \<open>\<open>duration<double, std::milli>\<close> of two readings against an interval in milliseconds.\<close>

definition longer_than :: "nat \<Rightarrow> nat \<Rightarrow> nat \<Rightarrow> bool" where
  "longer_than now start interval_ms \<longleftrightarrow> interval_ms * 1000000 < now - start"

definition stat_update :: "rai_clock \<Rightarrow> stat \<Rightarrow> u32 \<Rightarrow> u64 \<Rightarrow> stat" where
  "stat_update T st key value = (
     let now = steady_now T;
         (e, st) = get_entry_impl T st key (cfg_interval (config st)) (cfg_capacity (config st));
         e = e\<lparr>counter := datapoint_add T value True (counter e)\<rparr>;
         st = st\<lparr>entries := (entries st)(key \<mapsto> e)\<rparr>;
         st = (if 0 < log_interval_counters (config st)
                 \<and> longer_than now (log_last_count_writeout st) (log_interval_counters (config st))
               then st\<lparr>log_count := log_counters_impl T st (log_count st), log_last_count_writeout := now\<rparr>
               else st)
     in
       if sampling_enabled (config st) \<and> 0 < sample_interval e then
         (let e = e\<lparr>sample_current := datapoint_add T value False (sample_current e)\<rparr> in
          if longer_than now (sample_start_time e) (sample_interval e) then
            (let p = (sample_current e)\<lparr>dp_timestamp := system_now T\<rparr>;
                 e = e\<lparr>sample_start_time := now, samples := circular_push (sample_capacity e) p (samples e),
                       sample_current := p\<lparr>dp_value := 0\<rparr>\<rparr>;
                 st = st\<lparr>entries := (entries st)(key \<mapsto> e)\<rparr>
             in if 0 < log_interval_samples (config st)
                  \<and> longer_than now (log_last_sample_writeout st) (log_interval_samples (config st))
                then st\<lparr>log_sample := log_samples_impl T st (log_sample st), log_last_sample_writeout := now\<rparr>
                else st)
          else st\<lparr>entries := (entries st)(key \<mapsto> e)\<rparr>)
       else st)"

definition stat_add :: "rai_clock \<Rightarrow> stat \<Rightarrow> stat_type \<Rightarrow> stat_detail \<Rightarrow> stat_dir \<Rightarrow> u64 \<Rightarrow> bool \<Rightarrow> stat" where
  "stat_add T st t d r value detail_only =
    (let no_detail_mask = 0xffff00ff;
         key = key_of t d r;
         st = stat_update T st key value
     in if \<not> detail_only \<and> key AND no_detail_mask \<noteq> key
        then stat_update T st (key AND no_detail_mask) value else st)"

definition stat_inc :: "rai_clock \<Rightarrow> stat \<Rightarrow> stat_type \<Rightarrow> stat_detail \<Rightarrow> stat" where
  "stat_inc T st t d = stat_add T st t d Sdir_in 1 False"

definition inc_detail_only :: "rai_clock \<Rightarrow> stat \<Rightarrow> stat_type \<Rightarrow> stat_detail \<Rightarrow> stat" where
  "inc_detail_only T st t d = stat_add T st t d Sdir_in 1 False"

definition stat_count :: "rai_clock \<Rightarrow> stat \<Rightarrow> stat_type \<Rightarrow> stat_detail \<Rightarrow> stat_dir \<Rightarrow> u64 \<times> stat" where
  "stat_count T st t d r = (let (e, st) = get_entry T st (key_of t d r) in (dp_value (counter e), st))"

definition configure :: "rai_clock \<Rightarrow> stat \<Rightarrow> stat_type \<Rightarrow> stat_detail \<Rightarrow> stat_dir \<Rightarrow> nat \<Rightarrow> nat \<Rightarrow> stat" where
  "configure T st t d r interval_a capacity_a = snd (get_entry_impl T st (key_of t d r) interval_a capacity_a)"

definition disable_sampling :: "rai_clock \<Rightarrow> stat \<Rightarrow> stat_type \<Rightarrow> stat_detail \<Rightarrow> stat_dir \<Rightarrow> stat" where
  "disable_sampling T st t d r =
    (let (e, st) = get_entry T st (key_of t d r)
     in st\<lparr>entries := (entries st)(key_of t d r \<mapsto> e\<lparr>sample_interval := 0\<rparr>)\<rparr>)"

section \<open>Keys are unambiguous\<close>

lemma type_code_small: "stat_type_code t < 16" "stat_detail_code d < 32" "stat_dir_code r < 2"
    apply (cases t; simp)
   apply (cases d; simp)
  apply (cases r; simp)
  done

lemma stat_code_inject [simp]:
  "stat_type_code t = stat_type_code t' \<longleftrightarrow> t = t'"
  "stat_detail_code d = stat_detail_code d' \<longleftrightarrow> d = d'"
  "stat_dir_code r = stat_dir_code r' \<longleftrightarrow> r = r'"
    apply (cases t; cases t'; simp)
   apply (cases d; cases d'; simp)
  apply (cases r; cases r'; simp)
  done

text \<open>The three bytes of a key are the three codes.\<close>

lemma word_fields:
  fixes a b c :: u32
  assumes "a < 256" "b < 256" "c < 256"
  shows "drop_bit 16 ((push_bit 16 a OR push_bit 8 b) OR c) AND 0xff = a"
    "drop_bit 8 ((push_bit 16 a OR push_bit 8 b) OR c) AND 0xff = b"
    "((push_bit 16 a OR push_bit 8 b) OR c) AND 0xff = c"
    "((push_bit 16 a OR push_bit 8 b) OR c) AND 0xffff00ff = push_bit 16 a OR c"
proof -
  have high: "\<not> bit x n" if "x < 256" "8 \<le> n" for x :: u32 and n
  proof -
    have "take_bit 8 (uint x) = uint x"
      using that(1) by (intro take_bit_int_eq_self) (simp_all add: word_less_def)
    then have "\<not> bit (uint x) n" using that(2) by (metis bit_take_bit_iff linorder_not_le)
    then show ?thesis by (metis bit_uint_iff bit_imp_le_length)
  qed
  have low: "n < 8" if "bit x n" "x < 256" for x :: u32 and n
    using high[of x n] that by linarith
  have mask: "(0xff :: u32) = mask 8" "(0xffff00ff :: u32) = push_bit 16 (mask 16) OR mask 8"
    by (simp_all add: mask_numeral)
  show "drop_bit 16 ((push_bit 16 a OR push_bit 8 b) OR c) AND 0xff = a"
    unfolding mask by (rule bit_word_eqI) (auto simp: bit_simps dest: low[OF _ assms(1)] low[OF _ assms(2)] low[OF _ assms(3)])
  show "drop_bit 8 ((push_bit 16 a OR push_bit 8 b) OR c) AND 0xff = b"
    unfolding mask by (rule bit_word_eqI) (auto simp: bit_simps dest: low[OF _ assms(1)] low[OF _ assms(2)] low[OF _ assms(3)])
  show "((push_bit 16 a OR push_bit 8 b) OR c) AND 0xff = c"
    unfolding mask by (rule bit_word_eqI) (auto simp: bit_simps dest: low[OF _ assms(1)] low[OF _ assms(2)] low[OF _ assms(3)])
  show "((push_bit 16 a OR push_bit 8 b) OR c) AND 0xffff00ff = push_bit 16 a OR c"
    unfolding mask by (rule bit_word_eqI) (auto simp: bit_simps dest: low[OF _ assms(1)] low[OF _ assms(2)] low[OF _ assms(3)])
qed

lemma codes_below_256:
  "stat_type_code t < 256" "stat_detail_code d < 256" "stat_dir_code r < 256"
  using type_code_small(1)[of t] type_code_small(2)[of d] type_code_small(3)[of r]
  by (simp_all add: word_less_nat_alt)

lemmas key_fields = word_fields[OF codes_below_256, folded key_of_def]

lemma key_of_inject [simp]: "key_of t d r = key_of t' d' r' \<longleftrightarrow> t = t' \<and> d = d' \<and> r = r'"
  by (metis key_fields(1-3) stat_code_inject)

lemma key_no_detail [simp]: "key_of t d r AND 0xffff00ff = key_of t Sd_all r"
  by (simp only: key_fields) (simp add: key_of_def)

section \<open>What an update counts\<close>

definition count_of :: "stat \<Rightarrow> u32 \<Rightarrow> u64" where
  "count_of st key = (case entries st key of None \<Rightarrow> 0 | Some e \<Rightarrow> dp_value (counter e))"

lemma count_of_update [simp]:
  "count_of (stat_update T st k v) = (count_of st)(k := count_of st k + v)"
  by (rule ext) (simp add: stat_update_def count_of_def get_entry_impl_def new_stat_entry_def
      datapoint_add_def Let_def split: option.splits)

lemma count_of_add:
  "count_of (stat_add T st t d r v detail_only) =
     (if d = Sd_all \<or> detail_only then (count_of st)(key_of t d r := count_of st (key_of t d r) + v)
      else (count_of st)(key_of t d r := count_of st (key_of t d r) + v,
                         key_of t Sd_all r := count_of st (key_of t Sd_all r) + v))"
  by (simp add: stat_add_def Let_def)

lemma stat_count_eq: "fst (stat_count T st t d r) = count_of st (key_of t d r)"
  by (simp add: stat_count_def get_entry_def get_entry_impl_def count_of_def new_stat_entry_def Let_def
      split: option.splits)

lemma length_circular_push: "length xs \<le> n \<Longrightarrow> length (circular_push n x xs) = min n (length xs + 1)"
  by (auto simp: circular_push_def)

text \<open>Ring buffers never hold more samples than their capacity.\<close>

definition samples_ok :: "stat \<Rightarrow> bool" where
  "samples_ok st \<longleftrightarrow> (\<forall>k e. entries st k = Some e \<longrightarrow> length (samples e) \<le> sample_capacity e)"

lemma samples_ok_update: "samples_ok st \<Longrightarrow> samples_ok (stat_update T st k v)"
  by (auto simp: samples_ok_def stat_update_def get_entry_impl_def new_stat_entry_def
      datapoint_add_def Let_def length_circular_push split: option.splits if_splits)

end
