(* ===== verification/Rai_Ledger.thy ===== *)
theory Rai_Ledger
  imports Rai_Visitors Rai_Stats
begin

text \<open>
  The ledger of \<^verbatim>\<open>src/rai/ledger.hpp\<close> and \<^verbatim>\<open>ledger.cpp\<close>: queries, the five handlers of
  \<open>ledger_processor\<close> that validate and apply a block, the handlers of \<open>rollback_visitor\<close> that
  undo one, and \<open>genesis::initialize\<close> of \<^verbatim>\<open>src/rai/common.cpp\<close>. The store is threaded through
  every call in source order. The outer option of a handler is a failed assertion, a null pointer
  or a loop that does not end; a rejected block is a \<open>process_result\<close> with the ledger unchanged
  (but for one statistics counter in the state block handler).
\<close>

section \<open>State and results\<close>

datatype process_result = Progress | Bad_signature | Old | Negative_spend | Fork | Unreceivable
  | Gap_previous | Gap_source | Opened_burn_account | Balance_mismatch | Block_position

text \<open>The members of \<open>process_return\<close> other than the code are set only on some paths.\<close>

record process_return =
  ret_code :: process_result
  ret_account :: "u256 option"
  ret_amount :: "u128 option"
  ret_pending_account :: "u256 option"
  ret_state_is_send :: "bool option"

definition return_code :: "process_result \<Rightarrow> process_return" where
  "return_code c = \<lparr>ret_code = c, ret_account = None, ret_amount = None, ret_pending_account = None,
     ret_state_is_send = None\<rparr>"

record ledger =
  store :: block_store
  stats :: stat
  bootstrap_weights :: "u256 \<rightharpoonup> u128"
  bootstrap_weight_max_blocks :: u64
  check_bootstrap_weights :: bool

section \<open>Queries\<close>

definition ledger_balance :: "rai_env \<Rightarrow> block_store \<Rightarrow> u256 \<Rightarrow> u128 option" where
  "ledger_balance E s hash_a = compute E s (start_balance hash_a)"

definition ledger_amount :: "rai_env \<Rightarrow> block_store \<Rightarrow> u256 \<Rightarrow> u128 option" where
  "ledger_amount E s hash_a = compute E s (start_amount hash_a)"

definition account_balance :: "block_store \<Rightarrow> u256 \<Rightarrow> u128" where
  "account_balance s account_a = (case account_get s account_a of Some info \<Rightarrow> balance info | None \<Rightarrow> 0)"

text \<open>
  The loop runs from the cursor at \<open>(account, 0)\<close> to the cursor at \<open>(account + 1, 0)\<close>; it stops
  when both are at the same entry. Past the last entry the iteration has no defined behaviour.
\<close>

fun pending_loop :: "block_store \<Rightarrow> pending_key list \<Rightarrow> pending_key list \<Rightarrow> u128 \<Rightarrow> u128 option" where
  "pending_loop s i n result =
     (if i = n then Some result
      else (case i of [] \<Rightarrow> None
            | k # i' \<Rightarrow> (case pending s k of None \<Rightarrow> None
                 | Some info \<Rightarrow> pending_loop s i' n (result + pending_amount info))))"

definition account_pending :: "block_store \<Rightarrow> u256 \<Rightarrow> u128 option" where
  "account_pending s account_a =
     pending_loop s (cursor_range (pending s) (Pending_key account_a 0))
                    (cursor_range (pending s) (Pending_key (account_a + 1) 0)) 0"

definition representative_calculated :: "rai_env \<Rightarrow> block_store \<Rightarrow> u256 \<Rightarrow> u256 option" where
  "representative_calculated E s hash_a = representative_compute E s (hash_a, 0)"

definition ledger_representative :: "rai_env \<Rightarrow> block_store \<Rightarrow> u256 \<Rightarrow> u256 option" where
  "ledger_representative E s hash_a = do {
     result \<leftarrow> representative_calculated E s hash_a;
     assert_that (uint256_is_zero result \<or> block_exists s result);
     Some result }"

definition is_send :: "rai_env \<Rightarrow> block_store \<Rightarrow> state_block \<Rightarrow> bool option" where
  "is_send E s block_a =
    (let previous_a = st_previous (state_hashables block_a) in
     if \<not> uint256_is_zero previous_a then do {
       b \<leftarrow> ledger_balance E s previous_a;
       Some (st_balance (state_hashables block_a) < b) }
     else Some False)"

definition block_destination :: "rai_env \<Rightarrow> block_store \<Rightarrow> block \<Rightarrow> u256 option" where
  "block_destination E s block_a = (case block_a of
      Send b \<Rightarrow> Some (s_destination (send_hashables b))
    | State b \<Rightarrow> do { snd_a \<leftarrow> is_send E s b; Some (if snd_a then st_link (state_hashables b) else 0) }
    | _ \<Rightarrow> Some 0)"

definition block_source :: "rai_env \<Rightarrow> block_store \<Rightarrow> block \<Rightarrow> u256 option" where
  "block_source E s block_a = (case block_a of
      State b \<Rightarrow> do { snd_a \<leftarrow> is_send E s b;
                     Some (if \<not> snd_a then st_link (state_hashables b) else source block_a) }
    | _ \<Rightarrow> Some (source block_a))"

definition weight :: "ledger \<Rightarrow> u256 \<Rightarrow> u128 \<times> ledger" where
  "weight L account_a =
    (let rest = (\<lambda>L. (representation_get (store L) account_a, L)) in
     if check_bootstrap_weights L then
       if block_counts_sum (block_count_of (store L)) < bootstrap_weight_max_blocks L then
         (case bootstrap_weights L account_a of Some w \<Rightarrow> (w, L) | None \<Rightarrow> rest L)
       else rest (L\<lparr>check_bootstrap_weights := False\<rparr>)
     else rest L)"

text \<open>
  \<open>account\<close>: follow the successors until the head of the account, a state block, or a block
  whose \<open>block_info\<close> names the account.
\<close>

partial_function (option) account_loop ::
  "block_store \<Rightarrow> u256 \<Rightarrow> u256 \<Rightarrow> block \<Rightarrow> (u256 \<times> u256 \<times> block \<times> block_info option) option" where
  "account_loop s hash succ_a b =
     (if \<not> uint256_is_zero succ_a \<and> type_of b \<noteq> Bt_state \<and> block_info_get s succ_a = None then
        Option.bind (block_successor s hash) (\<lambda>succ_b.
          if \<not> uint256_is_zero succ_b then
            Option.bind (block_get s succ_b) (\<lambda>block. Option.bind block (\<lambda>b'. account_loop s succ_b succ_b b'))
          else account_loop s hash succ_b b)
      else Some (hash, succ_a, b,
                 if \<not> uint256_is_zero succ_a \<and> type_of b \<noteq> Bt_state then block_info_get s succ_a else None))"

definition ledger_account :: "block_store \<Rightarrow> u256 \<Rightarrow> u256 option" where
  "ledger_account s hash_a = do {
     block \<leftarrow> block_get s hash_a;
     block \<leftarrow> block;
     (hash, successor, block, info) \<leftarrow> account_loop s hash_a 1 block;
     result \<leftarrow> (case block of
         State b \<Rightarrow> Some (st_account (state_hashables b))
       | _ \<Rightarrow> if uint256_is_zero successor then Some (frontier_get s hash) else map_option info_account info);
     assert_that (\<not> uint256_is_zero result);
     Some result }"

definition latest :: "block_store \<Rightarrow> u256 \<Rightarrow> u256" where
  "latest s account_a = (case account_get s account_a of None \<Rightarrow> 0 | Some info \<Rightarrow> head info)"

definition latest_root :: "block_store \<Rightarrow> u256 \<Rightarrow> u256" where
  "latest_root s account_a = (case account_get s account_a of None \<Rightarrow> account_a | Some info \<Rightarrow> head info)"

definition ledger_checksum :: "block_store \<Rightarrow> u256 option" where
  "ledger_checksum s = do { c \<leftarrow> checksum_get s 0 0; c }"

definition ledger_checksum_update :: "block_store \<Rightarrow> u256 \<Rightarrow> block_store option" where
  "ledger_checksum_update s hash_a = do {
     c \<leftarrow> checksum_get s 0 0;
     value \<leftarrow> c;
     checksum_put s 0 0 (uint256_xor value hash_a) }"

text \<open>A new entry starts from the zero record with its open block set.\<close>

definition change_latest :: "rai_clock \<Rightarrow> block_store \<Rightarrow> u256 \<Rightarrow> u256 \<Rightarrow> u256 \<Rightarrow> u128 \<Rightarrow> u64 \<Rightarrow> bool
    \<Rightarrow> block_store option" where
  "change_latest T s account_a hash_a rep_block_a balance_a block_count_a is_state_a = do {
     (info, s) \<leftarrow> (case account_get s account_a of
         Some info \<Rightarrow> do { s \<leftarrow> ledger_checksum_update s (head info); Some (info, s) }
       | None \<Rightarrow> do {
           b \<leftarrow> block_get s hash_a;
           b \<leftarrow> b;
           assert_that (uint256_is_zero (previous b));
           Some (account_info_zero\<lparr>open_block := hash_a\<rparr>, s) });
     if \<not> uint256_is_zero hash_a then do {
       let info = info\<lparr>head := hash_a, rep_block := rep_block_a, balance := balance_a,
                       modified := seconds_since_epoch T, block_count := block_count_a\<rparr>;
       let s = account_put s account_a info;
       let s = (if block_count_a mod block_info_max = 0 \<and> \<not> is_state_a
                then block_info_put s hash_a \<lparr>info_account = account_a, info_balance = balance_a\<rparr> else s);
       ledger_checksum_update s hash_a }
     else account_del s account_a }"

definition ledger_successor :: "block_store \<Rightarrow> u256 \<Rightarrow> block option option" where
  "ledger_successor s root_a = do {
     successor \<leftarrow> (if account_exists s root_a then map_option open_block (account_get s root_a)
                  else block_successor s root_a);
     if \<not> uint256_is_zero successor then do {
       result \<leftarrow> block_get s successor;
       assert_that (result \<noteq> None);
       Some result }
     else Some None }"

definition forked_block :: "rai_env \<Rightarrow> block_store \<Rightarrow> block \<Rightarrow> block option" where
  "forked_block E s block_a = do {
     assert_that (\<not> block_exists s (block_hash E block_a));
     let root_a = root block_a;
     assert_that (block_exists s root_a \<or> account_exists s root_a);
     successor \<leftarrow> block_successor s root_a;
     result \<leftarrow> block_get s successor;
     (case result of
        Some b \<Rightarrow> Some b
      | None \<Rightarrow> do {
          info \<leftarrow> account_get s root_a;
          r \<leftarrow> block_get s (open_block info);
          r }) }"

section \<open>Votes\<close>

text \<open>
  \<open>tally\<close> sums the weights per block (blocks compared by value) and then orders the totals,
  greatest first, in a map keyed by the total: a later entry replaces an earlier one of the same
  total. Both hash maps are lists here, visited in list order.
\<close>

fun total_add :: "block \<Rightarrow> u128 \<Rightarrow> (block \<times> u128) list \<Rightarrow> (block \<times> u128) list" where
  "total_add b w [] = [(b, 0 + w)]"
| "total_add b w ((c, t) # ts) = (if block_equal c b then (c, t + w) # ts else (c, t) # total_add b w ts)"

fun tally_totals :: "ledger \<Rightarrow> (u256 \<times> block) list \<Rightarrow> (block \<times> u128) list \<Rightarrow> (block \<times> u128) list \<times> ledger" where
  "tally_totals L [] totals = (totals, L)"
| "tally_totals L ((rep, b) # rest) totals =
     (case weight L rep of (w, L') \<Rightarrow> tally_totals L' rest (total_add b w totals))"

fun tally_insert :: "u128 \<Rightarrow> block \<Rightarrow> (u128 \<times> block) list \<Rightarrow> (u128 \<times> block) list" where
  "tally_insert w b [] = [(w, b)]"
| "tally_insert w b ((w', b') # rest) =
     (if w' < w then (w, b) # (w', b') # rest
      else if w = w' then (w', b) # rest
      else (w', b') # tally_insert w b rest)"

definition tally :: "ledger \<Rightarrow> votes \<Rightarrow> (u128 \<times> block) list \<times> ledger" where
  "tally L votes_a =
    (case tally_totals L (rep_votes votes_a) [] of (totals, L') \<Rightarrow>
       (foldl (\<lambda>m (b, w). tally_insert w b m) [] totals, L'))"

definition winner :: "ledger \<Rightarrow> votes \<Rightarrow> ((u128 \<times> block) \<times> ledger) option" where
  "winner L votes_a = (case tally L votes_a of (tally_l, L') \<Rightarrow>
     (case tally_l of [] \<Rightarrow> None | existing # _ \<Rightarrow> Some (existing, L')))"

section \<open>Processing a block\<close>

definition process_change :: "rai_env \<Rightarrow> rai_clock \<Rightarrow> ledger \<Rightarrow> change_block \<Rightarrow> (process_return \<times> ledger) option" where
  "process_change E T L block_a = (
     let hash = block_hash E (Change block_a); s = store L;
         previous_a = c_previous (change_hashables block_a) in
     if block_exists s hash then Some (return_code Old, L)
     else do {
       prev \<leftarrow> block_get s previous_a;
       (case prev of None \<Rightarrow> Some (return_code Gap_previous, L) | Some prev \<Rightarrow>
        if \<not> valid_predecessor (Change block_a) prev then Some (return_code Block_position, L)
        else let account = frontier_get s previous_a in
        if uint256_is_zero account then Some (return_code Fork, L)
        else do {
          info \<leftarrow> account_get s account;
          assert_that (head info = previous_a);
          if validate_message E account hash (change_signature block_a) then Some (return_code Bad_signature, L)
          else do {
            s \<leftarrow> block_put E s hash (Change block_a) 0;
            balance_a \<leftarrow> ledger_balance E s previous_a;
            s \<leftarrow> representation_add s hash balance_a;
            s \<leftarrow> representation_add s (rep_block info) (0 - balance_a);
            s \<leftarrow> change_latest T s account hash hash (balance info) (block_count info + 1) False;
            s \<leftarrow> frontier_del s previous_a;
            let s = frontier_put s hash account;
            Some ((return_code Progress)\<lparr>ret_account := Some account, ret_amount := Some 0\<rparr>,
                  L\<lparr>store := s, stats := stat_inc T (stats L) St_ledger Sd_change\<rparr>) } }) })"

definition process_send :: "rai_env \<Rightarrow> rai_clock \<Rightarrow> ledger \<Rightarrow> send_block \<Rightarrow> (process_return \<times> ledger) option" where
  "process_send E T L block_a = (
     let hash = block_hash E (Send block_a); s = store L;
         previous_a = s_previous (send_hashables block_a);
         destination = s_destination (send_hashables block_a);
         balance_a = s_balance (send_hashables block_a) in
     if block_exists s hash then Some (return_code Old, L)
     else do {
       prev \<leftarrow> block_get s previous_a;
       (case prev of None \<Rightarrow> Some (return_code Gap_previous, L) | Some prev \<Rightarrow>
        if \<not> valid_predecessor (Send block_a) prev then Some (return_code Block_position, L)
        else let account = frontier_get s previous_a in
        if uint256_is_zero account then Some (return_code Fork, L)
        else if validate_message E account hash (send_signature block_a) then Some (return_code Bad_signature, L)
        else do {
          info \<leftarrow> account_get s account;
          assert_that (head info = previous_a);
          if \<not> balance_a \<le> balance info then Some (return_code Negative_spend, L)
          else do {
            let amount = balance info - balance_a;
            s \<leftarrow> representation_add s (rep_block info) (0 - amount);
            s \<leftarrow> block_put E s hash (Send block_a) 0;
            s \<leftarrow> change_latest T s account hash (rep_block info) balance_a (block_count info + 1) False;
            let s = pending_put s (Pending_key destination hash) \<lparr>pending_source = account, pending_amount = amount\<rparr>;
            s \<leftarrow> frontier_del s previous_a;
            let s = frontier_put s hash account;
            Some ((return_code Progress)\<lparr>ret_account := Some account, ret_amount := Some amount,
                    ret_pending_account := Some destination\<rparr>,
                  L\<lparr>store := s, stats := stat_inc T (stats L) St_ledger Sd_send\<rparr>) } }) })"

text \<open>
  The handler of receive blocks does not look at the error result of \<open>account_get\<close>; a missing
  account leaves the zero record.
\<close>

definition process_receive :: "rai_env \<Rightarrow> rai_clock \<Rightarrow> ledger \<Rightarrow> receive_block \<Rightarrow> (process_return \<times> ledger) option" where
  "process_receive E T L block_a = (
     let hash = block_hash E (Receive block_a); s = store L;
         previous_a = r_previous (receive_hashables block_a);
         source_a = r_source (receive_hashables block_a) in
     if block_exists s hash then Some (return_code Old, L)
     else do {
       prev \<leftarrow> block_get s previous_a;
       (case prev of None \<Rightarrow> Some (return_code Gap_previous, L) | Some prev \<Rightarrow>
        if \<not> valid_predecessor (Receive block_a) prev then Some (return_code Block_position, L)
        else if \<not> block_exists s source_a then Some (return_code Gap_source, L)
        else let account = frontier_get s previous_a in
        if uint256_is_zero account
        then Some (return_code (if block_exists s previous_a then Fork else Gap_previous), L)
        else if validate_message E account hash (receive_signature block_a) then Some (return_code Bad_signature, L)
        else let info = (case account_get s account of Some i \<Rightarrow> i | None \<Rightarrow> account_info_zero) in
        if head info \<noteq> previous_a then Some (return_code Gap_previous, L)
        else (case pending_get s (Pending_key account source_a) of
            None \<Rightarrow> Some (return_code Unreceivable, L)
          | Some pending_a \<Rightarrow> do {
              let new_balance = balance info + pending_amount pending_a;
              source_info \<leftarrow> account_get s (pending_source pending_a);
              s \<leftarrow> pending_del s (Pending_key account source_a);
              s \<leftarrow> block_put E s hash (Receive block_a) 0;
              s \<leftarrow> change_latest T s account hash (rep_block info) new_balance (block_count info + 1) False;
              s \<leftarrow> representation_add s (rep_block info) (pending_amount pending_a);
              s \<leftarrow> frontier_del s previous_a;
              let s = frontier_put s hash account;
              Some ((return_code Progress)\<lparr>ret_account := Some account, ret_amount := Some (pending_amount pending_a)\<rparr>,
                    L\<lparr>store := s, stats := stat_inc T (stats L) St_ledger Sd_receive\<rparr>) })) })"

definition process_open :: "rai_env \<Rightarrow> rai_clock \<Rightarrow> ledger \<Rightarrow> open_block \<Rightarrow> (process_return \<times> ledger) option" where
  "process_open E T L block_a = (
     let hash = block_hash E (Open block_a); s = store L;
         account = o_account (open_hashables block_a);
         source_a = o_source (open_hashables block_a) in
     if block_exists s hash then Some (return_code Old, L)
     else if \<not> block_exists s source_a then Some (return_code Gap_source, L)
     else if validate_message E account hash (open_signature block_a) then Some (return_code Bad_signature, L)
     else if account_get s account \<noteq> None then Some (return_code Fork, L)
     else (case pending_get s (Pending_key account source_a) of
         None \<Rightarrow> Some (return_code Unreceivable, L)
       | Some pending_a \<Rightarrow>
           if account = burn_account then Some (return_code Opened_burn_account, L)
           else do {
             source_info \<leftarrow> account_get s (pending_source pending_a);
             s \<leftarrow> pending_del s (Pending_key account source_a);
             s \<leftarrow> block_put E s hash (Open block_a) 0;
             s \<leftarrow> change_latest T s account hash hash (pending_amount pending_a)
                    (block_count account_info_zero + 1) False;
             s \<leftarrow> representation_add s hash (pending_amount pending_a);
             let s = frontier_put s hash account;
             Some ((return_code Progress)\<lparr>ret_account := Some account, ret_amount := Some (pending_amount pending_a)\<rparr>,
                   L\<lparr>store := s, stats := stat_inc T (stats L) St_ledger Sd_open\<rparr>) }))"

text \<open>
  The state block handler in the three parts the code separates by testing \<open>result.code\<close>: the
  position of the block in the account's chain, the link, and the changes to the store.
\<close>

definition state_position :: "rai_clock \<Rightarrow> ledger \<Rightarrow> state_block \<Rightarrow> process_result \<times> bool \<times> u128 \<times> account_info \<times> ledger" where
  "state_position T L block_a = (
     let s = store L;
         previous_a = st_previous (state_hashables block_a);
         balance_a = st_balance (state_hashables block_a) in
     case account_get s (st_account (state_hashables block_a)) of
       Some info \<Rightarrow>
         if uint256_is_zero previous_a then (Fork, False, balance_a, info, L)
         else if \<not> block_exists s previous_a then (Gap_previous, False, balance_a, info, L)
         else let snd_a = balance_a < balance info;
                  amount = (if snd_a then balance info - balance_a else balance_a - balance info)
              in (if previous_a = head info then Progress else Fork, snd_a, amount, info, L)
     | None \<Rightarrow>
         if \<not> uint256_is_zero previous_a then (Gap_previous, False, balance_a, account_info_zero, L)
         else (if \<not> uint256_is_zero (st_link (state_hashables block_a)) then Progress else Gap_source,
               False, balance_a, account_info_zero, L\<lparr>stats := stat_inc T (stats L) St_ledger Sd_open\<rparr>))"

definition state_link :: "block_store \<Rightarrow> state_block \<Rightarrow> bool \<Rightarrow> u128 \<Rightarrow> process_result" where
  "state_link s block_a snd_a amount = (
     let link = st_link (state_hashables block_a) in
     if snd_a then Progress
     else if \<not> uint256_is_zero link then
       if \<not> block_exists s link then Gap_source
       else (case pending_get s (Pending_key (st_account (state_hashables block_a)) link) of
               None \<Rightarrow> Unreceivable
             | Some pending_a \<Rightarrow> if amount = pending_amount pending_a then Progress else Balance_mismatch)
     else if amount = 0 then Progress else Balance_mismatch)"

definition state_apply :: "rai_env \<Rightarrow> rai_clock \<Rightarrow> ledger \<Rightarrow> state_block \<Rightarrow> bool \<Rightarrow> u128 \<Rightarrow> account_info
    \<Rightarrow> (process_return \<times> ledger) option" where
  "state_apply E T L block_a snd_a amount info = (
     let hash = block_hash E (State block_a); s = store L;
         account = st_account (state_hashables block_a);
         link = st_link (state_hashables block_a);
         balance_a = st_balance (state_hashables block_a);
         c = stat_inc T (stats L) St_ledger Sd_state_block in
     do {
       s \<leftarrow> block_put E s hash (State block_a) 0;
       s \<leftarrow> (if \<not> uint256_is_zero (rep_block info)
             then representation_add s (rep_block info) (0 - balance info) else Some s);
       s \<leftarrow> representation_add s hash balance_a;
       (s, c) \<leftarrow> (if snd_a then
                   Some (pending_put s (Pending_key link hash) \<lparr>pending_source = account, pending_amount = amount\<rparr>,
                         stat_inc T c St_ledger Sd_send)
                 else if \<not> uint256_is_zero link then do {
                   s \<leftarrow> pending_del s (Pending_key account link);
                   Some (s, stat_inc T c St_ledger Sd_receive) }
                 else Some (s, c));
       s \<leftarrow> change_latest T s account hash hash balance_a (block_count info + 1) True;
       s \<leftarrow> (if \<not> uint256_is_zero (frontier_get s (head info)) then frontier_del s (head info) else Some s);
       Some ((return_code Progress)\<lparr>ret_account := Some account, ret_amount := Some amount,
               ret_state_is_send := Some snd_a\<rparr>,
             L\<lparr>store := s, stats := c\<rparr>) })"

definition process_state :: "rai_env \<Rightarrow> rai_clock \<Rightarrow> ledger \<Rightarrow> state_block \<Rightarrow> (process_return \<times> ledger) option" where
  "process_state E T L block_a = (
     let hash = block_hash E (State block_a);
         account = st_account (state_hashables block_a) in
     if block_exists (store L) hash then Some (return_code Old, L)
     else if validate_message E account hash (state_signature block_a) then Some (return_code Bad_signature, L)
     else if uint256_is_zero account then Some (return_code Opened_burn_account, L)
     else (case state_position T L block_a of (code, snd_a, amount, info, L) \<Rightarrow>
       let code = (if code = Progress then state_link (store L) block_a snd_a amount else code) in
       if code = Progress then state_apply E T L block_a snd_a amount info
       else Some ((return_code code)\<lparr>ret_amount := Some amount\<rparr>, L)))"

definition process :: "rai_env \<Rightarrow> rai_clock \<Rightarrow> ledger \<Rightarrow> block \<Rightarrow> (process_return \<times> ledger) option" where
  "process E T L block_a = (case block_a of
      Send b \<Rightarrow> process_send E T L b
    | Receive b \<Rightarrow> process_receive E T L b
    | Open b \<Rightarrow> process_open E T L b
    | Change b \<Rightarrow> process_change E T L b
    | State b \<Rightarrow> process_state E T L b)"

section \<open>Rolling back a block\<close>

text \<open>
  Undoing a send whose amount was received first rolls back the receiving account, so the
  handlers and \<open>rollback\<close> call each other. The recursion is in \<open>rollback_run\<close>: a task is a
  call of \<open>rollback\<close>, one of its loop, or the loop of a handler that waits for the pending entry.
  The rest of each handler is a definition of its own.
\<close>

definition rollback_send :: "rai_env \<Rightarrow> rai_clock \<Rightarrow> ledger \<Rightarrow> send_block \<Rightarrow> ledger option" where
  "rollback_send E T L block_a = (
     let hash = block_hash E (Send block_a); s = store L;
         previous_a = s_previous (send_hashables block_a);
         key = Pending_key (s_destination (send_hashables block_a)) hash in
     do {
       pending_a \<leftarrow> pending_get s key;
       info \<leftarrow> account_get s (pending_source pending_a);
       s \<leftarrow> pending_del s key;
       r \<leftarrow> ledger_representative E s hash;
       s \<leftarrow> representation_add s r (pending_amount pending_a);
       balance_a \<leftarrow> ledger_balance E s previous_a;
       s \<leftarrow> change_latest T s (pending_source pending_a) previous_a (rep_block info) balance_a (block_count info - 1) False;
       s \<leftarrow> block_del s hash;
       s \<leftarrow> frontier_del s hash;
       let s = frontier_put s previous_a (pending_source pending_a);
       s \<leftarrow> block_successor_clear E s previous_a;
       s \<leftarrow> (if block_count info mod block_info_max = 0 then block_info_del s hash else Some s);
       Some (L\<lparr>store := s, stats := stat_inc T (stats L) St_rollback Sd_send\<rparr>) })"

definition rollback_receive :: "rai_env \<Rightarrow> rai_clock \<Rightarrow> ledger \<Rightarrow> receive_block \<Rightarrow> ledger option" where
  "rollback_receive E T L block_a = (
     let hash = block_hash E (Receive block_a); s = store L;
         previous_a = r_previous (receive_hashables block_a);
         source_a = r_source (receive_hashables block_a) in
     do {
       rep \<leftarrow> ledger_representative E s previous_a;
       amount \<leftarrow> ledger_amount E s source_a;
       destination_account \<leftarrow> ledger_account s hash;
       source_account \<leftarrow> ledger_account s source_a;
       info \<leftarrow> account_get s destination_account;
       r \<leftarrow> ledger_representative E s hash;
       s \<leftarrow> representation_add s r (0 - amount);
       balance_a \<leftarrow> ledger_balance E s previous_a;
       s \<leftarrow> change_latest T s destination_account previous_a rep balance_a (block_count info - 1) False;
       s \<leftarrow> block_del s hash;
       let s = pending_put s (Pending_key destination_account source_a)
                 \<lparr>pending_source = source_account, pending_amount = amount\<rparr>;
       s \<leftarrow> frontier_del s hash;
       let s = frontier_put s previous_a destination_account;
       s \<leftarrow> block_successor_clear E s previous_a;
       s \<leftarrow> (if block_count info mod block_info_max = 0 then block_info_del s hash else Some s);
       Some (L\<lparr>store := s, stats := stat_inc T (stats L) St_rollback Sd_receive\<rparr>) })"

definition rollback_open :: "rai_env \<Rightarrow> rai_clock \<Rightarrow> ledger \<Rightarrow> open_block \<Rightarrow> ledger option" where
  "rollback_open E T L block_a = (
     let hash = block_hash E (Open block_a); s = store L;
         source_a = o_source (open_hashables block_a) in
     do {
       amount \<leftarrow> ledger_amount E s source_a;
       destination_account \<leftarrow> ledger_account s hash;
       source_account \<leftarrow> ledger_account s source_a;
       r \<leftarrow> ledger_representative E s hash;
       s \<leftarrow> representation_add s r (0 - amount);
       s \<leftarrow> change_latest T s destination_account 0 0 0 0 False;
       s \<leftarrow> block_del s hash;
       let s = pending_put s (Pending_key destination_account source_a)
                 \<lparr>pending_source = source_account, pending_amount = amount\<rparr>;
       s \<leftarrow> frontier_del s hash;
       Some (L\<lparr>store := s, stats := stat_inc T (stats L) St_rollback Sd_open\<rparr>) })"

definition rollback_change :: "rai_env \<Rightarrow> rai_clock \<Rightarrow> ledger \<Rightarrow> change_block \<Rightarrow> ledger option" where
  "rollback_change E T L block_a = (
     let hash = block_hash E (Change block_a); s = store L;
         previous_a = c_previous (change_hashables block_a) in
     do {
       rep \<leftarrow> ledger_representative E s previous_a;
       account \<leftarrow> ledger_account s previous_a;
       info \<leftarrow> account_get s account;
       balance_a \<leftarrow> ledger_balance E s previous_a;
       s \<leftarrow> representation_add s rep balance_a;
       s \<leftarrow> representation_add s hash (0 - balance_a);
       s \<leftarrow> block_del s hash;
       s \<leftarrow> change_latest T s account previous_a rep (balance info) (block_count info - 1) False;
       s \<leftarrow> frontier_del s hash;
       let s = frontier_put s previous_a account;
       s \<leftarrow> block_successor_clear E s previous_a;
       s \<leftarrow> (if block_count info mod block_info_max = 0 then block_info_del s hash else Some s);
       Some (L\<lparr>store := s, stats := stat_inc T (stats L) St_rollback Sd_change\<rparr>) })"

text \<open>State blocks: what happens before the pending entry is needed, and what happens after.\<close>

definition rollback_state_begin :: "rai_env \<Rightarrow> ledger \<Rightarrow> state_block \<Rightarrow> (u256 \<times> u128 \<times> bool \<times> ledger) option" where
  "rollback_state_begin E L block_a = (
     let hash = block_hash E (State block_a); s = store L;
         previous_a = st_previous (state_hashables block_a) in
     do {
       rep \<leftarrow> (if \<not> uint256_is_zero previous_a then ledger_representative E s previous_a else Some 0);
       balance_a \<leftarrow> ledger_balance E s previous_a;
       let snd_a = st_balance (state_hashables block_a) < balance_a;
       s \<leftarrow> representation_add s hash (0 - st_balance (state_hashables block_a));
       s \<leftarrow> (if \<not> uint256_is_zero rep then representation_add s rep balance_a else Some s);
       Some (rep, balance_a, snd_a, L\<lparr>store := s\<rparr>) })"

definition rollback_state_end :: "rai_env \<Rightarrow> rai_clock \<Rightarrow> ledger \<Rightarrow> state_block \<Rightarrow> u256 \<Rightarrow> u128 \<Rightarrow> bool \<Rightarrow> ledger option" where
  "rollback_state_end E T L block_a rep balance_a snd_a = (
     let hash = block_hash E (State block_a); s = store L; c = stats L;
         account = st_account (state_hashables block_a);
         previous_a = st_previous (state_hashables block_a);
         link = st_link (state_hashables block_a) in
     do {
       (s, c) \<leftarrow> (if snd_a then do {
                    s \<leftarrow> pending_del s (Pending_key link hash);
                    Some (s, stat_inc T c St_rollback Sd_send) }
                 else if \<not> uint256_is_zero link then do {
                    source_account \<leftarrow> ledger_account s link;
                    Some (pending_put s (Pending_key account link)
                            \<lparr>pending_source = source_account,
                             pending_amount = st_balance (state_hashables block_a) - balance_a\<rparr>,
                          stat_inc T c St_rollback Sd_receive) }
                 else Some (s, c));
       info \<leftarrow> account_get s account;
       s \<leftarrow> change_latest T s account previous_a rep balance_a (block_count info - 1) False;
       prev \<leftarrow> block_get s previous_a;
       (s, c) \<leftarrow> (case prev of
           Some p \<Rightarrow> do {
             s \<leftarrow> block_successor_clear E s previous_a;
             Some (if \<not> is_state p then frontier_put s previous_a account else s, c) }
         | None \<Rightarrow> Some (s, stat_inc T c St_rollback Sd_open));
       s \<leftarrow> block_del s hash;
       Some (L\<lparr>store := s, stats := c\<rparr>) })"

datatype rollback_task = Rollback u256 | Rollback_loop u256 u256 | Rollback_pending pending_key

partial_function (option) rollback_run :: "rai_env \<Rightarrow> rai_clock \<Rightarrow> rollback_task \<Rightarrow> ledger \<Rightarrow> ledger option" where
  "rollback_run E T task L = (case task of
      Rollback h \<Rightarrow>
        if block_exists (store L) h then
          Option.bind (ledger_account (store L) h) (\<lambda>account_l. rollback_run E T (Rollback_loop account_l h) L)
        else None
    | Rollback_loop account_l h \<Rightarrow>
        if block_exists (store L) h then
          Option.bind (account_get (store L) account_l) (\<lambda>info.
          Option.bind (block_get (store L) (head info)) (\<lambda>block.
          Option.bind block (\<lambda>b.
          Option.bind
            (case b of
               Send sb \<Rightarrow> Option.bind (rollback_run E T
                  (Rollback_pending (Pending_key (s_destination (send_hashables sb)) (block_hash E b))) L)
                  (\<lambda>L. rollback_send E T L sb)
             | Receive rb \<Rightarrow> rollback_receive E T L rb
             | Open ob \<Rightarrow> rollback_open E T L ob
             | Change cb \<Rightarrow> rollback_change E T L cb
             | State tb \<Rightarrow> Option.bind (rollback_state_begin E L tb) (\<lambda>(rep, balance_a, snd_a, L).
                  Option.bind (if snd_a then rollback_run E T
                       (Rollback_pending (Pending_key (st_link (state_hashables tb)) (block_hash E b))) L else Some L)
                    (\<lambda>L. rollback_state_end E T L tb rep balance_a snd_a)))
            (\<lambda>L. rollback_run E T (Rollback_loop account_l h) L))))
        else Some L
    | Rollback_pending key \<Rightarrow>
        if pending_get (store L) key = None then
          Option.bind (rollback_run E T (Rollback (latest (store L) (key_account key))) L)
            (\<lambda>L. rollback_run E T (Rollback_pending key) L)
        else Some L)"

definition rollback :: "rai_env \<Rightarrow> rai_clock \<Rightarrow> ledger \<Rightarrow> u256 \<Rightarrow> ledger option" where
  "rollback E T L block_a = rollback_run E T (Rollback block_a) L"

section \<open>Genesis\<close>

definition genesis_initialize :: "rai_env \<Rightarrow> rai_clock \<Rightarrow> block_store \<Rightarrow> block_store option" where
  "genesis_initialize E T s = (
     let hash_l = block_hash E (Open (genesis_open E)) in
     do {
       assert_that (cursor_first (accounts s) = []);
       s \<leftarrow> block_put E s hash_l (Open (genesis_open E)) 0;
       let s = account_put s (genesis_account E)
                 \<lparr>head = hash_l, rep_block = hash_l, open_block = hash_l, balance = - 1,
                  modified = seconds_since_epoch T, block_count = 1\<rparr>;
       let s = representation_put s (genesis_account E) (- 1);
       s \<leftarrow> checksum_put s 0 0 hash_l;
       Some (frontier_put s hash_l (genesis_account E)) })"

end
