(* ===== verification/Rai_Work.thy ===== *)
theory Rai_Work
  imports Rai_Blocks "HOL-Library.Multiset"
begin

text \<open>
  Proof of work (\<^verbatim>\<open>src/rai/lib/work.cpp\<close>, \<^verbatim>\<open>work.hpp\<close>, \<^verbatim>\<open>src/rai/node/xorshift.hpp\<close>):
  the value of a nonce, its validation, and the pool of worker threads. The pool and its threads
  are a step relation: a section of \<open>loop\<close> that holds the mutex, and a batch of 256 attempts that
  touches only the thread's own memory, are one step each, and the steps of the threads interleave
  with the calls of the clients. A callback is named by a number; \<open>answered\<close> lists the calls of
  callbacks in the order they are made.

  Shown is that the threads never fail their assertions, that every request is answered at most
  once, and that every nonce handed out is valid for the root it was asked for, for runs of fewer
  than \<open>2 ^ 32\<close> steps: the ticket that tells a thread that its request is gone is an \<open>int\<close>.
\<close>

section \<open>The value of a nonce\<close>

definition publish_threshold :: "rai_env \<Rightarrow> u64" where
  "publish_threshold E =
     (if rai_network E = Rai_test_network then 0xff00000000000000 else 0xffffffc000000000)"

definition work_value :: "rai_env \<Rightarrow> u256 \<Rightarrow> u64 \<Rightarrow> u64" where
  "work_value E root_a work_a = le_word (blake2b E 8 (write_u64 work_a @ uint256_bytes root_a))"

text \<open>As for signatures, true means that the work is \<^emph>\<open>not\<close> good.\<close>

definition work_validate :: "rai_env \<Rightarrow> u256 \<Rightarrow> u64 \<Rightarrow> bool" where
  "work_validate E root_a work_a \<longleftrightarrow> work_value E root_a work_a < publish_threshold E"

definition work_validate_block :: "rai_env \<Rightarrow> block \<Rightarrow> bool" where
  "work_validate_block E b = work_validate E (root b) (block_work b)"

section \<open>The generator of nonces\<close>

record xorshift1024star =
  xs_s :: "u64 list"
  xs_p :: nat

definition xorshift_next :: "xorshift1024star \<Rightarrow> u64 \<times> xorshift1024star" where
  "xorshift_next g =
    (let p_l = xs_p g;
         pn = (p_l + 1) mod 16;
         s0 = xs_s g ! p_l;
         s1 = xs_s g ! pn;
         s1 = s1 XOR push_bit 31 s1;
         s1 = s1 XOR drop_bit 11 s1;
         s0 = s0 XOR drop_bit 30 s0
     in ((s0 XOR s1) * 1181783497276652981, \<lparr>xs_s = (xs_s g)[pn := s0 XOR s1], xs_p = pn\<rparr>))"

section \<open>The pool\<close>

record work_pool =
  ticket :: u32
  pool_done :: bool
  pool_pending :: "(u256 \<times> nat) list"
  answered :: "(nat \<times> u64 option) list"
  observed :: "bool list"

definition new_work_pool :: work_pool where
  "new_work_pool = \<lparr>ticket = 0, pool_done = False, pool_pending = [], answered = [], observed = []\<rparr>"

definition pool_stop :: "work_pool \<Rightarrow> work_pool" where
  "pool_stop p = p\<lparr>pool_done := True\<rparr>"

definition pool_cancel :: "work_pool \<Rightarrow> u256 \<Rightarrow> work_pool" where
  "pool_cancel p root_a =
    (let p = (if pool_pending p \<noteq> [] \<and> fst (hd (pool_pending p)) = root_a
              then p\<lparr>ticket := ticket p + 1\<rparr> else p)
     in p\<lparr>pool_pending := filter (\<lambda>item. fst item \<noteq> root_a) (pool_pending p),
          answered := answered p @ map (\<lambda>item. (snd item, None))
            (filter (\<lambda>item. fst item = root_a) (pool_pending p))\<rparr>)"

text \<open>\<open>opencl\<close> is the function the pool was built with, null when there is none.\<close>

definition pool_generate ::
  "(u256 \<Rightarrow> u64 option) option \<Rightarrow> work_pool \<Rightarrow> u256 \<Rightarrow> nat \<Rightarrow> work_pool option" where
  "pool_generate opencl p root_a callback = do {
     assert_that (\<not> uint256_is_zero root_a);
     let result = (case opencl of None \<Rightarrow> None | Some f \<Rightarrow> f root_a);
     (case result of
        None \<Rightarrow> Some (p\<lparr>pool_pending := pool_pending p @ [(root_a, callback)]\<rparr>)
      | Some w \<Rightarrow> Some (p\<lparr>answered := answered p @ [(callback, Some w)]\<rparr>)) }"

section \<open>The threads\<close>

text \<open>
  Where a thread stands in \<open>loop\<close>: at the head of the outer loop, waiting on the condition, before
  the test of the attempts loop (with its request, its copy of the ticket, the last nonce and its
  value), after that loop, or about to call the callback.
\<close>

datatype worker =
    Top xorshift1024star
  | Waiting xorshift1024star
  | Searching xorshift1024star "u256 \<times> nat" u32 u64 u64
  | Locking xorshift1024star "u256 \<times> nat" u32 u64 u64
  | Calling xorshift1024star "u256 \<times> nat" u64
  | Stopped

fun search_batch :: "rai_env \<Rightarrow> u256 \<Rightarrow> nat \<Rightarrow> xorshift1024star \<Rightarrow> u64 \<Rightarrow> u64 \<Rightarrow> xorshift1024star \<times> u64 \<times> u64" where
  "search_batch E r 0 rng work output_l = (rng, work, output_l)"
| "search_batch E r (Suc iteration) rng work output_l =
    (if output_l < publish_threshold E then
       (let (work, rng) = xorshift_next rng in search_batch E r iteration rng work (work_value E r work))
     else (rng, work, output_l))"

fun worker_step :: "rai_env \<Rightarrow> nat \<Rightarrow> work_pool \<Rightarrow> worker \<Rightarrow> (work_pool \<times> worker) option" where
  "worker_step E thread p (Top rng) =
    (if \<not> pool_done p \<or> pool_pending p \<noteq> [] then
       (let p = (if thread = 0 then p\<lparr>observed := observed p @ [pool_pending p \<noteq> []]\<rparr> else p) in
        case pool_pending p of
          current_l # _ \<Rightarrow> Some (p, Searching rng current_l (ticket p) 0 0)
        | [] \<Rightarrow> Some (p, Waiting rng))
     else Some (p, Stopped))"
| "worker_step E thread p (Waiting rng) = Some (p, Top rng)"
| "worker_step E thread p (Searching rng current_l ticket_l work output_l) =
    (if ticket p = ticket_l \<and> output_l < publish_threshold E then
       (let (rng, work, output_l) = search_batch E (fst current_l) 256 rng work output_l
        in Some (p, Searching rng current_l ticket_l work output_l))
     else Some (p, Locking rng current_l ticket_l work output_l))"
| "worker_step E thread p (Locking rng current_l ticket_l work output_l) =
    (if ticket p = ticket_l then do {
       assert_that (publish_threshold E \<le> output_l);
       assert_that (work_value E (fst current_l) work = output_l);
       Some (p\<lparr>ticket := ticket p + 1, pool_pending := tl (pool_pending p)\<rparr>, Calling rng current_l work) }
     else Some (p, Top rng))"
| "worker_step E thread p (Calling rng current_l work) =
     Some (p\<lparr>answered := answered p @ [(snd current_l, Some work)]\<rparr>, Top rng)"
| "worker_step E thread p Stopped = Some (p, Stopped)"

section \<open>Runs\<close>

text \<open>The pool, its threads, and the requests made so far.\<close>

record pool_run =
  run_pool :: work_pool
  run_workers :: "worker list"
  run_asked :: "(u256 \<times> nat) list"

definition new_run :: "xorshift1024star list \<Rightarrow> pool_run" where
  "new_run seeds = \<lparr>run_pool = new_work_pool, run_workers = map Top seeds, run_asked = []\<rparr>"

inductive pool_step :: "rai_env \<Rightarrow> (u256 \<Rightarrow> u64 option) option \<Rightarrow> pool_run \<Rightarrow> pool_run \<Rightarrow> bool"
  for E opencl where
  generate: "pool_generate opencl (run_pool R) root_a callback = Some p \<Longrightarrow>
    pool_step E opencl R (R\<lparr>run_pool := p, run_asked := run_asked R @ [(root_a, callback)]\<rparr>)"
| cancel: "pool_step E opencl R (R\<lparr>run_pool := pool_cancel (run_pool R) root_a\<rparr>)"
| stop: "pool_step E opencl R (R\<lparr>run_pool := pool_stop (run_pool R)\<rparr>)"
| work: "i < length (run_workers R) \<Longrightarrow> worker_step E i (run_pool R) (run_workers R ! i) = Some (p, w) \<Longrightarrow>
    pool_step E opencl R (R\<lparr>run_pool := p, run_workers := (run_workers R)[i := w]\<rparr>)"

text \<open>Runs of a given number of steps.\<close>

definition pool_reach ::
  "rai_env \<Rightarrow> (u256 \<Rightarrow> u64 option) option \<Rightarrow> xorshift1024star list \<Rightarrow> nat \<Rightarrow> pool_run \<Rightarrow> bool" where
  "pool_reach E opencl seeds n R \<longleftrightarrow> (pool_step E opencl ^^ n) (new_run seeds) R"

text \<open>What the pool relies on from the function it was built with: an answer is valid work.\<close>

definition opencl_valid :: "rai_env \<Rightarrow> (u256 \<Rightarrow> u64 option) option \<Rightarrow> bool" where
  "opencl_valid E opencl \<longleftrightarrow> (\<forall>f r w. opencl = Some f \<longrightarrow> f r = Some w \<longrightarrow> \<not> work_validate E r w)"

section \<open>The invariant\<close>

text \<open>
  A thread whose ticket is current works on the request at the front of the list; its last output
  is the value of its last nonce; it leaves the attempts with an old ticket or with valid work.
\<close>

definition attempt_ok :: "rai_env \<Rightarrow> work_pool \<Rightarrow> u256 \<times> nat \<Rightarrow> u32 \<Rightarrow> u64 \<Rightarrow> u64 \<Rightarrow> bool" where
  "attempt_ok E p c t work output_l \<longleftrightarrow>
     unat t \<le> unat (ticket p) \<and> (t = ticket p \<longrightarrow> pool_pending p \<noteq> [] \<and> hd (pool_pending p) = c)
     \<and> (publish_threshold E \<le> output_l \<longrightarrow> work_value E (fst c) work = output_l)"

fun worker_ok :: "rai_env \<Rightarrow> work_pool \<Rightarrow> (u256 \<times> nat) set \<Rightarrow> worker \<Rightarrow> bool" where
  "worker_ok E p A (Searching rng c t work output_l) = attempt_ok E p c t work output_l"
| "worker_ok E p A (Locking rng c t work output_l) =
     (attempt_ok E p c t work output_l \<and> (t = ticket p \<longrightarrow> publish_threshold E \<le> output_l))"
| "worker_ok E p A (Calling rng c work) = (c \<in> A \<and> \<not> work_validate E (fst c) work)"
| "worker_ok E p A w = True"

fun outstanding :: "worker \<Rightarrow> nat list" where
  "outstanding (Calling rng c work) = [snd c]"
| "outstanding w = []"

definition answer_ok :: "rai_env \<Rightarrow> (u256 \<times> nat) set \<Rightarrow> nat \<times> u64 option \<Rightarrow> bool" where
  "answer_ok E A a \<longleftrightarrow>
     (\<exists>root_a. (root_a, fst a) \<in> A \<and> (\<forall>w. snd a = Some w \<longrightarrow> \<not> work_validate E root_a w))"

definition pool_inv :: "rai_env \<Rightarrow> nat \<Rightarrow> pool_run \<Rightarrow> bool" where
  "pool_inv E n R \<longleftrightarrow>
     unat (ticket (run_pool R)) \<le> n
     \<and> set (pool_pending (run_pool R)) \<subseteq> set (run_asked R)
     \<and> list_all (worker_ok E (run_pool R) (set (run_asked R))) (run_workers R)
     \<and> list_all (answer_ok E (set (run_asked R))) (answered (run_pool R))
     \<and> mset (map snd (run_asked R)) = mset (map snd (pool_pending (run_pool R)))
         + mset (map fst (answered (run_pool R))) + mset (concat (map outstanding (run_workers R)))"

text \<open>A change of the pool that keeps what the threads know: the front stays or the ticket moves.\<close>

definition keeps_front :: "work_pool \<Rightarrow> work_pool \<Rightarrow> bool" where
  "keeps_front p p' \<longleftrightarrow>
     (ticket p' = ticket p \<and> (pool_pending p \<noteq> [] \<longrightarrow> pool_pending p' \<noteq> [] \<and> hd (pool_pending p') = hd (pool_pending p)))
     \<or> unat (ticket p') = Suc (unat (ticket p))"

lemma attempt_ok_mono: "attempt_ok E p c t work out \<Longrightarrow> keeps_front p p' \<Longrightarrow> attempt_ok E p' c t work out"
  by (auto simp: attempt_ok_def keeps_front_def)

lemma worker_ok_mono: "worker_ok E p A w \<Longrightarrow> keeps_front p p' \<Longrightarrow> A \<subseteq> B \<Longrightarrow> worker_ok E p' B w"
proof (induction E p A w rule: worker_ok.induct)
  case (2 E p A rng c t work out)
  then have "t = ticket p' \<longrightarrow> t = ticket p"
    by (auto simp: attempt_ok_def keeps_front_def)
  with 2 show ?case by (auto intro: attempt_ok_mono)
qed (auto intro: attempt_ok_mono)

lemma ticket_suc: "unat (t :: u32) \<le> n \<Longrightarrow> Suc n < 2 ^ 32 \<Longrightarrow> unat (t + 1) = Suc (unat t)"
  by (simp add: unat_word_ariths)

lemma answer_ok_mono: "answer_ok E A a \<Longrightarrow> A \<subseteq> B \<Longrightarrow> answer_ok E B a"
  by (auto simp: answer_ok_def)

lemma mset_concat_update:
  assumes "i < length ws"
  shows "mset (concat (map f (ws[i := w]))) + mset (f (ws ! i)) = mset (concat (map f ws)) + mset (f w)"
proof -
  have "mset (concat (map f ws)) = mset (concat (map f (take i ws @ ws ! i # drop (Suc i) ws)))"
    using id_take_nth_drop [OF assms] by simp
  then show ?thesis by (simp add: upd_conv_take_nth_drop [OF assms] ac_simps)
qed

lemma search_batch_value:
  assumes "search_batch E r n rng work out = (rng', work', out')"
    "publish_threshold E \<le> out \<longrightarrow> work_value E r work = out"
  shows "publish_threshold E \<le> out' \<longrightarrow> work_value E r work' = out'"
  using assms
  by (induction n arbitrary: rng work out) (auto simp: Let_def split: if_splits prod.splits)

text \<open>The request list, the tickets and the answers after each kind of step.\<close>

lemma pool_inv_client:
  assumes inv: "pool_inv E n R" and "keeps_front (run_pool R) p" "unat (ticket p) \<le> Suc n"
    and "set (run_asked R) \<subseteq> set asked" "set (pool_pending p) \<subseteq> set asked"
    and new: "answered p = answered (run_pool R) @ fresh" "list_all (answer_ok E (set asked)) fresh"
    and count: "mset (map snd asked) + mset (map snd (pool_pending (run_pool R)))
      = mset (map snd (run_asked R)) + mset (map snd (pool_pending p)) + mset (map fst fresh)"
  shows "pool_inv E (Suc n) (R\<lparr>run_pool := p, run_asked := asked\<rparr>)"
proof -
  have "list_all (worker_ok E p (set asked)) (run_workers R)"
    using inv assms(2,4) by (auto simp: pool_inv_def list_all_iff intro: worker_ok_mono)
  moreover have "list_all (answer_ok E (set asked)) (answered p)"
    using inv assms(4) new by (auto simp: pool_inv_def list_all_iff intro: answer_ok_mono)
  moreover have "mset (map snd asked) = mset (map snd (pool_pending p)) + mset (map fst (answered p))
      + mset (concat (map outstanding (run_workers R)))"
    using inv count unfolding pool_inv_def by (simp add: new(1) ac_simps)
  ultimately show ?thesis using assms by (simp add: pool_inv_def)
qed

lemma pool_inv_generate:
  assumes inv: "pool_inv E n R" and "pool_generate opencl (run_pool R) r cb = Some p" "opencl_valid E opencl"
  shows "pool_inv E (Suc n) (R\<lparr>run_pool := p, run_asked := run_asked R @ [(r, cb)]\<rparr>)"
proof (cases "case opencl of None \<Rightarrow> None | Some f \<Rightarrow> f r")
  case None
  then have p: "p = run_pool R\<lparr>pool_pending := pool_pending (run_pool R) @ [(r, cb)]\<rparr>"
    using assms(2) by (auto simp: pool_generate_def split: if_splits)
  show ?thesis
    by (rule pool_inv_client [OF inv, where fresh = "[]"])
      (use inv in \<open>auto simp: p keeps_front_def pool_inv_def\<close>)
next
  case (Some w)
  then have p: "p = run_pool R\<lparr>answered := answered (run_pool R) @ [(cb, Some w)]\<rparr>"
    using assms(2) by (auto simp: pool_generate_def split: if_splits)
  have "\<not> work_validate E r w"
    using Some assms(3) by (auto simp: opencl_valid_def split: option.splits)
  then show ?thesis
    by (intro pool_inv_client [OF inv, where fresh = "[(cb, Some w)]"])
      (use inv in \<open>auto simp: p keeps_front_def pool_inv_def answer_ok_def\<close>)
qed

lemma mset_cancel:
  "mset (map f xs) = mset (map f (filter (\<lambda>x. \<not> P x) xs)) + mset (map f (filter P xs))"
  by (induction xs) auto

lemma pool_inv_cancel:
  assumes inv: "pool_inv E n R" and "Suc n < 2 ^ 32"
  shows "pool_inv E (Suc n) (R\<lparr>run_pool := pool_cancel (run_pool R) r\<rparr>)"
proof -
  let ?p = "run_pool R" and ?p' = "pool_cancel (run_pool R) r"
  let ?hit = "filter (\<lambda>item. fst item = r) (pool_pending ?p)"
  have t: "unat (ticket ?p) \<le> n" using inv by (simp add: pool_inv_def)
  have k: "keeps_front ?p ?p'"
    using ticket_suc [OF t assms(2)]
    by (cases "pool_pending ?p") (auto simp: keeps_front_def pool_cancel_def Let_def)
  have "pool_inv E (Suc n) (R\<lparr>run_pool := ?p', run_asked := run_asked R\<rparr>)"
  proof (rule pool_inv_client [OF inv k, where fresh = "map (\<lambda>item. (snd item, None)) ?hit"])
    show "unat (ticket ?p') \<le> Suc n"
      using k t by (auto simp: keeps_front_def)
    show "set (pool_pending ?p') \<subseteq> set (run_asked R)"
      using inv by (auto simp: pool_cancel_def pool_inv_def Let_def)
    show "answered ?p' = answered ?p @ map (\<lambda>item. (snd item, None)) ?hit"
      by (simp add: pool_cancel_def Let_def)
    show "list_all (answer_ok E (set (run_asked R))) (map (\<lambda>item. (snd item, None)) ?hit)"
      using inv by (auto simp: list_all_iff answer_ok_def pool_inv_def)
    have "mset (map snd (pool_pending ?p)) = mset (map snd (pool_pending ?p')) + mset (map snd ?hit)"
      using mset_cancel [of snd "pool_pending ?p" "\<lambda>x. fst x = r"] by (simp add: pool_cancel_def Let_def)
    then show "mset (map snd (run_asked R)) + mset (map snd (pool_pending ?p))
      = mset (map snd (run_asked R)) + mset (map snd (pool_pending ?p'))
        + mset (map fst (map (\<lambda>item. (snd item, None :: u64 option)) ?hit))"
      by (simp add: comp_def)
  qed simp
  then show ?thesis by simp
qed

lemma pool_inv_work:
  assumes inv: "pool_inv E n R" and i: "i < length (run_workers R)"
    and k: "keeps_front (run_pool R) p" "unat (ticket p) \<le> Suc n"
      "set (pool_pending p) \<subseteq> set (run_asked R)" "worker_ok E p (set (run_asked R)) w"
    and new: "answered p = answered (run_pool R) @ fresh" "list_all (answer_ok E (set (run_asked R))) fresh"
    and count: "mset (map snd (pool_pending (run_pool R))) + mset (outstanding (run_workers R ! i))
      = mset (map snd (pool_pending p)) + mset (map fst fresh) + mset (outstanding w)"
  shows "pool_inv E (Suc n) (R\<lparr>run_pool := p, run_workers := (run_workers R)[i := w]\<rparr>)"
proof -
  let ?ws = "run_workers R"
  have "list_all (worker_ok E p (set (run_asked R))) ?ws"
    using inv k(1) by (auto simp: pool_inv_def list_all_iff intro: worker_ok_mono)
  then have "list_all (worker_ok E p (set (run_asked R))) (?ws[i := w])"
    using k(4) by (auto simp: list_all_iff dest!: set_update_subset_insert [THEN subsetD])
  moreover have "mset (map snd (run_asked R)) = mset (map snd (pool_pending p)) + mset (map fst (answered p))
      + mset (concat (map outstanding (?ws[i := w])))"
  proof -
    let ?m = "mset (outstanding (?ws ! i))"
    have "mset (map snd (run_asked R)) + ?m = mset (map snd (pool_pending p)) + mset (map fst (answered p))
      + mset (concat (map outstanding (?ws[i := w]))) + ?m"
      using inv count mset_concat_update [OF i, of outstanding w] new(1) unfolding pool_inv_def
      by (simp add: ac_simps)
    then show ?thesis by simp
  qed
  ultimately show ?thesis using inv k new by (auto simp: pool_inv_def)
qed

lemma worker_step_inv:
  assumes inv: "pool_inv E n R" and i: "i < length (run_workers R)" and "Suc n < 2 ^ 32"
    and step: "worker_step E i (run_pool R) (run_workers R ! i) = Some (p, w)"
  shows "pool_inv E (Suc n) (R\<lparr>run_pool := p, run_workers := (run_workers R)[i := w]\<rparr>)"
proof -
  let ?p = "run_pool R"
  note t = ticket_suc [OF _ assms(3)]
  have ok: "worker_ok E ?p (set (run_asked R)) (run_workers R ! i)"
    and parts: "unat (ticket ?p) \<le> n" "set (pool_pending ?p) \<subseteq> set (run_asked R)"
    using inv i by (auto simp: pool_inv_def list_all_length)
  note go = pool_inv_work [OF inv i]
  show ?thesis
  proof (cases "run_workers R ! i")
    case (Top rng)
    then show ?thesis using step parts
      by (intro go [where fresh = "[]"])
        (auto simp: keeps_front_def attempt_ok_def Let_def publish_threshold_def split: if_splits list.splits)
  next
    case (Waiting rng)
    then show ?thesis using step parts by (intro go [where fresh = "[]"]) (auto simp: keeps_front_def)
  next
    case (Searching rng c t work out)
    then show ?thesis using step parts ok
      by (intro go [where fresh = "[]"])
        (auto simp: keeps_front_def attempt_ok_def Let_def not_less dest: search_batch_value split: if_splits prod.splits)
  next
    case (Locking rng c t work out)
    show ?thesis
    proof (cases "ticket ?p = t")
      case True
      then have c: "pool_pending ?p = c # tl (pool_pending ?p)"
        using ok Locking by (cases "pool_pending ?p") (auto simp: attempt_ok_def)
      have out: "publish_threshold E \<le> out" "work_value E (fst c) work = out"
        and p: "p = ?p\<lparr>ticket := ticket ?p + 1, pool_pending := tl (pool_pending ?p)\<rparr>" "w = Calling rng c work"
        using step True Locking by (auto split: if_splits)
      have "c \<in> set (run_asked R)" "set (tl (pool_pending ?p)) \<subseteq> set (run_asked R)"
        using c parts(2) by (metis list.set_intros(1) subsetD, metis list.set_intros(2) subset_iff)
      moreover have "mset (map snd (pool_pending ?p)) = mset (map snd (tl (pool_pending ?p))) + {#snd c#}"
        by (subst c) simp
      ultimately show ?thesis using Locking t [OF parts(1)] parts out
        by (intro go [where fresh = "[]"])
          (auto simp: p keeps_front_def work_validate_def)
    next
      case False
      then show ?thesis using step parts Locking by (intro go [where fresh = "[]"]) (auto simp: keeps_front_def)
    qed
  next
    case (Calling rng c work)
    then show ?thesis using step parts ok
      by (intro go [where fresh = "[(snd c, Some work)]"])
        (auto simp: keeps_front_def answer_ok_def intro: exI [of _ "fst c"])
  next
    case Stopped
    then show ?thesis using step parts by (intro go [where fresh = "[]"]) (auto simp: keeps_front_def)
  qed
qed

lemma pool_step_inv:
  assumes "pool_step E opencl R R'" "pool_inv E n R" "opencl_valid E opencl" "Suc n < 2 ^ 32"
  shows "pool_inv E (Suc n) R'"
  using assms(1)
proof cases
  case (generate r cb p)
  then show ?thesis using pool_inv_generate [OF assms(2) _ assms(3)] by simp
next
  case (cancel r)
  then show ?thesis using pool_inv_cancel [OF assms(2,4)] by simp
next
  case stop
  have "pool_inv E (Suc n) (R\<lparr>run_pool := pool_stop (run_pool R), run_asked := run_asked R\<rparr>)"
    by (rule pool_inv_client [OF assms(2), where fresh = "[]"])
      (use assms(2) in \<open>auto simp: pool_stop_def keeps_front_def pool_inv_def\<close>)
  with stop show ?thesis by simp
next
  case (work i p w)
  then show ?thesis using worker_step_inv [OF assms(2) _ assms(4)] by simp
qed

lemma pool_reach_inv:
  "pool_reach E opencl seeds n R \<Longrightarrow> opencl_valid E opencl \<Longrightarrow> n < 2 ^ 32 \<Longrightarrow> pool_inv E n R"
proof (induction n arbitrary: R)
  case 0
  then show ?case
    by (auto simp: pool_reach_def pool_inv_def new_run_def new_work_pool_def list_all_iff comp_def)
next
  case (Suc n)
  then obtain Q where "pool_reach E opencl seeds n Q" "pool_step E opencl Q R"
    by (auto simp: pool_reach_def)
  with Suc show ?case by (auto intro: pool_step_inv)
qed

lemma pool_inv_no_abort:
  assumes "pool_inv E n R" "i < length (run_workers R)"
  shows "worker_step E i (run_pool R) (run_workers R ! i) \<noteq> None"
proof -
  have "worker_ok E (run_pool R) (set (run_asked R)) (run_workers R ! i)"
    using assms by (simp add: pool_inv_def list_all_length)
  then show ?thesis
    by (cases "run_workers R ! i") (auto simp: attempt_ok_def Let_def split: list.splits prod.splits)
qed

lemma pool_inv_answers:
  assumes "pool_inv E n R"
  shows "mset (map fst (answered (run_pool R))) \<subseteq># mset (map snd (run_asked R))"
  using assms by (simp add: pool_inv_def)

end
