(* ===== verification/Rai_Messages.thy ===== *)
theory Rai_Messages
  imports Rai_Work Rai_Common
begin

text \<open>
  The messages of the peer-to-peer protocol (\<^verbatim>\<open>src/rai/node/common.hpp\<close> and
  \<^verbatim>\<open>common.cpp\<close>): the header with its extension bits, the eight kinds of message with their
  binary forms, and \<open>message_parser\<close>, which reads the four kinds that arrive as datagrams. As
  elsewhere the outer option of a reader is a failed assertion, the inner one its error result.

  Shown is that the parser hands a message to the visitor exactly when the datagram is the binary
  form of that message with good work, and exactly which datagrams make it fail an assertion.
\<close>

section \<open>Headers\<close>

datatype message_type =
    Mt_invalid | Mt_not_a_type | Mt_keepalive | Mt_publish | Mt_confirm_req | Mt_confirm_ack
  | Mt_bulk_pull | Mt_bulk_push | Mt_frontier_req | Mt_bulk_pull_blocks

fun message_type_code :: "message_type \<Rightarrow> byte" where
  "message_type_code Mt_invalid = 0"
| "message_type_code Mt_not_a_type = 1"
| "message_type_code Mt_keepalive = 2"
| "message_type_code Mt_publish = 3"
| "message_type_code Mt_confirm_req = 4"
| "message_type_code Mt_confirm_ack = 5"
| "message_type_code Mt_bulk_pull = 6"
| "message_type_code Mt_bulk_push = 7"
| "message_type_code Mt_frontier_req = 8"
| "message_type_code Mt_bulk_pull_blocks = 9"

text \<open>The type of a header is whatever byte was read; \<open>header_is\<close> compares it with an enumerator.\<close>

record message_header =
  version_max :: byte
  version_using :: byte
  version_min :: byte
  header_type :: byte
  extensions :: u16

definition header_is :: "message_header \<Rightarrow> message_type \<Rightarrow> bool" where
  "header_is h t \<longleftrightarrow> header_type h = message_type_code t"

definition protocol_version :: byte where "protocol_version = 0x0b"

definition protocol_version_min :: byte where "protocol_version_min = 0x07"

definition magic_number :: "rai_env \<Rightarrow> byte list" where
  "magic_number E =
     (if rai_network E = Rai_test_network then [0x52, 0x41]
      else if rai_network E = Rai_beta_network then [0x52, 0x42] else [0x52, 0x43])"

definition new_header :: "message_type \<Rightarrow> message_header" where
  "new_header t = \<lparr>version_max = protocol_version, version_using = protocol_version,
     version_min = protocol_version_min, header_type = message_type_code t, extensions = 0\<rparr>"

definition header_serialize :: "rai_env \<Rightarrow> message_header \<Rightarrow> byte list" where
  "header_serialize E h = magic_number E @ write_u8 (version_max h) @ write_u8 (version_using h)
     @ write_u8 (version_min h) @ write_u8 (header_type h) @ write_u16 (extensions h)"

definition header_deserialize :: "rai_env \<Rightarrow> message_header reader" where
  "header_deserialize E bs = do {
     (magic_number_l, bs) \<leftarrow> read_bytes 2 bs;
     if magic_number_l \<noteq> magic_number E then None
     else do {
       (version_max_a, bs) \<leftarrow> read_u8 bs;
       (version_using_a, bs) \<leftarrow> read_u8 bs;
       (version_min_a, bs) \<leftarrow> read_u8 bs;
       (type_a, bs) \<leftarrow> read_u8 bs;
       (extensions_l, bs) \<leftarrow> read_u16 bs;
       Some (\<lparr>version_max = version_max_a, version_using = version_using_a, version_min = version_min_a,
              header_type = type_a, extensions = extensions_l\<rparr>, bs) } }"

definition block_type_mask :: u16 where "block_type_mask = 0x0f00"

definition header_block_type :: "message_header \<Rightarrow> byte" where
  "header_block_type h = ucast (drop_bit 8 (extensions h AND block_type_mask))"

definition block_type_set :: "message_header \<Rightarrow> block_type \<Rightarrow> message_header" where
  "block_type_set h t =
     h\<lparr>extensions := (extensions h AND NOT block_type_mask) OR push_bit 8 (ucast (block_type_code t))\<rparr>"

definition ipv4_only :: "message_header \<Rightarrow> bool" where
  "ipv4_only h = bit (extensions h) 1"

definition ipv4_only_set :: "message_header \<Rightarrow> bool \<Rightarrow> message_header" where
  "ipv4_only_set h v = h\<lparr>extensions := (if v then set_bit 1 (extensions h) else unset_bit 1 (extensions h))\<rparr>"

section \<open>Messages\<close>

datatype address = V4 u32 | V6 u128

type_synonym endpoint = "address \<times> u16"

datatype message =
    Keepalive message_header "endpoint list"
  | Publish message_header block
  | Confirm_req message_header block
  | Confirm_ack message_header vote
  | Frontier_req message_header u256 u32 u32
  | Bulk_pull message_header u256 u256
  | Bulk_pull_blocks message_header u256 u256 byte u32
  | Bulk_push message_header

fun message_head :: "message \<Rightarrow> message_header" where
  "message_head (Keepalive h _) = h"
| "message_head (Publish h _) = h"
| "message_head (Confirm_req h _) = h"
| "message_head (Confirm_ack h _) = h"
| "message_head (Frontier_req h _ _ _) = h"
| "message_head (Bulk_pull h _ _) = h"
| "message_head (Bulk_pull_blocks h _ _ _ _) = h"
| "message_head (Bulk_push h) = h"

definition new_keepalive :: message where
  "new_keepalive = Keepalive (new_header Mt_keepalive) (replicate 8 (V6 0, 0))"

definition new_publish :: "block \<Rightarrow> message" where
  "new_publish b = Publish (block_type_set (new_header Mt_publish) (type_of b)) b"

definition new_confirm_req :: "block \<Rightarrow> message" where
  "new_confirm_req b = Confirm_req (block_type_set (new_header Mt_confirm_req) (type_of b)) b"

definition new_confirm_ack :: "vote \<Rightarrow> message" where
  "new_confirm_ack v = Confirm_ack (block_type_set (new_header Mt_confirm_ack) (type_of (vote_block v))) v"

definition new_frontier_req :: "u256 \<Rightarrow> u32 \<Rightarrow> u32 \<Rightarrow> message" where
  "new_frontier_req start_a age_a count_a = Frontier_req (new_header Mt_frontier_req) start_a age_a count_a"

definition new_bulk_pull :: "u256 \<Rightarrow> u256 \<Rightarrow> message" where
  "new_bulk_pull start_a end_a = Bulk_pull (new_header Mt_bulk_pull) start_a end_a"

definition new_bulk_pull_blocks :: "u256 \<Rightarrow> u256 \<Rightarrow> byte \<Rightarrow> u32 \<Rightarrow> message" where
  "new_bulk_pull_blocks min_hash max_hash mode max_count =
     Bulk_pull_blocks (new_header Mt_bulk_pull_blocks) min_hash max_hash mode max_count"

definition new_bulk_push :: message where
  "new_bulk_push = Bulk_push (new_header Mt_bulk_push)"

text \<open>Writing: \<open>assert\<close> only guards the address family and the block type of a confirmation.\<close>

fun peers_serialize :: "endpoint list \<Rightarrow> byte list option" where
  "peers_serialize [] = Some []"
| "peers_serialize ((a, port) # ps) =
    (case a of V4 _ \<Rightarrow> None
     | V6 bytes \<Rightarrow> do { rest \<leftarrow> peers_serialize ps; Some (write_u128 bytes @ write_u16 port @ rest) })"

definition real_block_type :: "byte \<Rightarrow> bool" where
  "real_block_type c \<longleftrightarrow> c = block_type_code Bt_send \<or> c = block_type_code Bt_receive
     \<or> c = block_type_code Bt_open \<or> c = block_type_code Bt_change \<or> c = block_type_code Bt_state"

fun message_serialize :: "rai_env \<Rightarrow> message \<Rightarrow> byte list option" where
  "message_serialize E (Keepalive h peers) = do {
     bs \<leftarrow> peers_serialize peers;
     Some (header_serialize E h @ bs) }"
| "message_serialize E (Publish h b) = Some (header_serialize E h @ serialize b)"
| "message_serialize E (Confirm_req h b) = Some (header_serialize E h @ serialize b)"
| "message_serialize E (Confirm_ack h v) = do {
     assert_that (real_block_type (header_block_type h));
     Some (header_serialize E h @ vote_serialize_typed v) }"
| "message_serialize E (Frontier_req h start_a age_a count_a) =
     Some (header_serialize E h @ write_u256 start_a @ write_u32 age_a @ write_u32 count_a)"
| "message_serialize E (Bulk_pull h start_a end_a) =
     Some (header_serialize E h @ write_u256 start_a @ write_u256 end_a)"
| "message_serialize E (Bulk_pull_blocks h min_hash max_hash mode max_count) =
     Some (header_serialize E h @ write_u256 min_hash @ write_u256 max_hash @ write_u8 mode @ write_u32 max_count)"
| "message_serialize E (Bulk_push h) = Some (header_serialize E h)"

text \<open>Reading: a block type that is no enumerator reaches the same assertion as the two unused ones.\<close>

definition deserialize_block_code :: "byte \<Rightarrow> byte list \<Rightarrow> (block \<times> byte list) option option" where
  "deserialize_block_code c bs =
     (case block_type_of_code c of None \<Rightarrow> None | Some t \<Rightarrow> deserialize_block_typed t bs)"

primrec read_peers :: "nat \<Rightarrow> endpoint list reader" where
  "read_peers 0 bs = Some ([], bs)"
| "read_peers (Suc n) bs = do {
     (a, bs) \<leftarrow> read_u128 bs;
     (port, bs) \<leftarrow> read_u16 bs;
     (rest, bs) \<leftarrow> read_peers n bs;
     Some ((V6 a, port) # rest, bs) }"

definition read_keepalive :: "message_header \<Rightarrow> byte list \<Rightarrow> (message \<times> byte list) option option" where
  "read_keepalive h bs = do {
     assert_that (header_is h Mt_keepalive);
     Some (map_option (map_prod (Keepalive h) id) (read_peers 8 bs)) }"

definition read_publish :: "message_header \<Rightarrow> byte list \<Rightarrow> (message \<times> byte list) option option" where
  "read_publish h bs = do {
     assert_that (header_is h Mt_publish);
     r \<leftarrow> deserialize_block_code (header_block_type h) bs;
     Some (map_option (map_prod (Publish h) id) r) }"

definition read_confirm_req :: "message_header \<Rightarrow> byte list \<Rightarrow> (message \<times> byte list) option option" where
  "read_confirm_req h bs = do {
     assert_that (header_is h Mt_confirm_req);
     r \<leftarrow> deserialize_block_code (header_block_type h) bs;
     Some (map_option (map_prod (Confirm_req h) id) r) }"

definition read_confirm_ack :: "message_header \<Rightarrow> byte list \<Rightarrow> (message \<times> byte list) option option" where
  "read_confirm_ack h bs = do {
     r \<leftarrow> read_vote_with (deserialize_block_code (header_block_type h)) bs;
     Some (map_option (map_prod (Confirm_ack h) id) r) }"

definition read_frontier_req :: "message_header \<Rightarrow> byte list \<Rightarrow> (message \<times> byte list) option option" where
  "read_frontier_req h bs = do {
     assert_that (header_is h Mt_frontier_req);
     Some (do { (start_a, bs) \<leftarrow> read_u256 bs; (age_a, bs) \<leftarrow> read_u32 bs; (count_a, bs) \<leftarrow> read_u32 bs;
                Some (Frontier_req h start_a age_a count_a, bs) }) }"

definition read_bulk_pull :: "message_header \<Rightarrow> byte list \<Rightarrow> (message \<times> byte list) option option" where
  "read_bulk_pull h bs = do {
     assert_that (header_is h Mt_bulk_pull);
     Some (do { (start_a, bs) \<leftarrow> read_u256 bs; (end_a, bs) \<leftarrow> read_u256 bs;
                Some (Bulk_pull h start_a end_a, bs) }) }"

definition read_bulk_pull_blocks :: "message_header \<Rightarrow> byte list \<Rightarrow> (message \<times> byte list) option option" where
  "read_bulk_pull_blocks h bs = do {
     assert_that (header_is h Mt_bulk_pull_blocks);
     Some (do { (min_hash, bs) \<leftarrow> read_u256 bs; (max_hash, bs) \<leftarrow> read_u256 bs;
                (mode, bs) \<leftarrow> read_u8 bs; (max_count, bs) \<leftarrow> read_u32 bs;
                Some (Bulk_pull_blocks h min_hash max_hash mode max_count, bs) }) }"

definition read_bulk_push :: "message_header \<Rightarrow> byte list \<Rightarrow> (message \<times> byte list) option option" where
  "read_bulk_push h bs = do {
     assert_that (header_is h Mt_bulk_push);
     Some (Some (Bulk_push h, bs)) }"

section \<open>The parser\<close>

datatype parse_status =
    Parse_success | Insufficient_work | Invalid_header | Invalid_message_type
  | Invalid_keepalive_message | Invalid_publish_message | Invalid_confirm_req_message
  | Invalid_confirm_ack_message

text \<open>The status, and the message handed to the visitor if there is one.\<close>

type_synonym parse_result = "(parse_status \<times> message option) option"

definition at_end :: "byte list \<Rightarrow> bool" where
  "at_end bs \<longleftrightarrow> read_u8 bs = None"

definition deserialize_keepalive :: "message_header \<Rightarrow> byte list \<Rightarrow> parse_result" where
  "deserialize_keepalive h bs = do {
     r \<leftarrow> read_keepalive h bs;
     (case r of
        Some (incoming, bs) \<Rightarrow>
          if at_end bs then Some (Parse_success, Some incoming) else Some (Invalid_keepalive_message, None)
      | None \<Rightarrow> Some (Invalid_keepalive_message, None)) }"

definition deserialize_publish :: "rai_env \<Rightarrow> message_header \<Rightarrow> byte list \<Rightarrow> parse_result" where
  "deserialize_publish E h bs = do {
     r \<leftarrow> read_publish h bs;
     (case r of
        Some (Publish h b, bs) \<Rightarrow>
          if at_end bs then
            if \<not> work_validate_block E b then Some (Parse_success, Some (Publish h b)) else Some (Insufficient_work, None)
          else Some (Invalid_publish_message, None)
      | _ \<Rightarrow> Some (Invalid_publish_message, None)) }"

definition deserialize_confirm_req :: "rai_env \<Rightarrow> message_header \<Rightarrow> byte list \<Rightarrow> parse_result" where
  "deserialize_confirm_req E h bs = do {
     r \<leftarrow> read_confirm_req h bs;
     (case r of
        Some (Confirm_req h b, bs) \<Rightarrow>
          if at_end bs then
            if \<not> work_validate_block E b then Some (Parse_success, Some (Confirm_req h b)) else Some (Insufficient_work, None)
          else Some (Invalid_confirm_req_message, None)
      | _ \<Rightarrow> Some (Invalid_confirm_req_message, None)) }"

definition deserialize_confirm_ack :: "rai_env \<Rightarrow> message_header \<Rightarrow> byte list \<Rightarrow> parse_result" where
  "deserialize_confirm_ack E h bs = do {
     r \<leftarrow> read_confirm_ack h bs;
     (case r of
        Some (Confirm_ack h v, bs) \<Rightarrow>
          if at_end bs then
            if \<not> work_validate_block E (vote_block v) then Some (Parse_success, Some (Confirm_ack h v))
            else Some (Insufficient_work, None)
          else Some (Invalid_confirm_ack_message, None)
      | _ \<Rightarrow> Some (Invalid_confirm_ack_message, None)) }"

definition deserialize_buffer :: "rai_env \<Rightarrow> byte list \<Rightarrow> parse_result" where
  "deserialize_buffer E bs =
    (case header_deserialize E bs of
       None \<Rightarrow> Some (Invalid_header, None)
     | Some (h, bs) \<Rightarrow>
         if header_is h Mt_keepalive then deserialize_keepalive h bs
         else if header_is h Mt_publish then deserialize_publish E h bs
         else if header_is h Mt_confirm_req then deserialize_confirm_req E h bs
         else if header_is h Mt_confirm_ack then deserialize_confirm_ack E h bs
         else Some (Invalid_message_type, None))"

section \<open>Headers are read back\<close>

lemma magic_number_length [simp, width_simps]: "length (magic_number E) = 2"
  by (simp add: magic_number_def)

lemma header_deserialize_serialize [simp, codec_simps]:
  "header_deserialize E (header_serialize E h @ rest) = Some (h, rest)"
  by (simp add: header_deserialize_def header_serialize_def read_bytes_def)

lemma header_deserializeD:
  assumes "header_deserialize E bs = Some (h, rest)"
  shows "bs = header_serialize E h @ rest"
  using assms
  by (auto simp: header_deserialize_def header_serialize_def read_bytes_def bind_Some_iff
      split: if_splits dest!: pod_readD) (metis append_take_drop_id)

lemma header_serialize_inject: "header_serialize E h @ r = header_serialize E h' @ r' \<longleftrightarrow> h = h' \<and> r = r'"
proof
  assume "header_serialize E h @ r = header_serialize E h' @ r'"
  then have "header_deserialize E (header_serialize E h @ r) = header_deserialize E (header_serialize E h' @ r')" by simp
  then show "h = h' \<and> r = r'" by simp
qed simp

text \<open>The block type in the extension bits is read back as it was set, whatever the other bits are.\<close>

lemma block_type_mask_bits: "block_type_mask = push_bit 8 (mask 4)"
  by (simp add: block_type_mask_def mask_numeral)

lemma block_type_code_bits: "take_bit 4 (block_type_code t) = block_type_code t"
  by (cases t) simp_all

lemma header_block_type_set [simp]: "header_block_type (block_type_set h t) = block_type_code t"
proof -
  have "header_block_type (block_type_set h t) = take_bit 4 (block_type_code t)"
    unfolding header_block_type_def block_type_set_def block_type_mask_bits
    by (rule bit_word_eqI) (auto simp: bit_simps)
  then show ?thesis by (simp only: block_type_code_bits)
qed

lemma header_type_set [simp]: "header_type (block_type_set h t) = header_type h"
  by (simp add: block_type_set_def)

lemma ipv4_only_other_bits:
  "ipv4_only (ipv4_only_set h v) = v" "header_block_type (ipv4_only_set h v) = header_block_type h"
  "ipv4_only (block_type_set h t) = ipv4_only h"
proof -
  show "ipv4_only (ipv4_only_set h v) = v" by (auto simp: ipv4_only_def ipv4_only_set_def bit_simps)
  show "header_block_type (ipv4_only_set h v) = header_block_type h"
    unfolding header_block_type_def ipv4_only_set_def block_type_mask_bits
    by (rule bit_word_eqI) (auto simp: bit_simps)
  show "ipv4_only (block_type_set h t) = ipv4_only h"
    unfolding ipv4_only_def block_type_set_def block_type_mask_bits by (auto simp: bit_simps)
qed

section \<open>Bodies are read back\<close>

lemma block_type_code_inject [simp]: "block_type_code s = block_type_code t \<longleftrightarrow> s = t"
  by (metis block_type_of_code_code option.inject)

lemma block_type_of_code_Some: "block_type_of_code c = Some t \<longleftrightarrow> c = block_type_code t"
  by (auto simp: block_type_of_code_def split: if_splits) (cases t; simp)+

lemma real_block_type_of: "real_block_type (block_type_code t) \<longleftrightarrow> t \<notin> {Bt_invalid, Bt_not_a_block}"
  by (cases t) (simp_all add: real_block_type_def)

lemma real_block_type_cases: "real_block_type c \<longleftrightarrow> (\<exists>t. t \<notin> {Bt_invalid, Bt_not_a_block} \<and> c = block_type_code t)"
  unfolding real_block_type_def by (metis block_type.exhaust block_type.distinct insert_iff empty_iff)

lemma type_of_real: "type_of b \<notin> {Bt_invalid, Bt_not_a_block}"
  by (cases b) simp_all

lemma deserialize_block_code_iff:
  "deserialize_block_code c bs = Some (Some (b, rest)) \<longleftrightarrow> c = block_type_code (type_of b) \<and> bs = serialize b @ rest"
proof
  assume "deserialize_block_code c bs = Some (Some (b, rest))"
  then obtain t where "block_type_of_code c = Some t" "deserialize_block_typed t bs = Some (Some (b, rest))"
    by (auto simp: deserialize_block_code_def split: option.splits)
  then show "c = block_type_code (type_of b) \<and> bs = serialize b @ rest"
    using serialize_deserialize block_type_of_code_Some by blast
qed (simp add: deserialize_block_code_def)

lemma deserialize_block_typed_None: "deserialize_block_typed t bs = None \<longleftrightarrow> t \<in> {Bt_invalid, Bt_not_a_block}"
  by (cases t) simp_all

lemma deserialize_block_code_None: "deserialize_block_code c bs = None \<longleftrightarrow> \<not> real_block_type c"
proof (cases "block_type_of_code c")
  case None
  then have "\<not> real_block_type c" unfolding real_block_type_cases by auto
  with None show ?thesis by (simp add: deserialize_block_code_def)
next
  case (Some t)
  then show ?thesis
    by (simp add: deserialize_block_code_def deserialize_block_typed_None real_block_type_of block_type_of_code_Some
        del: insert_iff)
qed

definition read_vote_prefix :: "(u256 \<times> u512 \<times> u64) reader" where
  "read_vote_prefix bs = do { (account_a, bs) \<leftarrow> read_u256 bs; (signature_a, bs) \<leftarrow> read_u512 bs;
               (sequence_a, bs) \<leftarrow> read_u64 bs; Some ((account_a, signature_a, sequence_a), bs) }"

interpretation vote_prefix: codec "\<lambda>(a, s, q). write_u256 a @ write_u512 s @ write_u64 q" read_vote_prefix 104
  by (rule codecI) (auto simp: read_vote_prefix_def pod_read_long bind_Some_iff dest!: pod_readD)

lemma read_vote_with_prefix:
  "read_vote_with f bs =
    (case read_vote_prefix bs of None \<Rightarrow> Some None
     | Some ((a, s, q), bs) \<Rightarrow>
         (case f bs of None \<Rightarrow> None
          | Some None \<Rightarrow> Some None
          | Some (Some (b, rest)) \<Rightarrow>
              Some (Some (\<lparr>vote_sequence = q, vote_block = b, vote_account = a, vote_signature = s\<rparr>, rest))))"
  by (auto simp: read_vote_with_def read_vote_prefix_def bind_eq_None_conv bind_Some_iff split: option.splits)

lemma read_vote_code_iff:
  "read_vote_with (deserialize_block_code c) bs = Some (Some (v, rest))
     \<longleftrightarrow> c = block_type_code (type_of (vote_block v)) \<and> bs = vote_serialize_typed v @ rest"
proof
  assume "read_vote_with (deserialize_block_code c) bs = Some (Some (v, rest))"
  then obtain a s q bs' b where "read_vote_prefix bs = Some ((a, s, q), bs')"
      "deserialize_block_code c bs' = Some (Some (b, rest))"
      "v = \<lparr>vote_sequence = q, vote_block = b, vote_account = a, vote_signature = s\<rparr>"
    by (auto simp: read_vote_with_prefix split: option.splits)
  then show "c = block_type_code (type_of (vote_block v)) \<and> bs = vote_serialize_typed v @ rest"
    using vote_prefix.enc_dec [of bs "(a, s, q)" bs'] by (simp add: deserialize_block_code_iff vote_serialize_typed_def)
next
  assume a: "c = block_type_code (type_of (vote_block v)) \<and> bs = vote_serialize_typed v @ rest"
  then have "deserialize_block_code c (serialize (vote_block v) @ rest) = Some (Some (vote_block v, rest))"
    by (simp add: deserialize_block_code_iff)
  then show "read_vote_with (deserialize_block_code c) bs = Some (Some (v, rest))"
    using a by (simp add: read_vote_with_def vote_serialize_typed_def)
qed

lemma read_vote_code_None:
  "read_vote_with (deserialize_block_code c) bs = None \<longleftrightarrow> 104 \<le> length bs \<and> \<not> real_block_type c"
proof (cases "read_vote_prefix bs")
  case None
  then have "length bs < 104" using vote_prefix.dec_None_iff by blast
  with None show ?thesis by (simp add: read_vote_with_prefix)
next
  case (Some p)
  then have "104 \<le> length bs" using vote_prefix.dec_None_iff [of bs] by simp
  obtain a s q bs' where p: "p = ((a, s, q), bs')" by (cases p) auto
  have "read_vote_with (deserialize_block_code c) bs = None \<longleftrightarrow> deserialize_block_code c bs' = None"
    by (auto simp: read_vote_with_prefix Some p split: option.splits)
  with \<open>104 \<le> length bs\<close> show ?thesis by (simp add: deserialize_block_code_None)
qed

lemma read_peers_serialize:
  "peers_serialize ps = Some bs \<Longrightarrow> read_peers (length ps) (bs @ rest) = Some (ps, rest)"
proof (induction ps arbitrary: bs)
  case Nil
  then show ?case by simp
next
  case (Cons p ps)
  then obtain a port bs' where "p = (V6 a, port)" "peers_serialize ps = Some bs'"
    "bs = write_u128 a @ write_u16 port @ bs'"
    by (cases p) (auto simp: bind_Some_iff split: address.splits)
  with Cons.IH show ?case by simp
qed

lemma read_peersD:
  "read_peers n bs = Some (ps, rest) \<Longrightarrow> length ps = n \<and> (\<exists>bs'. peers_serialize ps = Some bs' \<and> bs = bs' @ rest)"
proof (induction n arbitrary: bs ps)
  case 0
  then show ?case by simp
next
  case (Suc n)
  then obtain a bs1 port bs2 ps' where r: "read_u128 bs = Some (a, bs1)" "read_u16 bs1 = Some (port, bs2)"
    "read_peers n bs2 = Some (ps', rest)" "ps = (V6 a, port) # ps'"
    by (auto simp: bind_Some_iff)
  from Suc.IH [OF r(3)] obtain bs' where "length ps' = n" "peers_serialize ps' = Some bs'" "bs2 = bs' @ rest" by blast
  with r show ?case by (auto dest!: pod_readD)
qed

lemma read_peers_iff:
  "read_peers n bs = Some (ps, rest) \<longleftrightarrow> length ps = n \<and> (\<exists>bs'. peers_serialize ps = Some bs' \<and> bs = bs' @ rest)"
  using read_peersD read_peers_serialize by blast

section \<open>What the parser accepts\<close>

text \<open>The messages that travel as datagrams, with headers that fit their bodies, and their work.\<close>

fun datagram :: "message \<Rightarrow> bool" where
  "datagram (Keepalive h ps) \<longleftrightarrow> header_is h Mt_keepalive \<and> length ps = 8"
| "datagram (Publish h b) \<longleftrightarrow> header_is h Mt_publish \<and> header_block_type h = block_type_code (type_of b)"
| "datagram (Confirm_req h b) \<longleftrightarrow> header_is h Mt_confirm_req \<and> header_block_type h = block_type_code (type_of b)"
| "datagram (Confirm_ack h v) \<longleftrightarrow>
     header_is h Mt_confirm_ack \<and> header_block_type h = block_type_code (type_of (vote_block v))"
| "datagram _ \<longleftrightarrow> False"

fun good_work :: "rai_env \<Rightarrow> message \<Rightarrow> bool" where
  "good_work E (Publish h b) \<longleftrightarrow> \<not> work_validate_block E b"
| "good_work E (Confirm_req h b) \<longleftrightarrow> \<not> work_validate_block E b"
| "good_work E (Confirm_ack h v) \<longleftrightarrow> \<not> work_validate_block E (vote_block v)"
| "good_work E _ \<longleftrightarrow> True"

lemma at_end_iff [simp]: "at_end bs \<longleftrightarrow> bs = []"
  by (simp add: at_end_def pod_read_None)

lemma header_is_unique: "header_is h s \<Longrightarrow> header_is h t \<longleftrightarrow> s = t"
  by (cases s; cases t) (simp_all add: header_is_def)

lemma deserialize_keepalive_iff:
  assumes "header_is h Mt_keepalive"
  shows "deserialize_keepalive h bs = Some (st, Some m) \<longleftrightarrow>
    st = Parse_success \<and> (\<exists>ps. m = Keepalive h ps \<and> length ps = 8 \<and> peers_serialize ps = Some bs)"
proof -
  have "deserialize_keepalive h bs = Some (st, Some m) \<longleftrightarrow>
      st = Parse_success \<and> (\<exists>ps. m = Keepalive h ps \<and> read_peers 8 bs = Some (ps, []))"
    using assms by (auto simp: deserialize_keepalive_def read_keepalive_def split: option.splits if_splits)
  then show ?thesis by (simp add: read_peers_iff)
qed

lemma deserialize_publish_iff:
  assumes "header_is h Mt_publish"
  shows "deserialize_publish E h bs = Some (st, Some m) \<longleftrightarrow>
    st = Parse_success \<and> (\<exists>b. m = Publish h b \<and> header_block_type h = block_type_code (type_of b)
      \<and> bs = serialize b \<and> \<not> work_validate_block E b)"
  using assms deserialize_block_code_iff [of "header_block_type h" bs _ "[]"]
  by (auto simp: deserialize_publish_def read_publish_def bind_Some_iff split: option.splits if_splits)

lemma deserialize_confirm_req_iff:
  assumes "header_is h Mt_confirm_req"
  shows "deserialize_confirm_req E h bs = Some (st, Some m) \<longleftrightarrow>
    st = Parse_success \<and> (\<exists>b. m = Confirm_req h b \<and> header_block_type h = block_type_code (type_of b)
      \<and> bs = serialize b \<and> \<not> work_validate_block E b)"
  using assms deserialize_block_code_iff [of "header_block_type h" bs _ "[]"]
  by (auto simp: deserialize_confirm_req_def read_confirm_req_def bind_Some_iff split: option.splits if_splits)

lemma deserialize_confirm_ack_iff:
  "deserialize_confirm_ack E h bs = Some (st, Some m) \<longleftrightarrow>
    st = Parse_success \<and> (\<exists>v. m = Confirm_ack h v \<and> header_block_type h = block_type_code (type_of (vote_block v))
      \<and> bs = vote_serialize_typed v \<and> \<not> work_validate_block E (vote_block v))"
  using read_vote_code_iff [of "header_block_type h" bs _ "[]"]
  by (auto simp: deserialize_confirm_ack_def read_confirm_ack_def bind_Some_iff split: option.splits if_splits)

lemma deserialize_buffer_accepts:
  "deserialize_buffer E bs = Some (st, Some m) \<longleftrightarrow>
     st = Parse_success \<and> message_serialize E m = Some bs \<and> datagram m \<and> good_work E m"
proof
  assume acc: "deserialize_buffer E bs = Some (st, Some m)"
  then obtain h rest where h: "header_deserialize E bs = Some (h, rest)"
    by (auto simp: deserialize_buffer_def split: option.splits)
  then have bs: "bs = header_serialize E h @ rest" by (rule header_deserializeD)
  consider "header_is h Mt_keepalive" | "header_is h Mt_publish" | "header_is h Mt_confirm_req" | "header_is h Mt_confirm_ack"
    using acc h by (auto simp: deserialize_buffer_def split: if_splits)
  then show "st = Parse_success \<and> message_serialize E m = Some bs \<and> datagram m \<and> good_work E m"
  proof cases
    case 1
    then show ?thesis
      using acc h bs deserialize_keepalive_iff [OF 1, of rest st m] by (auto simp: deserialize_buffer_def)
  next
    case 2
    then show ?thesis
      using acc h bs deserialize_publish_iff [OF 2, of E rest st m]
      by (auto simp: deserialize_buffer_def header_is_unique [OF 2])
  next
    case 3
    then show ?thesis
      using acc h bs deserialize_confirm_req_iff [OF 3, of E rest st m]
      by (auto simp: deserialize_buffer_def header_is_unique [OF 3])
  next
    case 4
    then show ?thesis
      using acc h bs deserialize_confirm_ack_iff [of E h rest st m] type_of_real
      by (auto simp: deserialize_buffer_def header_is_unique [OF 4] real_block_type_of)
  qed
next
  assume a: "st = Parse_success \<and> message_serialize E m = Some bs \<and> datagram m \<and> good_work E m"
  then show "deserialize_buffer E bs = Some (st, Some m)"
  proof (cases m)
    case (Keepalive h ps)
    then obtain rest where bs: "bs = header_serialize E h @ rest" "peers_serialize ps = Some rest"
      and k: "header_is h Mt_keepalive" "length ps = 8"
      using a by (auto simp: bind_Some_iff)
    then have "deserialize_keepalive h rest = Some (st, Some m)"
      using a Keepalive by (simp add: deserialize_keepalive_iff)
    then show ?thesis by (simp add: deserialize_buffer_def bs k)
  next
    case (Publish h b)
    then have k: "header_is h Mt_publish" and bs: "bs = header_serialize E h @ serialize b" using a by auto
    have "deserialize_publish E h (serialize b) = Some (st, Some m)"
      using a Publish by (simp add: deserialize_publish_iff [OF k])
    then show ?thesis by (simp add: deserialize_buffer_def bs header_is_unique [OF k])
  next
    case (Confirm_req h b)
    then have k: "header_is h Mt_confirm_req" and bs: "bs = header_serialize E h @ serialize b" using a by auto
    have "deserialize_confirm_req E h (serialize b) = Some (st, Some m)"
      using a Confirm_req by (simp add: deserialize_confirm_req_iff [OF k])
    then show ?thesis by (simp add: deserialize_buffer_def bs header_is_unique [OF k])
  next
    case (Confirm_ack h v)
    then have k: "header_is h Mt_confirm_ack" and bs: "bs = header_serialize E h @ vote_serialize_typed v"
      using a by (auto split: if_splits)
    have "deserialize_confirm_ack E h (vote_serialize_typed v) = Some (st, Some m)"
      using a Confirm_ack by (simp add: deserialize_confirm_ack_iff)
    then show ?thesis by (simp add: deserialize_buffer_def bs header_is_unique [OF k])
  qed simp_all
qed

lemma new_messages_datagram:
  "datagram new_keepalive" "datagram (new_publish b)" "datagram (new_confirm_req b)" "datagram (new_confirm_ack v)"
  by (simp_all add: new_keepalive_def new_publish_def new_confirm_req_def new_confirm_ack_def header_is_def new_header_def)

text \<open>A datagram aborts the parser when the block type in its header names no block type.\<close>

lemma bind_None_total: "(\<And>x. f x \<noteq> None) \<Longrightarrow> ((r :: 'a option) \<bind> f) = None \<longleftrightarrow> r = None"
  by (cases r) auto

lemma read_aborts:
  "read_keepalive h bs = None \<longleftrightarrow> \<not> header_is h Mt_keepalive"
  "read_publish h bs = None \<longleftrightarrow> \<not> header_is h Mt_publish \<or> \<not> real_block_type (header_block_type h)"
  "read_confirm_req h bs = None \<longleftrightarrow> \<not> header_is h Mt_confirm_req \<or> \<not> real_block_type (header_block_type h)"
  "read_confirm_ack h bs = None \<longleftrightarrow> 104 \<le> length bs \<and> \<not> real_block_type (header_block_type h)"
  by (simp_all add: read_keepalive_def read_publish_def read_confirm_req_def read_confirm_ack_def
      bind_None_total deserialize_block_code_None read_vote_code_None)

lemma deserialize_aborts:
  "deserialize_keepalive h bs = None \<longleftrightarrow> read_keepalive h bs = None"
  "deserialize_publish E h bs = None \<longleftrightarrow> read_publish h bs = None"
  "deserialize_confirm_req E h bs = None \<longleftrightarrow> read_confirm_req h bs = None"
  "deserialize_confirm_ack E h bs = None \<longleftrightarrow> read_confirm_ack h bs = None"
  unfolding deserialize_keepalive_def deserialize_publish_def deserialize_confirm_req_def deserialize_confirm_ack_def
  by (rule bind_None_total; auto split: option.splits message.splits)+

lemma deserialize_buffer_aborts:
  "deserialize_buffer E bs = None \<longleftrightarrow>
     (\<exists>h rest. bs = header_serialize E h @ rest \<and> \<not> real_block_type (header_block_type h)
       \<and> (header_is h Mt_publish \<or> header_is h Mt_confirm_req \<or> header_is h Mt_confirm_ack \<and> 104 \<le> length rest))"
proof (cases "header_deserialize E bs")
  case None
  then have "bs \<noteq> header_serialize E h @ rest" for h rest by auto
  with None show ?thesis by (simp add: deserialize_buffer_def)
next
  case (Some p)
  then obtain h rest where h: "header_deserialize E bs = Some (h, rest)" by (cases p) auto
  then have bs: "bs = header_serialize E h @ rest" by (rule header_deserializeD)
  have "deserialize_buffer E bs = None \<longleftrightarrow> \<not> real_block_type (header_block_type h)
       \<and> (header_is h Mt_publish \<or> header_is h Mt_confirm_req \<or> header_is h Mt_confirm_ack \<and> 104 \<le> length rest)"
    unfolding deserialize_buffer_def h
    by (auto simp: deserialize_aborts read_aborts dest: header_is_unique)
  then show ?thesis by (auto simp: bs header_serialize_inject)
qed

text \<open>The kinds of message that travel over bootstrap connections.\<close>

lemma bootstrap_messages_read_back:
  "read_frontier_req (new_header Mt_frontier_req) (write_u256 s @ write_u32 a @ write_u32 c @ rest)
     = Some (Some (new_frontier_req s a c, rest))"
  "read_bulk_pull (new_header Mt_bulk_pull) (write_u256 s @ write_u256 e @ rest) = Some (Some (new_bulk_pull s e, rest))"
  "read_bulk_pull_blocks (new_header Mt_bulk_pull_blocks) (write_u256 s @ write_u256 e @ write_u8 m @ write_u32 c @ rest)
     = Some (Some (new_bulk_pull_blocks s e m c, rest))"
  "read_bulk_push (new_header Mt_bulk_push) rest = Some (Some (new_bulk_push, rest))"
  by (simp_all add: read_frontier_req_def read_bulk_pull_def read_bulk_pull_blocks_def read_bulk_push_def
      new_frontier_req_def new_bulk_pull_def new_bulk_pull_blocks_def new_bulk_push_def header_is_def new_header_def)

end
