(* ===== verification/Rai_Peers.thy ===== *)
theory Rai_Peers
  imports Rai_Messages Rai_Stats
begin

text \<open>
  The peers a node knows (\<open>peer_container\<close> and \<open>reserved_address\<close> of \<^verbatim>\<open>src/rai/node/node.cpp\<close>).
  The multi-index container of peers is the list of its entries in the order of the random access
  index; an ordered index is that list sorted by its key, entries with equal keys in list order.
  Addresses are compared as 128 bit numbers. What the container calls back (\<open>peer_observer\<close>,
  \<open>disconnect_observer\<close>) is part of the result.

  Shown is that every peer in the container may be contacted: it is listed once, its address is
  neither unspecified nor reserved nor the node's own, and it speaks a protocol version the node
  speaks.
\<close>

section \<open>Reserved addresses\<close>

definition mapped_from_v4_bytes :: "u32 \<Rightarrow> u128" where
  "mapped_from_v4_bytes a = push_bit 32 0xffff OR ucast a"

definition within :: "u128 \<Rightarrow> u128 \<Rightarrow> u128 \<Rightarrow> bool" where
  "within lo hi b \<longleftrightarrow> lo \<le> b \<and> b \<le> hi"

definition reserved_address :: "rai_env \<Rightarrow> endpoint \<Rightarrow> bool option" where
  "reserved_address E endpoint_a =
    (case fst endpoint_a of V4 _ \<Rightarrow> None
     | V6 bytes \<Rightarrow> Some (
         let v4 = (\<lambda>lo hi. within (mapped_from_v4_bytes lo) (mapped_from_v4_bytes hi) bytes) in
         if v4 0x00000000 0x00ffffff then True
         else if v4 0xc0000200 0xc00002ff then True
         else if v4 0xc6336400 0xc63364ff then True
         else if v4 0xcb007100 0xcb0071ff then True
         else if v4 0xe0000000 0xefffffff then True
         else if v4 0xf0000000 0xffffffff then True
         else if within 0x01000000000000000000000000000000 0x0100000000000000ffffffffffffffff bytes then True
         else if within 0x20010db8000000000000000000000000 0x20010db8ffffffffffffffffffffffff bytes then True
         else if within 0xff000000000000000000000000000000 0xff00ffffffffffffffffffffffffffff bytes then True
         else if rai_network E = Rai_live_network then
           if bytes = 1 then True
           else if v4 0x7f000000 0x7fffffff then True
           else if v4 0x0a000000 0x0affffff then True
           else if v4 0xac100000 0xac1fffff then True
           else if v4 0xc0a80000 0xc0a8ffff then True
           else if v4 0x64400000 0x647fffff then True
           else if within 0xfc000000000000000000000000000000 0xfd00ffffffffffffffffffffffffffff bytes then True
           else False
         else False))"

section \<open>The container\<close>

record peer_information =
  peer_endpoint :: endpoint
  last_contact :: nat
  last_attempt :: nat
  last_bootstrap_attempt :: nat
  last_rep_request :: nat
  last_rep_response :: nat
  rep_weight :: u128
  probable_rep_account :: "u256 option"
  network_version :: u32

record peer_container =
  peer_self :: endpoint
  peers :: "peer_information list"
  attempts :: "(endpoint \<times> nat) list"

definition new_peer_information :: "rai_clock \<Rightarrow> endpoint \<Rightarrow> u32 \<Rightarrow> peer_information" where
  "new_peer_information T endpoint_a version_a =
     \<lparr>peer_endpoint = endpoint_a, last_contact = steady_now T, last_attempt = steady_now T,
      last_bootstrap_attempt = 0, last_rep_request = 0, last_rep_response = 0, rep_weight = 0,
      probable_rep_account = None, network_version = version_a\<rparr>"

definition new_peer_container :: "endpoint \<Rightarrow> peer_container" where
  "new_peer_container self_a = \<lparr>peer_self = self_a, peers = [], attempts = []\<rparr>"

definition modify_peer :: "endpoint \<Rightarrow> (peer_information \<Rightarrow> peer_information) \<Rightarrow> peer_container \<Rightarrow> peer_container" where
  "modify_peer endpoint_a f c =
     c\<lparr>peers := map (\<lambda>p. if peer_endpoint p = endpoint_a then f p else p) (peers c)\<rparr>"

definition known_peer :: "peer_container \<Rightarrow> endpoint \<Rightarrow> bool" where
  "known_peer c endpoint_a \<longleftrightarrow> endpoint_a \<in> peer_endpoint ` set (peers c)"

definition not_a_peer :: "rai_env \<Rightarrow> peer_container \<Rightarrow> endpoint \<Rightarrow> bool option" where
  "not_a_peer E c endpoint_a =
    (case fst endpoint_a of V4 _ \<Rightarrow> None
     | V6 bytes \<Rightarrow> if bytes = 0 then Some True
         else do {
           reserved \<leftarrow> reserved_address E endpoint_a;
           Some (if reserved then True else if endpoint_a = peer_self c then True else False) })"

text \<open>The result, the container, and the endpoint handed to \<open>peer_observer\<close> if it is called.\<close>

definition peer_insert :: "rai_env \<Rightarrow> rai_clock \<Rightarrow> peer_container \<Rightarrow> endpoint \<Rightarrow> u32 \<Rightarrow> (bool \<times> peer_container \<times> endpoint option) option" where
  "peer_insert E T c endpoint_a version_a = do {
     result \<leftarrow> not_a_peer E c endpoint_a;
     Some (if result then (result, c, None)
       else if ucast protocol_version_min \<le> version_a then
         if known_peer c endpoint_a
         then (True, modify_peer endpoint_a (\<lambda>p. p\<lparr>last_contact := steady_now T\<rparr>) c, None)
         else (result, c\<lparr>peers := peers c @ [new_peer_information T endpoint_a version_a]\<rparr>, Some endpoint_a)
       else (result, c, None)) }"

definition contacted :: "rai_env \<Rightarrow> rai_clock \<Rightarrow> peer_container \<Rightarrow> endpoint \<Rightarrow> u32 \<Rightarrow> (peer_container \<times> endpoint option) option" where
  "contacted E T c endpoint_a version_a = do {
     let endpoint_l = (case fst endpoint_a of V4 a \<Rightarrow> (V6 (mapped_from_v4_bytes a), snd endpoint_a) | V6 _ \<Rightarrow> endpoint_a);
     (_, c, observed) \<leftarrow> peer_insert E T c endpoint_l version_a;
     Some (c, observed) }"

definition rep_response :: "rai_clock \<Rightarrow> peer_container \<Rightarrow> endpoint \<Rightarrow> u256 \<Rightarrow> u128 \<Rightarrow> bool \<times> peer_container" where
  "rep_response T c endpoint_a rep_account_a weight_a =
     (\<exists>p \<in> set (peers c). peer_endpoint p = endpoint_a \<and> rep_weight p < weight_a,
      modify_peer endpoint_a (\<lambda>p.
        let p = p\<lparr>last_rep_response := steady_now T\<rparr> in
        if rep_weight p < weight_a
        then p\<lparr>rep_weight := weight_a, probable_rep_account := Some rep_account_a\<rparr> else p) c)"

definition rep_request :: "rai_clock \<Rightarrow> peer_container \<Rightarrow> endpoint \<Rightarrow> peer_container" where
  "rep_request T c endpoint_a = modify_peer endpoint_a (\<lambda>p. p\<lparr>last_rep_request := steady_now T\<rparr>) c"

definition rep_crawl :: "peer_container \<Rightarrow> endpoint list" where
  "rep_crawl c = map peer_endpoint (take 10 (sort_key last_rep_request (peers c)))"

text \<open>Greatest weight first, without those of weight zero.\<close>

definition representatives :: "peer_container \<Rightarrow> nat \<Rightarrow> peer_information list" where
  "representatives c count_a =
     take count_a (filter (\<lambda>p. rep_weight p \<noteq> 0) (sort_key (\<lambda>p. - int (unat (rep_weight p))) (peers c)))"

definition reachout :: "rai_env \<Rightarrow> rai_clock \<Rightarrow> peer_container \<Rightarrow> endpoint \<Rightarrow> (bool \<times> peer_container) option" where
  "reachout E T c endpoint_a = do {
     error \<leftarrow> not_a_peer E c endpoint_a;
     Some (if \<not> error then
         (known_peer c endpoint_a \<or> endpoint_a \<in> fst ` set (attempts c),
          if endpoint_a \<in> fst ` set (attempts c) then c
          else c\<lparr>attempts := attempts c @ [(endpoint_a, steady_now T)]\<rparr>)
       else (error, c)) }"

text \<open>The peers kept, oldest contact first, the container, and whether \<open>disconnect_observer\<close> is called.\<close>

definition purge_list :: "rai_clock \<Rightarrow> peer_container \<Rightarrow> nat \<Rightarrow> peer_information list \<times> peer_container \<times> bool" where
  "purge_list T c cutoff =
    (let result = filter (\<lambda>p. cutoff \<le> last_contact p) (sort_key last_contact (peers c)) in
     (result,
      c\<lparr>peers := map (\<lambda>p. p\<lparr>last_attempt := steady_now T\<rparr>) (filter (\<lambda>p. cutoff \<le> last_contact p) (peers c)),
        attempts := filter (\<lambda>a. cutoff \<le> snd a) (attempts c)\<rparr>,
      result = []))"

definition bootstrap_peer :: "rai_clock \<Rightarrow> peer_container \<Rightarrow> endpoint \<times> peer_container" where
  "bootstrap_peer T c =
    (case filter (\<lambda>p. 5 \<le> network_version p) (sort_key last_bootstrap_attempt (peers c)) of
       [] \<Rightarrow> ((V6 0, 0), c)
     | p # _ \<Rightarrow> (peer_endpoint p,
         modify_peer (peer_endpoint p) (\<lambda>p. p\<lparr>last_bootstrap_attempt := steady_now T\<rparr>) c))"

text \<open>
  \<open>random i\<close> is the number the \<open>i\<close>th call of the random pool returns. The set is a list without
  repetitions.
\<close>

primrec random_samples :: "(nat \<Rightarrow> nat) \<Rightarrow> peer_information list \<Rightarrow> nat \<Rightarrow> nat \<Rightarrow> nat \<Rightarrow> endpoint list \<Rightarrow> endpoint list" where
  "random_samples random ps count_a i 0 result = result"
| "random_samples random ps count_a i (Suc n) result =
    (if length result < count_a
     then random_samples random ps count_a (Suc i) n (List.insert (peer_endpoint (ps ! random i)) result)
     else result)"

fun fill_samples :: "peer_information list \<Rightarrow> nat \<Rightarrow> endpoint list \<Rightarrow> endpoint list" where
  "fill_samples [] count_a result = result"
| "fill_samples (p # ps) count_a result =
    (if length result < count_a then fill_samples ps count_a (List.insert (peer_endpoint p) result) else result)"

definition random_set :: "(nat \<Rightarrow> nat) \<Rightarrow> peer_container \<Rightarrow> nat \<Rightarrow> endpoint list" where
  "random_set random c count_a =
     fill_samples (sort_key last_contact (peers c)) count_a
       (if peers c \<noteq> [] then random_samples random (peers c) count_a 0 (count_a * 2) [] else [])"

definition random_fill :: "(nat \<Rightarrow> nat) \<Rightarrow> peer_container \<Rightarrow> endpoint list option" where
  "random_fill random c = do {
     let ps = random_set random c 8;
     assert_that (length ps \<le> 8);
     assert_that (list_all (\<lambda>p. case fst p of V6 _ \<Rightarrow> True | V4 _ \<Rightarrow> False) ps);
     Some (ps @ replicate (8 - length ps) (V6 0, 0)) }"

definition list_version :: "peer_container \<Rightarrow> endpoint \<rightharpoonup> u32" where
  "list_version c = map_of (map (\<lambda>p. (peer_endpoint p, network_version p)) (peers c))"

section \<open>Every peer may be contacted\<close>

definition contactable :: "rai_env \<Rightarrow> endpoint \<Rightarrow> peer_information \<Rightarrow> bool" where
  "contactable E self_a p \<longleftrightarrow>
     (\<exists>a. fst (peer_endpoint p) = V6 a \<and> a \<noteq> 0) \<and> reserved_address E (peer_endpoint p) = Some False
     \<and> peer_endpoint p \<noteq> self_a \<and> ucast protocol_version_min \<le> network_version p"

definition peers_inv :: "rai_env \<Rightarrow> peer_container \<Rightarrow> bool" where
  "peers_inv E c \<longleftrightarrow> distinct (map peer_endpoint (peers c)) \<and> (\<forall>p \<in> set (peers c). contactable E (peer_self c) p)
     \<and> distinct (map fst (attempts c))"

lemma not_a_peer_False:
  "not_a_peer E c e = Some False \<longleftrightarrow>
     (\<exists>a. fst e = V6 a \<and> a \<noteq> 0) \<and> reserved_address E e = Some False \<and> e \<noteq> peer_self c"
  by (auto simp: not_a_peer_def bind_Some_iff split: address.splits)

text \<open>An update of one peer that keeps its endpoint and version keeps the invariant.\<close>

lemma modify_peer_endpoints:
  assumes "\<And>p. peer_endpoint (f p) = peer_endpoint p"
  shows "map peer_endpoint (peers (modify_peer e f c)) = map peer_endpoint (peers c)"
  using assms by (simp add: modify_peer_def comp_def if_distrib cong: if_cong)

lemma modify_peer_inv:
  assumes "peers_inv E c" "\<And>p. peer_endpoint (f p) = peer_endpoint p" "\<And>p. network_version (f p) = network_version p"
  shows "peers_inv E (modify_peer e f c)"
proof -
  have "\<forall>p \<in> set (peers (modify_peer e f c)). contactable E (peer_self c) p"
    using assms by (auto simp: peers_inv_def contactable_def modify_peer_def)
  then show ?thesis
    using assms(1) modify_peer_endpoints [of f e c] assms(2) by (simp add: peers_inv_def) (simp add: modify_peer_def)
qed

lemma peer_insert_inv:
  assumes "peers_inv E c" "peer_insert E T c e v = Some (r, c', ob)"
  shows "peers_inv E c'"
proof -
  obtain b where b: "not_a_peer E c e = Some b" using assms(2) by (auto simp: peer_insert_def bind_Some_iff)
  show ?thesis
  proof (cases "b \<or> \<not> ucast protocol_version_min \<le> v")
    case True
    then show ?thesis using assms b by (auto simp: peer_insert_def split: if_splits)
  next
    case False
    then have n: "not_a_peer E c e = Some False" "ucast protocol_version_min \<le> v" using b by auto
    show ?thesis
    proof (cases "known_peer c e")
      case True
      then have "c' = modify_peer e (\<lambda>p. p\<lparr>last_contact := steady_now T\<rparr>) c"
        using assms(2) n by (auto simp: peer_insert_def)
      then show ?thesis using modify_peer_inv [OF assms(1)] by simp
    next
      case False
      then have "c' = c\<lparr>peers := peers c @ [new_peer_information T e v]\<rparr>"
        using assms(2) n by (auto simp: peer_insert_def)
      then show ?thesis
        using assms(1) n False
        by (auto simp: peers_inv_def contactable_def new_peer_information_def known_peer_def not_a_peer_False)
    qed
  qed
qed

lemma contacted_inv: "peers_inv E c \<Longrightarrow> contacted E T c e v = Some (c', ob) \<Longrightarrow> peers_inv E c'"
  by (auto simp: contacted_def bind_Some_iff intro: peer_insert_inv)

lemma rep_response_inv: "peers_inv E c \<Longrightarrow> peers_inv E (snd (rep_response T c e a w))"
  by (auto simp: rep_response_def Let_def intro: modify_peer_inv)

lemma rep_request_inv: "peers_inv E c \<Longrightarrow> peers_inv E (rep_request T c e)"
  by (auto simp: rep_request_def intro: modify_peer_inv)

lemma bootstrap_peer_inv: "peers_inv E c \<Longrightarrow> peers_inv E (snd (bootstrap_peer T c))"
  by (auto simp: bootstrap_peer_def intro: modify_peer_inv split: list.splits)

lemma reachout_inv: "peers_inv E c \<Longrightarrow> reachout E T c e = Some (r, c') \<Longrightarrow> peers_inv E c'"
  by (auto simp: reachout_def peers_inv_def bind_Some_iff split: if_splits)

lemma purge_list_inv: "peers_inv E c \<Longrightarrow> peers_inv E (fst (snd (purge_list T c t)))"
  by (auto simp: purge_list_def peers_inv_def contactable_def Let_def comp_def distinct_map_filter)

text \<open>Samples are peers, without repetition and at most as many as asked for.\<close>

lemma fill_samples_props:
  "distinct r \<Longrightarrow> length r \<le> n \<Longrightarrow>
     distinct (fill_samples ps n r) \<and> length (fill_samples ps n r) \<le> n
     \<and> set (fill_samples ps n r) \<subseteq> set r \<union> peer_endpoint ` set ps
     \<and> (length (fill_samples ps n r) = n \<or> set (fill_samples ps n r) = set r \<union> peer_endpoint ` set ps)"
proof (induction ps n r rule: fill_samples.induct)
  case (2 p ps n r)
  show ?case
  proof (cases "length r < n")
    case True
    then have "length (List.insert (peer_endpoint p) r) \<le> n" by (simp add: List.insert_def)
    with 2 True show ?thesis by (auto simp: distinct_insert)
  next
    case False
    with 2 show ?thesis by auto
  qed
qed auto

lemma random_samples_props:
  "distinct r \<Longrightarrow> length r \<le> n \<Longrightarrow> set r \<subseteq> peer_endpoint ` set ps \<Longrightarrow> (\<And>i. random i < length ps) \<Longrightarrow>
     distinct (random_samples random ps n i k r) \<and> length (random_samples random ps n i k r) \<le> n
     \<and> set (random_samples random ps n i k r) \<subseteq> peer_endpoint ` set ps"
proof (induction k arbitrary: i r)
  case (Suc k)
  show ?case
  proof (cases "length r < n")
    case True
    have "length (List.insert (peer_endpoint (ps ! random i)) r) \<le> n" using True by (simp add: List.insert_def)
    moreover have "set (List.insert (peer_endpoint (ps ! random i)) r) \<subseteq> peer_endpoint ` set ps"
      using Suc.prems(3,4) nth_mem by (auto simp: set_insert)
    ultimately show ?thesis using Suc True by (simp add: distinct_insert)
  next
    case False
    with Suc.prems show ?thesis by simp
  qed
qed simp

section \<open>Runs\<close>

inductive peer_step :: "rai_env \<Rightarrow> peer_container \<Rightarrow> peer_container \<Rightarrow> bool" for E where
  step_insert: "peer_insert E T c e v = Some (r, c', ob) \<Longrightarrow> peer_step E c c'"
| step_contacted: "contacted E T c e v = Some (c', ob) \<Longrightarrow> peer_step E c c'"
| step_rep_response: "peer_step E c (snd (rep_response T c e a w))"
| step_rep_request: "peer_step E c (rep_request T c e)"
| step_reachout: "reachout E T c e = Some (r, c') \<Longrightarrow> peer_step E c c'"
| step_purge: "peer_step E c (fst (snd (purge_list T c t)))"
| step_bootstrap: "peer_step E c (snd (bootstrap_peer T c))"

lemma peer_step_inv: "peer_step E c c' \<Longrightarrow> peers_inv E c \<Longrightarrow> peers_inv E c'"
  by (induction rule: peer_step.induct)
    (auto intro: peer_insert_inv contacted_inv rep_response_inv rep_request_inv reachout_inv purge_list_inv bootstrap_peer_inv)

interpretation peer_runs: step_invariant "peer_step E" "peers_inv E" for E
  by unfold_locales (rule peer_step_inv)

lemma peer_steps_inv: "(peer_step E)\<^sup>*\<^sup>* (new_peer_container self_a) c \<Longrightarrow> peers_inv E c"
  by (erule peer_runs.run_kept) (simp add: peers_inv_def new_peer_container_def)

interpretation peer_identity: step_invariant "peer_step E" "\<lambda>c. peer_self c = self_a" for E self_a
proof unfold_locales
  fix c c'
  assume "peer_self c = self_a" "peer_step E c c'"
  then show "peer_self c' = self_a"
    by (elim peer_step.cases) (auto simp: peer_insert_def contacted_def rep_response_def rep_request_def reachout_def
        purge_list_def bootstrap_peer_def modify_peer_def bind_Some_iff Let_def split: if_splits list.splits)
qed

lemma peer_steps_self: "(peer_step E)\<^sup>*\<^sup>* (new_peer_container self_a) c \<Longrightarrow> peer_self c = self_a"
  by (erule peer_identity.run_kept) (simp add: new_peer_container_def)

lemma random_fill_peers:
  assumes inv: "peers_inv E c" and random: "\<And>i. random i < length (peers c)"
  shows "\<exists>ps. random_fill random c = Some ps \<and> length ps = 8
    \<and> (\<forall>e \<in> set ps. e = (V6 0, 0) \<or> e \<in> peer_endpoint ` set (peers c))"
proof -
  let ?r = "if peers c \<noteq> [] then random_samples random (peers c) 8 0 (8 * 2) [] else []"
  have r: "distinct ?r" "length ?r \<le> 8" "set ?r \<subseteq> peer_endpoint ` set (peers c)"
    using random_samples_props [of "[]" 8 "peers c" random 0 "8 * 2"] random by auto
  have s: "length (random_set random c 8) \<le> 8" "set (random_set random c 8) \<subseteq> peer_endpoint ` set (peers c)"
    using fill_samples_props [OF r(1,2), of "sort_key last_contact (peers c)"] r(3) unfolding random_set_def by auto
  then have "list_all (\<lambda>p. case fst p of V6 _ \<Rightarrow> True | V4 _ \<Rightarrow> False) (random_set random c 8)"
    using inv by (fastforce simp: list_all_iff peers_inv_def contactable_def)
  then show ?thesis using s unfolding random_fill_def Let_def by auto
qed

text \<open>The ranges for multicast and for unique local addresses end too early.\<close>

lemma reserved_ranges_short:
  "reserved_address E (V6 0xff020000000000000000000000000001, p) = Some False"
  "reserved_address E (V6 0xfd120000000000000000000000000001, p) = Some False"
  by (simp_all add: reserved_address_def within_def mapped_from_v4_bytes_def)

end
