(* ===== verification/Rai_Node.thy ===== *)
theory Rai_Node
  imports Rai_Ledger Rai_Peers
begin

text \<open>
  The node around the ledger, from \<^verbatim>\<open>src/rai/node/node.hpp\<close> and \<^verbatim>\<open>node.cpp\<close>: the blocks that
  recently arrived, the representatives heard on the network and their stake, the blocks with a gap
  before them, the elections and the processing of votes. One record holds the state of these
  parts; an operation is a function of it and of the clock.

  What leaves the node (messages, tasks posted for later) is appended to \<open>n_events\<close>. Containers
  ordered by time are lists in that order; unordered ones are lists in some order of iteration. The
  representatives of the wallets, with their keys, are a field of the record. Logging is left out.
\<close>

section \<open>State\<close>

definition seconds :: "nat \<Rightarrow> nat" where
  "seconds n = n * 10 ^ 9"

record node_config =
  online_weight_minimum :: u128
  online_weight_quorum :: u32
  bootstrap_fraction_numerator :: u32
  enable_voting :: bool
  vote_logging :: bool

record gap_information =
  gap_arrival :: nat
  gap_hash :: u256
  gap_votes :: votes

record vote_info =
  vi_time :: nat
  vi_sequence :: u64
  vi_hash :: u256

text \<open>What \<open>confirmation_action\<close> is: nothing, or the closure built by \<open>process_fork\<close> for a root.\<close>

datatype confirmation_action = No_action | Requeue_pull u256

record election =
  e_votes :: votes
  e_last_votes :: "u256 \<rightharpoonup> vote_info"
  e_winner :: block
  e_tally :: u128
  e_confirmed :: bool
  e_action :: confirmation_action

text \<open>
  Elections are shared: a task that announces the winner holds one that may have left the
  container. They are therefore named by their place in \<open>n_elections\<close>, which only grows.
\<close>

record conflict_info =
  c_root :: u256
  c_election :: nat
  c_announcements :: u32
  c_options :: "block \<times> block option"

text \<open>
  \<open>Confirm_fanout\<close> and \<open>Publish_fanout\<close> go to the peers of \<open>list_fanout\<close>; the last five are tasks
  given to the alarm or to the service.
\<close>

datatype event =
    Send_keepalive endpoint
  | Confirm_send vote endpoint
  | Confirm_fanout vote
  | Publish_fanout block
  | Send_confirm_req endpoint block
  | Confirm_req_later block "peer_information list" nat
  | Broadcast_winner nat
  | Process_confirmed block confirmation_action
  | Bootstrap_missing u256
  | Crawler_remove u256

record node =
  n_ledger :: ledger
  n_config :: node_config
  n_peers :: peer_container
  n_arrival :: "(nat \<times> u256) list"
  n_gaps :: "gap_information list"
  n_reps :: "(nat \<times> u256) list"
  n_stake :: u128
  n_crawler :: "u256 set"
  n_elections :: "election list"
  n_roots :: "conflict_info list"
  n_confirmed :: "(block \<times> u128) list"
  n_blocks :: "block list"
  n_forced :: "block list"
  n_next_log :: nat
  n_events :: "event list"
  n_wallet_reps :: "(u256 \<times> u256) list"
  n_not_an_account :: u256

definition emit :: "event \<Rightarrow> node \<Rightarrow> node" where
  "emit e N = N\<lparr>n_events := n_events N @ [e]\<rparr>"

definition node_weight :: "node \<Rightarrow> u256 \<Rightarrow> u128 \<times> node" where
  "node_weight N a = (case weight (n_ledger N) a of (w, L) \<Rightarrow> (w, N\<lparr>n_ledger := L\<rparr>))"

definition node_stat :: "(stat \<Rightarrow> stat) \<Rightarrow> node \<Rightarrow> node" where
  "node_stat f N = N\<lparr>n_ledger := (n_ledger N)\<lparr>stats := f (stats (n_ledger N))\<rparr>\<rparr>"

definition set_store :: "node \<Rightarrow> block_store \<Rightarrow> node" where
  "set_store N s = N\<lparr>n_ledger := (n_ledger N)\<lparr>store := s\<rparr>\<rparr>"

abbreviation node_store :: "node \<Rightarrow> block_store" where
  "node_store N \<equiv> store (n_ledger N)"

text \<open>Insertion into an index ordered by time: behind the entries of the same time.\<close>

fun insert_by :: "('a \<Rightarrow> nat) \<Rightarrow> 'a \<Rightarrow> 'a list \<Rightarrow> 'a list" where
  "insert_by f x [] = [x]"
| "insert_by f x (y # ys) = (if f x < f y then x # y # ys else y # insert_by f x ys)"

section \<open>Recent arrivals\<close>

definition arrival_size_min :: nat where "arrival_size_min = 8 * 1024"

definition arrival_time_min :: nat where "arrival_time_min = seconds 300"

definition block_arrival_add :: "rai_clock \<Rightarrow> node \<Rightarrow> u256 \<Rightarrow> bool \<times> node" where
  "block_arrival_add T N hash_a =
    (if hash_a \<in> snd ` set (n_arrival N) then (True, N)
     else (False, N\<lparr>n_arrival := insert_by fst (steady_now T, hash_a) (n_arrival N)\<rparr>))"

fun arrival_expire :: "nat \<Rightarrow> (nat \<times> u256) list \<Rightarrow> (nat \<times> u256) list" where
  "arrival_expire now [] = []"
| "arrival_expire now (i # arrival) =
    (if arrival_size_min < length (i # arrival) \<and> fst i + arrival_time_min < now
     then arrival_expire now arrival else i # arrival)"

definition block_arrival_recent :: "rai_clock \<Rightarrow> node \<Rightarrow> u256 \<Rightarrow> bool \<times> node" where
  "block_arrival_recent T N hash_a =
    (let arrival = arrival_expire (steady_now T) (n_arrival N)
     in (hash_a \<in> snd ` set arrival, N\<lparr>n_arrival := arrival\<rparr>))"

section \<open>Representatives that were heard\<close>

definition rep_crawler_add :: "node \<Rightarrow> u256 \<Rightarrow> node" where
  "rep_crawler_add N hash_a = N\<lparr>n_crawler := insert hash_a (n_crawler N)\<rparr>"

definition rep_crawler_remove :: "node \<Rightarrow> u256 \<Rightarrow> node" where
  "rep_crawler_remove N hash_a = N\<lparr>n_crawler := n_crawler N - {hash_a}\<rparr>"

definition rep_crawler_exists :: "node \<Rightarrow> u256 \<Rightarrow> bool" where
  "rep_crawler_exists N hash_a \<longleftrightarrow> hash_a \<in> n_crawler N"

definition online_stake :: "node \<Rightarrow> u128" where
  "online_stake N = max (n_stake N) (online_weight_minimum (n_config N))"

definition node_cutoff :: nat where "node_cutoff = seconds (60 * 5)"

fun reps_expire :: "nat \<Rightarrow> ledger \<Rightarrow> (nat \<times> u256) list \<Rightarrow> u128 \<Rightarrow> (nat \<times> u256) list \<times> u128 \<times> ledger" where
  "reps_expire now L [] stake_l = ([], stake_l, L)"
| "reps_expire now L (current # reps) stake_l =
    (if fst current + node_cutoff < now then
       (case weight L (snd current) of (w, L) \<Rightarrow>
          let old_stake = stake_l; stake_l = stake_l - w;
              stake_l = (if old_stake < stake_l then 0 else stake_l)
          in reps_expire now L reps stake_l)
     else (current # reps, stake_l, L))"

definition online_reps_vote :: "rai_clock \<Rightarrow> node \<Rightarrow> vote \<Rightarrow> node" where
  "online_reps_vote T N vote_a =
    (let rep = vote_account vote_a; now = steady_now T;
         (reps, stake_l, L) = reps_expire now (n_ledger N) (n_reps N) (n_stake N)
     in if rep \<notin> snd ` set reps then
          (case weight L rep of (w, L) \<Rightarrow>
             let old_stake = stake_l; stake_l = stake_l + w;
                 stake_l = (if stake_l < old_stake then - 1 else stake_l)
             in N\<lparr>n_ledger := L, n_reps := insert_by fst (now, rep) reps, n_stake := stake_l\<rparr>)
        else N\<lparr>n_ledger := L, n_stake := stake_l,
               n_reps := insert_by fst (now, rep) (filter (\<lambda>i. snd i \<noteq> rep) reps)\<rparr>)"

fun sum_stake :: "ledger \<Rightarrow> (nat \<times> u256) list \<Rightarrow> u128 \<Rightarrow> u128 \<times> ledger" where
  "sum_stake L [] stake_l = (stake_l, L)"
| "sum_stake L (i # reps) stake_l = (case weight L (snd i) of (w, L) \<Rightarrow> sum_stake L reps (stake_l + w))"

definition recalculate_stake :: "node \<Rightarrow> node" where
  "recalculate_stake N = (case sum_stake (n_ledger N) (n_reps N) 0 of (stake_l, L) \<Rightarrow> N\<lparr>n_ledger := L, n_stake := stake_l\<rparr>)"

definition online_reps_list :: "node \<Rightarrow> u256 list" where
  "online_reps_list N = map snd (n_reps N)"

definition delta :: "node \<Rightarrow> u128" where
  "delta N = (online_stake N div 100) * ucast (online_weight_quorum (n_config N))"

section \<open>Blocks with a gap before them\<close>

definition gap_cache_max :: nat where "gap_cache_max = 256"

definition gap_add :: "rai_clock \<Rightarrow> rai_env \<Rightarrow> node \<Rightarrow> block \<Rightarrow> node" where
  "gap_add T E N block_a =
    (let hash = block_hash E block_a; gaps = n_gaps N in
     case find (\<lambda>g. gap_hash g = hash) gaps of
       Some g \<Rightarrow> N\<lparr>n_gaps := insert_by gap_arrival (g\<lparr>gap_arrival := steady_now T\<rparr>) (filter (\<lambda>g. gap_hash g \<noteq> hash) gaps)\<rparr>
     | None \<Rightarrow>
         (let gaps = insert_by gap_arrival
                \<lparr>gap_arrival = steady_now T, gap_hash = hash, gap_votes = new_votes (n_not_an_account N) block_a\<rparr> gaps
          in N\<lparr>n_gaps := (if gap_cache_max < length gaps then tl gaps else gaps)\<rparr>))"

definition bootstrap_threshold :: "node \<Rightarrow> u128" where
  "bootstrap_threshold N = (online_stake N div 256) * ucast (bootstrap_fraction_numerator (n_config N))"

definition gap_vote :: "rai_env \<Rightarrow> node \<Rightarrow> vote \<Rightarrow> node option" where
  "gap_vote E N vote_a =
    (let hash = block_hash E (vote_block vote_a) in
     case find (\<lambda>g. gap_hash g = hash) (n_gaps N) of
       None \<Rightarrow> Some N
     | Some g \<Rightarrow> do {
         let vs = snd (votes_vote (gap_votes g) vote_a);
         let N = N\<lparr>n_gaps := map (\<lambda>g. if gap_hash g = hash then g\<lparr>gap_votes := vs\<rparr> else g) (n_gaps N)\<rparr>;
         ((w, _), L) \<leftarrow> winner (n_ledger N) vs;
         let N = N\<lparr>n_ledger := L\<rparr>;
         Some (if bootstrap_threshold N < w then emit (Bootstrap_missing hash) N else N) })"

definition gap_erase :: "node \<Rightarrow> u256 \<Rightarrow> node" where
  "gap_erase N hash_a = N\<lparr>n_gaps := filter (\<lambda>g. gap_hash g \<noteq> hash_a) (n_gaps N)\<rparr>"

text \<open>
  \<open>purge_old\<close> looks at the first entry of the hashed index, whose order is unspecified: \<open>first\<close>
  chooses an entry. Every round but the last erases one, so the number of entries bounds the loop.
\<close>

primrec gap_purge :: "(gap_information list \<Rightarrow> gap_information) \<Rightarrow> nat \<Rightarrow> nat \<Rightarrow> gap_information list \<Rightarrow> gap_information list" where
  "gap_purge first now 0 gaps = gaps"
| "gap_purge first now (Suc n) gaps =
    (if gaps = [] then []
     else if gap_arrival (first gaps) + seconds 10 < now
     then gap_purge first now n (filter (\<lambda>g. gap_hash g \<noteq> gap_hash (first gaps)) gaps)
     else gaps)"

definition purge_old :: "(gap_information list \<Rightarrow> gap_information) \<Rightarrow> rai_clock \<Rightarrow> node \<Rightarrow> node" where
  "purge_old first T N = N\<lparr>n_gaps := gap_purge first (steady_now T) (length (n_gaps N)) (n_gaps N)\<rparr>"

section \<open>Elections\<close>

definition new_election :: "node \<Rightarrow> block \<Rightarrow> confirmation_action \<Rightarrow> election" where
  "new_election N block_a action =
     \<lparr>e_votes = new_votes (n_not_an_account N) block_a, e_last_votes = Map.empty, e_winner = block_a,
      e_tally = 0, e_confirmed = False, e_action = action\<rparr>"

definition vote_info_less :: "rai_env \<Rightarrow> vote_info \<Rightarrow> vote \<Rightarrow> bool" where
  "vote_info_less E i v \<longleftrightarrow> vi_sequence i < vote_sequence v
     \<or> (vi_sequence i = vote_sequence v \<and> vi_hash i < block_hash E (vote_block v))"

definition bp_force :: "node \<Rightarrow> block \<Rightarrow> node" where
  "bp_force N block_a = N\<lparr>n_forced := block_a # n_forced N\<rparr>"

definition confirm_once :: "node \<Rightarrow> election \<Rightarrow> node \<times> election" where
  "confirm_once N e =
    (if \<not> e_confirmed e then (emit (Process_confirmed (e_winner e) (e_action e)) N, e\<lparr>e_confirmed := True\<rparr>)
     else (N, e))"

definition have_quorum :: "node \<Rightarrow> (u128 \<times> block) list \<Rightarrow> bool" where
  "have_quorum N tally_a =
    (let second = (if 1 < length tally_a then fst (tally_a ! 1) else 0)
     in second + delta N < fst (hd tally_a))"

definition confirm_if_quorum :: "node \<Rightarrow> election \<Rightarrow> (node \<times> election) option" where
  "confirm_if_quorum N e = do {
     let (tally_l, L) = tally (n_ledger N) (e_votes e);
     let N = N\<lparr>n_ledger := L\<rparr>;
     assert_that (0 < length tally_l);
     let (w, block_l) = hd tally_l;
     let e = e\<lparr>e_tally := w\<rparr>;
     let sum = (\<Sum>i \<leftarrow> tally_l. fst i);
     let (N, e) = (if online_weight_minimum (n_config N) \<le> sum \<and> \<not> block_equal block_l (e_winner e)
                   then (bp_force N block_l, e\<lparr>e_winner := block_l\<rparr>) else (N, e));
     Some (if have_quorum N tally_l then confirm_once N e else (N, e)) }"

text \<open>The cooldown, in seconds, of a representative of the given weight.\<close>

definition vote_cooldown :: "u128 \<Rightarrow> u128 \<Rightarrow> nat" where
  "vote_cooldown w online_l = (if w < online_l div 100 then 15 else if w < online_l div 20 then 5 else 1)"

definition election_vote :: "rai_env \<Rightarrow> rai_clock \<Rightarrow> node \<Rightarrow> election \<Rightarrow> vote \<Rightarrow> (bool \<times> node \<times> election) option" where
  "election_vote E T N e vote_a = do {
     assert_that (\<not> vote_validate E vote_a);
     let online_l = online_stake N;
     let (w, N) = node_weight N (vote_account vote_a);
     if rai_network E = Rai_test_network \<or> online_l div 1000 < w then do {
       let cooldown = vote_cooldown w online_l;
       let (should_process, replay) =
         (case e_last_votes e (vote_account vote_a) of
            None \<Rightarrow> (True, False)
          | Some last_vote \<Rightarrow>
              if vote_info_less E last_vote vote_a
              then (vi_time last_vote + seconds cooldown \<le> steady_now T, False)
              else (False, True));
       if should_process then do {
         let e = e\<lparr>e_last_votes := (e_last_votes e)(vote_account vote_a \<mapsto>
               \<lparr>vi_time = steady_now T, vi_sequence = vote_sequence vote_a, vi_hash = block_hash E (vote_block vote_a)\<rparr>)\<rparr>;
         let N = emit (Confirm_fanout vote_a) N;
         let e = e\<lparr>e_votes := snd (votes_vote (e_votes e) vote_a)\<rparr>;
         (N, e) \<leftarrow> confirm_if_quorum N e;
         Some (replay, N, e) }
       else Some (replay, N, e) }
     else Some (False, N, e) }"

section \<open>Active transactions\<close>

definition announcement_min :: u32 where "announcement_min = 4"

definition election_history_size :: nat where "election_history_size = 2048"

definition find_root :: "node \<Rightarrow> u256 \<Rightarrow> conflict_info option" where
  "find_root N root_a = find (\<lambda>c. c_root c = root_a) (n_roots N)"

definition get_election :: "node \<Rightarrow> nat \<Rightarrow> election" where
  "get_election N k = n_elections N ! k"

definition set_election :: "node \<Rightarrow> nat \<Rightarrow> election \<Rightarrow> node" where
  "set_election N k e = N\<lparr>n_elections := (n_elections N)[k := e]\<rparr>"

definition active_start :: "node \<Rightarrow> block \<times> block option \<Rightarrow> confirmation_action \<Rightarrow> bool \<times> node" where
  "active_start N blocks_a action =
    (let primary_block = fst blocks_a; root_a = root primary_block in
     case find_root N root_a of
       None \<Rightarrow> (False, N\<lparr>n_elections := n_elections N @ [new_election N primary_block action],
          n_roots := \<lparr>c_root = root_a, c_election = length (n_elections N), c_announcements = 0,
                      c_options = blocks_a\<rparr> # n_roots N\<rparr>)
     | Some _ \<Rightarrow> (True, N))"

definition active_vote :: "rai_env \<Rightarrow> rai_clock \<Rightarrow> node \<Rightarrow> vote \<Rightarrow> (bool \<times> node) option" where
  "active_vote E T N vote_a =
    (case find_root N (root (vote_block vote_a)) of
       None \<Rightarrow> Some (False, N)
     | Some c \<Rightarrow> do {
         (result, N, e) \<leftarrow> election_vote E T N (get_election N (c_election c)) vote_a;
         Some (result, set_election N (c_election c) e) })"

definition is_active :: "node \<Rightarrow> block \<Rightarrow> bool" where
  "is_active N block_a \<longleftrightarrow> find_root N (root block_a) \<noteq> None"

definition list_blocks :: "node \<Rightarrow> block list" where
  "list_blocks N = map (\<lambda>c. e_winner (get_election N (c_election c))) (n_roots N)"

definition active_erase :: "node \<Rightarrow> block \<Rightarrow> node" where
  "active_erase N block_a =
    (if find_root N (root block_a) \<noteq> None
     then N\<lparr>n_roots := filter (\<lambda>c. c_root c \<noteq> root block_a) (n_roots N)\<rparr> else N)"

definition active_stop :: "node \<Rightarrow> node" where
  "active_stop N = N\<lparr>n_roots := []\<rparr>"

section \<open>Requests for confirmation\<close>

definition send_confirm_req :: "rai_clock \<Rightarrow> node \<Rightarrow> endpoint \<Rightarrow> block \<Rightarrow> node" where
  "send_confirm_req T N endpoint_a block_a =
     emit (Send_confirm_req endpoint_a block_a)
       (node_stat (\<lambda>st. stat_add T st St_message Sd_confirm_req Sdir_out 1 False) N)"

text \<open>Ten requests, from the back of the vector; the rest is left to a task.\<close>

definition broadcast_confirm_req_base :: "rai_clock \<Rightarrow> node \<Rightarrow> block \<Rightarrow> peer_information list \<Rightarrow> nat \<Rightarrow> node" where
  "broadcast_confirm_req_base T N block_a endpoints_a delay_a =
    (let sent = take 10 (rev endpoints_a); endpoints_l = rev (drop 10 (rev endpoints_a));
         N = foldl (\<lambda>N p. send_confirm_req T N (peer_endpoint p) block_a) N sent
     in if endpoints_l \<noteq> [] then emit (Confirm_req_later block_a endpoints_l (delay_a + 50)) N else N)"

definition broadcast_confirm_req :: "rai_clock \<Rightarrow> node \<Rightarrow> block \<Rightarrow> node" where
  "broadcast_confirm_req T N block_a =
     broadcast_confirm_req_base T N block_a (representatives (n_peers N) (2 ^ 64 - 1)) 0"

definition block_confirm :: "rai_clock \<Rightarrow> node \<Rightarrow> block \<Rightarrow> node" where
  "block_confirm T N block_a = broadcast_confirm_req T (snd (active_start N (block_a, None) No_action)) block_a"

section \<open>Announcing\<close>

text \<open>The representatives that have not voted: a voter is replaced by the last entry of the vector.\<close>

function unanswered :: "(peer_information \<Rightarrow> bool) \<Rightarrow> peer_information list \<Rightarrow> peer_information list" where
  "unanswered voted [] = []"
| "unanswered voted (j # reps) =
    (if voted j then if reps = [] then [] else unanswered voted (last reps # butlast reps)
     else j # unanswered voted reps)"
  by pat_completeness auto
termination by (relation "measure (\<lambda>(_, reps). length reps)") auto

definition rep_voted :: "election \<Rightarrow> peer_information \<Rightarrow> bool" where
  "rep_voted e p =
    (case probable_rep_account p of Some a \<Rightarrow> map_of (rep_votes (e_votes e)) a \<noteq> None | None \<Rightarrow> False)"

definition push_history :: "(block \<times> u128) list \<Rightarrow> block \<times> u128 \<Rightarrow> (block \<times> u128) list" where
  "push_history history status =
    (let history = history @ [status] in if election_history_size < length history then tl history else history)"

text \<open>One entry of the loop: the root pushed to \<open>inactive\<close>, if it is.\<close>

definition announce_one :: "rai_clock \<Rightarrow> node \<Rightarrow> conflict_info \<Rightarrow> u256 option \<times> node" where
  "announce_one T N i =
    (let e = get_election N (c_election i) in
     if \<not> root_exists (node_store N) (votes_id (e_votes e)) \<or> (e_confirmed e \<and> announcement_min - 1 \<le> c_announcements i)
     then (Some (votes_id (e_votes e)),
           if e_confirmed e then N\<lparr>n_confirmed := push_history (n_confirmed N) (e_winner e, e_tally e)\<rparr> else N)
     else
       (let N = emit (Broadcast_winner (c_election i)) N in
        if c_announcements i mod announcement_min = 2 then
          (let reps = unanswered (rep_voted e) (representatives (n_peers N) (2 ^ 64 - 1)) in
           (None, if reps \<noteq> [] then
              (let N = broadcast_confirm_req_base T N (fst (c_options i)) reps 0 in
               case snd (c_options i) of Some b \<Rightarrow> broadcast_confirm_req_base T N b reps 0 | None \<Rightarrow> N)
            else N))
        else (None, N)))"

fun announce_loop :: "rai_clock \<Rightarrow> node \<Rightarrow> conflict_info list \<Rightarrow> u256 list \<times> node" where
  "announce_loop T N [] = ([], N)"
| "announce_loop T N (i # roots) =
    (let (r, N) = announce_one T N i; (inactive, N) = announce_loop T N roots
     in ((case r of Some root_a \<Rightarrow> root_a # inactive | None \<Rightarrow> inactive), N))"

fun erase_roots :: "u256 list \<Rightarrow> conflict_info list \<Rightarrow> conflict_info list option" where
  "erase_roots [] roots = Some roots"
| "erase_roots (r # inactive) roots = do {
     assert_that (r \<in> c_root ` set roots);
     erase_roots inactive (filter (\<lambda>c. c_root c \<noteq> r) roots) }"

definition announce_votes :: "rai_clock \<Rightarrow> node \<Rightarrow> node option" where
  "announce_votes T N = do {
     let roots = map (\<lambda>i. i\<lparr>c_announcements := c_announcements i + 1\<rparr>) (n_roots N);
     let (inactive, N) = announce_loop T N (n_roots N);
     roots \<leftarrow> erase_roots inactive roots;
     Some (N\<lparr>n_roots := roots\<rparr>) }"

section \<open>Votes\<close>

text \<open>The observer the node's constructor adds last: a vote may show that a peer is a representative.\<close>

definition rep_observer :: "rai_env \<Rightarrow> rai_clock \<Rightarrow> node \<Rightarrow> vote \<Rightarrow> endpoint \<Rightarrow> node" where
  "rep_observer E T N vote_a endpoint_a =
    (let (w, N) = node_weight N (vote_account vote_a);
         min_rep_weight = online_stake N div 1000
     in if min_rep_weight < w \<and> rep_crawler_exists N (block_hash E (vote_block vote_a)) then
          (let (updated, peers_l) = rep_response T (n_peers N) endpoint_a (vote_account vote_a) w;
               N = N\<lparr>n_peers := peers_l\<rparr>
           in if updated then foldl (\<lambda>N b. send_confirm_req T N endpoint_a b) N (list_blocks N) else N)
        else N)"

definition observe_vote :: "rai_env \<Rightarrow> rai_clock \<Rightarrow> node \<Rightarrow> vote \<Rightarrow> endpoint \<Rightarrow> node option" where
  "observe_vote E T N vote_a endpoint_a = do {
     N \<leftarrow> gap_vote E N vote_a;
     let N = online_reps_vote T N vote_a;
     Some (rep_observer E T N vote_a endpoint_a) }"

text \<open>The cases of the switch fall through: a vote is observed and then treated as a replay is.\<close>

definition vote_processor_vote :: "rai_env \<Rightarrow> rai_clock \<Rightarrow> node \<Rightarrow> vote \<Rightarrow> endpoint \<Rightarrow> (vote_code \<times> node) option" where
  "vote_processor_vote E T N vote_a endpoint_a = do {
     (result, N) \<leftarrow>
       (if \<not> vote_validate E vote_a then do {
          (max_vote, s) \<leftarrow> vote_max (node_store N) vote_a;
          let N = set_store N s;
          (replay, N) \<leftarrow> active_vote E T N vote_a;
          let result = (if \<not> replay \<or> vote_sequence vote_a < vote_sequence max_vote then Vote_vote else Vote_replay);
          N \<leftarrow> (if result = Vote_vote then observe_vote E T N vote_a endpoint_a else Some N);
          Some (result, if vote_sequence vote_a + 10000 < vote_sequence max_vote
                        then emit (Confirm_send max_vote endpoint_a) N else N) }
        else Some (Vote_invalid, N));
     Some (result, if vote_logging (n_config N)
       then node_stat (\<lambda>st. stat_inc T st St_vote
              (case result of Vote_invalid \<Rightarrow> Sd_vote_invalid | Vote_replay \<Rightarrow> Sd_vote_replay | Vote_vote \<Rightarrow> Sd_vote_valid)) N
       else N) }"

text \<open>
  Voting with the representatives of the wallets. \<open>confirm_block\<close> gives each vote to \<open>send\<close> and
  says whether there was one.
\<close>

fun confirm_block_loop :: "rai_env \<Rightarrow> (vote \<Rightarrow> event) \<Rightarrow> block \<Rightarrow> (u256 \<times> u256) list \<Rightarrow> node \<Rightarrow> node option" where
  "confirm_block_loop E send block_a [] N = Some N"
| "confirm_block_loop E send block_a ((pub, prv) # reps) N = do {
     (v, s) \<leftarrow> vote_generate E (node_store N) pub prv block_a;
     confirm_block_loop E send block_a reps (emit (send v) (set_store N s)) }"

definition confirm_block :: "rai_env \<Rightarrow> node \<Rightarrow> (vote \<Rightarrow> event) \<Rightarrow> block \<Rightarrow> (bool \<times> node) option" where
  "confirm_block E N send block_a =
    (if enable_voting (n_config N) then do {
       N \<leftarrow> confirm_block_loop E send block_a (n_wallet_reps N) N;
       Some (n_wallet_reps N \<noteq> [], N) }
     else Some (False, N))"

definition republish_block :: "rai_env \<Rightarrow> node \<Rightarrow> block \<Rightarrow> node option" where
  "republish_block E N block_a = do {
     (result, N) \<leftarrow> confirm_block E N Confirm_fanout block_a;
     Some (if result then N else emit (Publish_fanout block_a) N) }"

text \<open>Each vote is for the winner at that moment: the votes before it may have changed it.\<close>

fun compute_rep_votes :: "rai_env \<Rightarrow> rai_clock \<Rightarrow> nat \<Rightarrow> (u256 \<times> u256) list \<Rightarrow> node \<Rightarrow> node option" where
  "compute_rep_votes E T k [] N = Some N"
| "compute_rep_votes E T k ((pub, prv) # reps) N = do {
     (v, s) \<leftarrow> vote_generate E (node_store N) pub prv (e_winner (get_election N k));
     (_, N) \<leftarrow> vote_processor_vote E T (set_store N s) v (peer_self (n_peers N));
     compute_rep_votes E T k reps N }"

definition broadcast_winner :: "rai_env \<Rightarrow> rai_clock \<Rightarrow> node \<Rightarrow> nat \<Rightarrow> node option" where
  "broadcast_winner E T N k = do {
     N \<leftarrow> (if enable_voting (n_config N) then compute_rep_votes E T k (n_wallet_reps N) N else Some N);
     republish_block E N (e_winner (get_election N k)) }"

end
