(* ===== verification/Rai_Node_Steps.thy ===== *)
theory Rai_Node_Steps
  imports Rai_Node
begin

text \<open>
  How blocks and messages move through the node (\<^verbatim>\<open>src/rai/node/node.cpp\<close>): the handling of a
  datagram from the parser to the peers, the votes and the queue of blocks, and the block processor,
  which takes a block from its queues, rolls back a rival that lost, processes it in the ledger and
  looks after the blocks that waited for it. The tasks of the node are the steps of one relation,
  and they interleave freely; each runs to its end at one reading of the clock.
\<close>

section \<open>A random block\<close>

text \<open>The region and the hash are what the random pool returns.\<close>

definition block_random_in :: "u256 \<Rightarrow> block_store \<Rightarrow> (u256 \<rightharpoonup> byte list) \<Rightarrow> block option option" where
  "block_random_in hash s database = do {
     let existing = (if cursor_range database hash = [] then cursor_first database else cursor_range database hash);
     assert_that (existing \<noteq> []);
     block_get s (hd existing) }"

definition block_random :: "u64 \<times> u256 \<Rightarrow> block_store \<Rightarrow> block option option" where
  "block_random R s =
    (let count = block_count_of s; region = fst R in
     if region < count_send count then block_random_in (snd R) s (send_blocks (dbs s))
     else let region = region - count_send count in
     if region < count_receive count then block_random_in (snd R) s (receive_blocks (dbs s))
     else let region = region - count_receive count in
     if region < count_open count then block_random_in (snd R) s (open_blocks (dbs s))
     else let region = region - count_open count in
     if region < count_change count then block_random_in (snd R) s (change_blocks (dbs s))
     else block_random_in (snd R) s (state_blocks (dbs s)))"

section \<open>Peers\<close>

definition network_send_keepalive :: "node \<Rightarrow> endpoint \<Rightarrow> node option" where
  "network_send_keepalive N endpoint_a = do {
     assert_that (case fst endpoint_a of V6 _ \<Rightarrow> True | V4 _ \<Rightarrow> False);
     Some (emit (Send_keepalive endpoint_a) N) }"

definition rep_query :: "rai_env \<Rightarrow> rai_clock \<Rightarrow> u64 \<times> u256 \<Rightarrow> node \<Rightarrow> endpoint list \<Rightarrow> node option" where
  "rep_query E T R N peers_a = do {
     b \<leftarrow> block_random R (node_store N);
     block_a \<leftarrow> b;
     let hash = block_hash E block_a;
     let N = rep_crawler_add N hash;
     let N = foldl (\<lambda>N i. send_confirm_req T (N\<lparr>n_peers := rep_request T (n_peers N) i\<rparr>) i block_a) N peers_a;
     Some (emit (Crawler_remove hash) N) }"

text \<open>The observer of new peers, and the two operations of the container that call it.\<close>

definition observe_endpoint :: "rai_env \<Rightarrow> rai_clock \<Rightarrow> u64 \<times> u256 \<Rightarrow> node \<Rightarrow> endpoint option \<Rightarrow> node option" where
  "observe_endpoint E T R N observed_a =
    (case observed_a of
       None \<Rightarrow> Some N
     | Some endpoint_a \<Rightarrow> do {
         N \<leftarrow> network_send_keepalive N endpoint_a;
         rep_query E T R N [endpoint_a] })"

definition node_contacted :: "rai_env \<Rightarrow> rai_clock \<Rightarrow> u64 \<times> u256 \<Rightarrow> node \<Rightarrow> endpoint \<Rightarrow> byte \<Rightarrow> node option" where
  "node_contacted E T R N endpoint_a version_a = do {
     (c, observed_a) \<leftarrow> contacted E T (n_peers N) endpoint_a (ucast version_a);
     observe_endpoint E T R (N\<lparr>n_peers := c\<rparr>) observed_a }"

definition node_insert :: "rai_env \<Rightarrow> rai_clock \<Rightarrow> u64 \<times> u256 \<Rightarrow> node \<Rightarrow> endpoint \<Rightarrow> byte \<Rightarrow> node option" where
  "node_insert E T R N endpoint_a version_a = do {
     (_, c, observed_a) \<leftarrow> peer_insert E T (n_peers N) endpoint_a (ucast version_a);
     observe_endpoint E T R (N\<lparr>n_peers := c\<rparr>) observed_a }"

fun merge_peers :: "rai_env \<Rightarrow> rai_clock \<Rightarrow> endpoint list \<Rightarrow> node \<Rightarrow> node option" where
  "merge_peers E T [] N = Some N"
| "merge_peers E T (i # peers_a) N = do {
     (error, c) \<leftarrow> reachout E T (n_peers N) i;
     let N = N\<lparr>n_peers := c\<rparr>;
     N \<leftarrow> (if \<not> error then network_send_keepalive N i else Some N);
     merge_peers E T peers_a N }"

text \<open>The keepalives to configured host names, which are resolved first, are left out.\<close>

definition keepalive_period :: nat where "keepalive_period = seconds 60"

definition ongoing_keepalive :: "rai_clock \<Rightarrow> node \<Rightarrow> node option" where
  "ongoing_keepalive T N = do {
     let (peers_l, c, _) = purge_list T (n_peers N) (steady_now T - node_cutoff);
     foldl (\<lambda>r p. do { N \<leftarrow> r; network_send_keepalive N (peer_endpoint p) }) (Some (N\<lparr>n_peers := c\<rparr>))
       (takeWhile (\<lambda>p. keepalive_period < steady_now T - last_attempt p) peers_l) }"

definition ongoing_rep_crawl :: "rai_env \<Rightarrow> rai_clock \<Rightarrow> u64 \<times> u256 \<Rightarrow> node \<Rightarrow> node option" where
  "ongoing_rep_crawl E T R N = rep_query E T R N (rep_crawl (n_peers N))"

section \<open>The block processor\<close>

definition bp_add :: "rai_env \<Rightarrow> node \<Rightarrow> block \<Rightarrow> node option" where
  "bp_add E N block_a =
    (if \<not> work_validate E (root block_a) (block_work block_a) then Some (N\<lparr>n_blocks := block_a # n_blocks N\<rparr>)
     else None)"

definition bp_full :: "node \<Rightarrow> bool" where
  "bp_full N \<longleftrightarrow> 16384 < length (n_blocks N)"

definition have_blocks :: "node \<Rightarrow> bool" where
  "have_blocks N \<longleftrightarrow> n_blocks N \<noteq> [] \<or> n_forced N \<noteq> []"

definition should_log :: "rai_clock \<Rightarrow> node \<Rightarrow> bool \<times> node" where
  "should_log T N =
    (if n_next_log N < steady_now T then (True, N\<lparr>n_next_log := steady_now T + seconds 15\<rparr>) else (False, N))"

definition process_active :: "rai_env \<Rightarrow> rai_clock \<Rightarrow> node \<Rightarrow> block \<Rightarrow> node option" where
  "process_active E T N incoming =
    (case block_arrival_add T N (block_hash E incoming) of (known, N) \<Rightarrow> if \<not> known then bp_add E N incoming else Some N)"

fun requeue :: "rai_env \<Rightarrow> u256 \<Rightarrow> block option list \<Rightarrow> node \<Rightarrow> node option" where
  "requeue E hash_a [] N = Some N"
| "requeue E hash_a (None # cached) N = None"
| "requeue E hash_a (Some i # cached) N = do {
     N \<leftarrow> bp_add E (set_store N (unchecked_del (node_store N) hash_a i)) i;
     requeue E hash_a cached N }"

definition queue_unchecked :: "rai_env \<Rightarrow> node \<Rightarrow> u256 \<Rightarrow> node option" where
  "queue_unchecked E N hash_a = do {
     cached \<leftarrow> unchecked_get (node_store N) hash_a;
     N \<leftarrow> requeue E hash_a cached N;
     Some (gap_erase N hash_a) }"

definition process_fork :: "rai_env \<Rightarrow> rai_clock \<Rightarrow> node \<Rightarrow> block \<Rightarrow> node option" where
  "process_fork E T N block_a =
    (if \<not> block_exists (node_store N) (block_hash E block_a) \<and> root_exists (node_store N) (root block_a) then do {
       ledger_block \<leftarrow> forked_block E (node_store N) block_a;
       let (existed, N) = active_start N (ledger_block, Some block_a) (Requeue_pull (root block_a));
       Some (if \<not> existed then broadcast_confirm_req T N ledger_block else N) }
     else Some N)"

definition put_unchecked :: "rai_env \<Rightarrow> rai_clock \<Rightarrow> node \<Rightarrow> u256 \<Rightarrow> block \<Rightarrow> node option" where
  "put_unchecked E T N hash_a block_a = do {
     s \<leftarrow> unchecked_put E (node_store N) hash_a block_a;
     Some (gap_add T E (set_store N s) block_a) }"

definition process_receive_one :: "rai_env \<Rightarrow> rai_clock \<Rightarrow> node \<Rightarrow> block \<Rightarrow> (process_return \<times> node) option" where
  "process_receive_one E T N block_a = do {
     let hash = block_hash E block_a;
     (result, L) \<leftarrow> process E T (n_ledger N) block_a;
     let N = N\<lparr>n_ledger := L\<rparr>;
     N \<leftarrow> (case ret_code result of
        Progress \<Rightarrow>
          (case block_arrival_recent T N hash of (recent, N) \<Rightarrow>
             queue_unchecked E (if recent then snd (active_start N (block_a, None) No_action) else N) hash)
      | Gap_previous \<Rightarrow> put_unchecked E T N (previous block_a) block_a
      | Gap_source \<Rightarrow> do { src \<leftarrow> block_source E (node_store N) block_a; put_unchecked E T N src block_a }
      | Old \<Rightarrow> queue_unchecked E N hash
      | Fork \<Rightarrow> (case block_arrival_recent T N hash of (recent, N) \<Rightarrow> if \<not> recent then process_fork E T N block_a else Some N)
      | _ \<Rightarrow> Some N);
     Some (result, N) }"

text \<open>The front of the forced queue, or else of the other; whether it was forced.\<close>

fun next_block :: "node \<Rightarrow> ((block \<times> bool) \<times> node) option" where
  "next_block N =
    (case n_forced N of
       b # rest \<Rightarrow> Some ((b, True), N\<lparr>n_forced := rest\<rparr>)
     | [] \<Rightarrow> (case n_blocks N of b # rest \<Rightarrow> Some ((b, False), N\<lparr>n_blocks := rest\<rparr>) | [] \<Rightarrow> None))"

definition roll_back_rival :: "rai_env \<Rightarrow> rai_clock \<Rightarrow> node \<Rightarrow> block \<Rightarrow> node option" where
  "roll_back_rival E T N block_a = do {
     r \<leftarrow> ledger_successor (node_store N) (root block_a);
     (case r of
        Some successor \<Rightarrow>
          if block_hash E successor \<noteq> block_hash E block_a then do {
            L \<leftarrow> rollback E T (n_ledger N) (block_hash E successor);
            Some (N\<lparr>n_ledger := L\<rparr>) }
          else Some N
      | None \<Rightarrow> Some N) }"

definition process_next :: "rai_env \<Rightarrow> rai_clock \<Rightarrow> node \<Rightarrow> node option" where
  "process_next E T N = do {
     let N = (if 64 < length (n_blocks N) then snd (should_log T N) else N);
     ((block_a, force), N) \<leftarrow> next_block N;
     N \<leftarrow> (if force then roll_back_rival E T N block_a else Some N);
     (_, N) \<leftarrow> process_receive_one E T N block_a;
     Some N }"

primrec process_loop :: "rai_env \<Rightarrow> rai_clock \<Rightarrow> nat \<Rightarrow> node \<Rightarrow> node option" where
  "process_loop E T 0 N = Some N"
| "process_loop E T (Suc n) N =
    (if have_blocks N then do { N \<leftarrow> process_next E T N; process_loop E T n N } else Some N)"

definition process_receive_many :: "rai_env \<Rightarrow> rai_clock \<Rightarrow> node \<Rightarrow> node option" where
  "process_receive_many E T N = process_loop E T 16384 N"

section \<open>Datagrams\<close>

definition count_message :: "rai_clock \<Rightarrow> stat_detail \<Rightarrow> node \<Rightarrow> node" where
  "count_message T d = node_stat (\<lambda>st. stat_add T st St_message d Sdir_in 1 False)"

text \<open>What the three messages that carry a block do first.\<close>

definition message_peer :: "rai_env \<Rightarrow> rai_clock \<Rightarrow> u64 \<times> u256 \<Rightarrow> node \<Rightarrow> endpoint \<Rightarrow> byte \<Rightarrow> node option" where
  "message_peer E T R N sender version_a = do {
     N \<leftarrow> node_contacted E T R N sender version_a;
     node_insert E T R N sender version_a }"

fun network_visit :: "rai_env \<Rightarrow> rai_clock \<Rightarrow> u64 \<times> u256 \<Rightarrow> node \<Rightarrow> endpoint \<Rightarrow> message \<Rightarrow> node option" where
  "network_visit E T R N sender (Keepalive h peers_a) = do {
     N \<leftarrow> node_contacted E T R (count_message T Sd_keepalive N) sender (version_using h);
     merge_peers E T peers_a N }"
| "network_visit E T R N sender (Publish h b) = do {
     N \<leftarrow> message_peer E T R (count_message T Sd_publish N) sender (version_using h);
     process_active E T N b }"
| "network_visit E T R N sender (Confirm_req h b) = do {
     N \<leftarrow> message_peer E T R (count_message T Sd_confirm_req N) sender (version_using h);
     N \<leftarrow> process_active E T N b;
     r \<leftarrow> ledger_successor (node_store N) (root b);
     (case r of
        Some successor \<Rightarrow> map_option snd (confirm_block E N (\<lambda>v. Confirm_send v sender) successor)
      | None \<Rightarrow> Some N) }"
| "network_visit E T R N sender (Confirm_ack h v) = do {
     N \<leftarrow> message_peer E T R (count_message T Sd_confirm_ack N) sender (version_using h);
     N \<leftarrow> process_active E T N (vote_block v);
     map_option snd (vote_processor_vote E T N v sender) }"
| "network_visit E T R N sender (Bulk_pull h s e) = None"
| "network_visit E T R N sender (Bulk_pull_blocks h a b c d) = None"
| "network_visit E T R N sender (Bulk_push h) = None"
| "network_visit E T R N sender (Frontier_req h a b c) = None"

text \<open>A datagram that was received without error while the network is on.\<close>

definition receive_action :: "rai_env \<Rightarrow> rai_clock \<Rightarrow> u64 \<times> u256 \<Rightarrow> node \<Rightarrow> endpoint \<Rightarrow> byte list \<Rightarrow> node option" where
  "receive_action E T R N remote buffer = do {
     reserved \<leftarrow> reserved_address E remote;
     if \<not> reserved \<and> remote \<noteq> peer_self (n_peers N) then do {
       (status, r) \<leftarrow> deserialize_buffer E buffer;
       N \<leftarrow> (case r of Some m \<Rightarrow> network_visit E T R N remote m | None \<Rightarrow> Some N);
       Some (if status \<noteq> Parse_success then
           (let N = node_stat (\<lambda>st. stat_add T st St_error Sd_all Sdir_in 1 False) N in
            if status = Insufficient_work
            then node_stat (\<lambda>st. inc_detail_only T st St_error Sd_insufficient_work) N else N)
         else node_stat (\<lambda>st. stat_add T st St_traffic Sd_all Sdir_in (of_nat (length buffer)) False) N) }
     else Some (node_stat (\<lambda>st. inc_detail_only T st St_error Sd_bad_sender) N) }"

section \<open>The tasks of the node\<close>

definition ongoing_store_flush :: "node \<Rightarrow> node" where
  "ongoing_store_flush N = set_store N (flush (node_store N))"

text \<open>
  \<open>add_block\<close> is the way of the blocks that the bootstrap client pulls; the label \<open>True\<close> marks a round of
  announcements.
\<close>

inductive node_step :: "rai_env \<Rightarrow> node \<Rightarrow> bool \<Rightarrow> node \<Rightarrow> bool" for E where
  receive: "receive_action E T R N remote buffer = Some N' \<Longrightarrow> node_step E N False N'"
| add_block: "bp_add E N b = Some N' \<Longrightarrow> node_step E N False N'"
| process_block: "have_blocks N \<Longrightarrow> process_next E T N = Some N' \<Longrightarrow> node_step E N False N'"
| announce: "announce_votes T N = Some N' \<Longrightarrow> node_step E N True N'"
| broadcast: "k < length (n_elections N) \<Longrightarrow> broadcast_winner E T N k = Some N' \<Longrightarrow> node_step E N False N'"
| keepalive: "ongoing_keepalive T N = Some N' \<Longrightarrow> node_step E N False N'"
| crawl: "ongoing_rep_crawl E T R N = Some N' \<Longrightarrow> node_step E N False N'"
| crawled: "node_step E N False (rep_crawler_remove N h)"
| recalculate: "node_step E N False (recalculate_stake N)"
| store_flush: "node_step E N False (ongoing_store_flush N)"
| erase_election: "node_step E N False (active_erase N b)"

text \<open>Runs, with the number of rounds of announcements.\<close>

inductive node_run :: "rai_env \<Rightarrow> node \<Rightarrow> nat \<Rightarrow> node \<Rightarrow> bool" for E where
  run_nil: "node_run E N 0 N"
| run_step: "node_run E N k N' \<Longrightarrow> node_step E N' a N'' \<Longrightarrow> node_run E N (if a then Suc k else k) N''"

text \<open>A node that was just built over a ledger.\<close>

definition new_node :: "ledger \<Rightarrow> node_config \<Rightarrow> endpoint \<Rightarrow> (u256 \<times> u256) list \<Rightarrow> u256 \<Rightarrow> nat \<Rightarrow> node" where
  "new_node L cfg self_a reps not_an_account_a now =
     \<lparr>n_ledger = L, n_config = cfg, n_peers = new_peer_container self_a, n_arrival = [], n_gaps = [], n_reps = [],
      n_stake = 0, n_crawler = {}, n_elections = [], n_roots = [], n_confirmed = [], n_blocks = [], n_forced = [],
      n_next_log = now, n_events = [], n_wallet_reps = reps, n_not_an_account = not_an_account_a\<rparr>"

end
