(* ===== verification/Rai_Ledger_Spec.thy ===== *)
theory Rai_Ledger_Spec
  imports Rai_Ledger
begin

text \<open>
  What the ledger promises, without its tables: the view of a store, the one operation every
  accepted block amounts to (\<open>v_append\<close>: put a block on top of an account's chain), and the
  relation \<open>ledger_step\<close> that says which blocks are accepted in which view. The handlers of
  \<open>Rai_Ledger\<close> are proved to implement this relation in \<open>Rai_Ledger_Refine\<close>; the properties of
  the ledger are proved over the relation in \<open>Rai_Ledger_Inv\<close>.
\<close>

section \<open>Views\<close>

record view =
  vB :: "u256 \<rightharpoonup> block"
  vS :: "u256 \<rightharpoonup> u256"
  vA :: "u256 \<rightharpoonup> account_info"
  vP :: "pending_key \<rightharpoonup> pending_info"
  vF :: "u256 \<rightharpoonup> u256"
  vR :: "u256 \<Rightarrow> u128"
  vI :: "u256 \<rightharpoonup> block_info"
  vK :: "u256 option"

definition view_of :: "block_store \<Rightarrow> view" where
  "view_of s = \<lparr>vB = blk (dbs s), vS = suc (dbs s), vA = accounts s, vP = pending s, vF = frontiers s,
     vR = representation_get s, vI = blocks_info s, vK = checksum s 0\<rparr>"

lemma view_of_sel [simp]:
  "vB (view_of s) = blk (dbs s)" "vS (view_of s) = suc (dbs s)" "vA (view_of s) = accounts s"
  "vP (view_of s) = pending s" "vF (view_of s) = frontiers s" "vR (view_of s) = representation_get s"
  "vI (view_of s) = blocks_info s" "vK (view_of s) = checksum s 0"
  by (simp_all add: view_of_def)

text \<open>The representative a block names; the entry of the weight table an account counts for.\<close>

definition rep_account :: "(u256 \<rightharpoonup> block) \<Rightarrow> u256 \<Rightarrow> u256" where
  "rep_account B h = (case B h of Some b \<Rightarrow> representative b | None \<Rightarrow> 0)"

section \<open>Putting a block on an account's chain\<close>

definition new_info :: "rai_clock \<Rightarrow> view \<Rightarrow> u256 \<Rightarrow> u256 \<Rightarrow> u256 \<Rightarrow> u128 \<Rightarrow> account_info" where
  "new_info T V a h r v = (case vA V a of
      Some i \<Rightarrow> i\<lparr>head := h, rep_block := r, balance := v, modified := seconds_since_epoch T,
                  block_count := block_count i + 1\<rparr>
    | None \<Rightarrow> \<lparr>head = h, rep_block = r, open_block = h, balance = v, modified = seconds_since_epoch T,
               block_count = 1\<rparr>)"

definition weight_without :: "view \<Rightarrow> u256 \<Rightarrow> u256 \<Rightarrow> u128" where
  "weight_without V a = (case vA V a of
      Some i \<Rightarrow> (vR V)(rep_account (vB V) (rep_block i) := vR V (rep_account (vB V) (rep_block i)) - balance i)
    | None \<Rightarrow> vR V)"

definition v_append :: "rai_clock \<Rightarrow> u256 \<Rightarrow> u256 \<Rightarrow> block \<Rightarrow> u256 \<Rightarrow> u128 \<Rightarrow> (pending_key \<rightharpoonup> pending_info) \<Rightarrow> view \<Rightarrow> view" where
  "v_append T a h b r v P V =
    (let B = (vB V)(h \<mapsto> b); i = new_info T V a h r v; w = weight_without V a; ra = rep_account B r in
     \<lparr>vB = B,
      vS = (if previous b = 0 then (vS V)(h \<mapsto> 0) else (vS V)(h \<mapsto> 0, previous b \<mapsto> h)),
      vA = (vA V)(a \<mapsto> i),
      vP = P,
      vF = (if is_state b then (vF V)(previous b := None) else (vF V)(previous b := None, h \<mapsto> a)),
      vR = w(ra := w ra + v),
      vI = (if block_count i mod block_info_max = 0 \<and> \<not> is_state b
            then (vI V)(h \<mapsto> \<lparr>info_account = a, info_balance = v\<rparr>) else vI V),
      vK = map_option (\<lambda>k. (case vA V a of Some j \<Rightarrow> k XOR head j | None \<Rightarrow> k) XOR h) (vK V)\<rparr>)"

lemma v_append_sel:
  "vB (v_append T a h b r v P V) = (vB V)(h \<mapsto> b)"
  "vA (v_append T a h b r v P V) = (vA V)(a \<mapsto> new_info T V a h r v)"
  "vP (v_append T a h b r v P V) = P"
  "vS (v_append T a h b r v P V) = (if previous b = 0 then (vS V)(h \<mapsto> 0) else (vS V)(h \<mapsto> 0, previous b \<mapsto> h))"
  "vF (v_append T a h b r v P V) =
     (if is_state b then (vF V)(previous b := None) else (vF V)(previous b := None, h \<mapsto> a))"
  "vR (v_append T a h b r v P V) = (weight_without V a)
     (rep_account ((vB V)(h \<mapsto> b)) r := weight_without V a (rep_account ((vB V)(h \<mapsto> b)) r) + v)"
  "vI (v_append T a h b r v P V) = (if block_count (new_info T V a h r v) mod block_info_max = 0 \<and> \<not> is_state b
     then (vI V)(h \<mapsto> \<lparr>info_account = a, info_balance = v\<rparr>) else vI V)"
  "vK (v_append T a h b r v P V) = map_option (\<lambda>k. (case vA V a of Some j \<Rightarrow> k XOR head j | None \<Rightarrow> k) XOR h) (vK V)"
  by (simp_all add: v_append_def Let_def)

section \<open>Which blocks are accepted\<close>

definition signed :: "rai_env \<Rightarrow> u256 \<Rightarrow> block \<Rightarrow> bool" where
  "signed E a b \<longleftrightarrow> \<not> validate_message E a (block_hash E b) (block_signature b)"

text \<open>
  One rule per kind of block. Each asks for an unseen hash and a signature of the account; a
  block on an existing chain must name the account's head as its predecessor, a legacy block only
  if that head is a legacy block too; a receiving block consumes a pending entry for its account.
\<close>

inductive ledger_step :: "rai_env \<Rightarrow> rai_clock \<Rightarrow> view \<Rightarrow> block \<Rightarrow> view \<Rightarrow> bool"
  for E :: rai_env and T :: rai_clock and V :: view where
  step_send: "h = block_hash E (Send b) \<Longrightarrow> h \<notin> dom (vB V) \<Longrightarrow> signed E a (Send b) \<Longrightarrow>
    vA V a = Some i \<Longrightarrow> head i = s_previous (send_hashables b) \<Longrightarrow> \<not> state_at (vB V) (head i) \<Longrightarrow>
    s_balance (send_hashables b) \<le> balance i \<Longrightarrow>
    P = (vP V)(Pending_key (s_destination (send_hashables b)) h \<mapsto>
          \<lparr>pending_source = a, pending_amount = balance i - s_balance (send_hashables b)\<rparr>) \<Longrightarrow>
    ledger_step E T V (Send b) (v_append T a h (Send b) (rep_block i) (s_balance (send_hashables b)) P V)"
| step_receive: "h = block_hash E (Receive b) \<Longrightarrow> h \<notin> dom (vB V) \<Longrightarrow> signed E a (Receive b) \<Longrightarrow>
    vA V a = Some i \<Longrightarrow> head i = r_previous (receive_hashables b) \<Longrightarrow> \<not> state_at (vB V) (head i) \<Longrightarrow>
    vP V (Pending_key a (r_source (receive_hashables b))) = Some p \<Longrightarrow>
    P = (vP V)(Pending_key a (r_source (receive_hashables b)) := None) \<Longrightarrow>
    ledger_step E T V (Receive b) (v_append T a h (Receive b) (rep_block i) (balance i + pending_amount p) P V)"
| step_open: "h = block_hash E (Open b) \<Longrightarrow> h \<notin> dom (vB V) \<Longrightarrow> a = o_account (open_hashables b) \<Longrightarrow>
    signed E a (Open b) \<Longrightarrow> a \<noteq> burn_account \<Longrightarrow> vA V a = None \<Longrightarrow>
    vP V (Pending_key a (o_source (open_hashables b))) = Some p \<Longrightarrow>
    P = (vP V)(Pending_key a (o_source (open_hashables b)) := None) \<Longrightarrow>
    ledger_step E T V (Open b) (v_append T a h (Open b) h (pending_amount p) P V)"
| step_change: "h = block_hash E (Change b) \<Longrightarrow> h \<notin> dom (vB V) \<Longrightarrow> signed E a (Change b) \<Longrightarrow>
    vA V a = Some i \<Longrightarrow> head i = c_previous (change_hashables b) \<Longrightarrow> \<not> state_at (vB V) (head i) \<Longrightarrow>
    ledger_step E T V (Change b) (v_append T a h (Change b) h (balance i) (vP V) V)"
| step_state_send: "h = block_hash E (State b) \<Longrightarrow> h \<notin> dom (vB V) \<Longrightarrow> a = st_account (state_hashables b) \<Longrightarrow>
    signed E a (State b) \<Longrightarrow> vA V a = Some i \<Longrightarrow> head i = st_previous (state_hashables b) \<Longrightarrow>
    st_balance (state_hashables b) < balance i \<Longrightarrow>
    P = (vP V)(Pending_key (st_link (state_hashables b)) h \<mapsto>
          \<lparr>pending_source = a, pending_amount = balance i - st_balance (state_hashables b)\<rparr>) \<Longrightarrow>
    ledger_step E T V (State b) (v_append T a h (State b) h (st_balance (state_hashables b)) P V)"
| step_state_receive: "h = block_hash E (State b) \<Longrightarrow> h \<notin> dom (vB V) \<Longrightarrow> a = st_account (state_hashables b) \<Longrightarrow>
    signed E a (State b) \<Longrightarrow> vA V a = Some i \<Longrightarrow> head i = st_previous (state_hashables b) \<Longrightarrow>
    st_link (state_hashables b) \<noteq> 0 \<Longrightarrow> vP V (Pending_key a (st_link (state_hashables b))) = Some p \<Longrightarrow>
    balance i \<le> st_balance (state_hashables b) \<Longrightarrow>
    st_balance (state_hashables b) - balance i = pending_amount p \<Longrightarrow>
    P = (vP V)(Pending_key a (st_link (state_hashables b)) := None) \<Longrightarrow>
    ledger_step E T V (State b) (v_append T a h (State b) h (st_balance (state_hashables b)) P V)"
| step_state_change: "h = block_hash E (State b) \<Longrightarrow> h \<notin> dom (vB V) \<Longrightarrow> a = st_account (state_hashables b) \<Longrightarrow>
    signed E a (State b) \<Longrightarrow> vA V a = Some i \<Longrightarrow> head i = st_previous (state_hashables b) \<Longrightarrow>
    st_link (state_hashables b) = 0 \<Longrightarrow> st_balance (state_hashables b) = balance i \<Longrightarrow>
    ledger_step E T V (State b) (v_append T a h (State b) h (st_balance (state_hashables b)) (vP V) V)"
| step_state_open: "h = block_hash E (State b) \<Longrightarrow> h \<notin> dom (vB V) \<Longrightarrow> a = st_account (state_hashables b) \<Longrightarrow>
    signed E a (State b) \<Longrightarrow> a \<noteq> 0 \<Longrightarrow> vA V a = None \<Longrightarrow> st_previous (state_hashables b) = 0 \<Longrightarrow>
    st_link (state_hashables b) \<noteq> 0 \<Longrightarrow> vP V (Pending_key a (st_link (state_hashables b))) = Some p \<Longrightarrow>
    st_balance (state_hashables b) = pending_amount p \<Longrightarrow>
    P = (vP V)(Pending_key a (st_link (state_hashables b)) := None) \<Longrightarrow>
    ledger_step E T V (State b) (v_append T a h (State b) h (st_balance (state_hashables b)) P V)"

inductive_cases step_SendE: "ledger_step E T V (Send b) V'"
inductive_cases step_ReceiveE: "ledger_step E T V (Receive b) V'"
inductive_cases step_OpenE: "ledger_step E T V (Open b) V'"
inductive_cases step_ChangeE: "ledger_step E T V (Change b) V'"
inductive_cases step_StateE: "ledger_step E T V (State b) V'"

end
