(* ===== verification/Rai_Ledger_Inv.thy ===== *)
theory Rai_Ledger_Inv
  imports Rai_Ledger_Spec
begin

text \<open>
  The invariant of the ledger, over views, and its preservation by every step. Two ghosts make it
  readable: \<open>C a\<close> is the chain of account \<open>a\<close>, newest block first, and \<open>N h\<close> numbers the
  blocks in the order they were accepted.
\<close>

section \<open>The parts of the invariant\<close>

definition hashes_ok :: "rai_env \<Rightarrow> view \<Rightarrow> bool" where
  "hashes_ok E V \<longleftrightarrow> (\<forall>h b. vB V h = Some b \<longrightarrow> block_hash E b = h \<and> h \<notin> {0, 1, genesis_account E})"

text \<open>A chain is linked both ways: predecessors in the blocks, successors in the store.\<close>

definition position_ok :: "(u256 \<rightharpoonup> block) \<Rightarrow> block \<Rightarrow> u256 list \<Rightarrow> bool" where
  "position_ok B b xs \<longleftrightarrow>
     (case xs of [] \<Rightarrow> previous b = 0 \<and> type_of b \<in> {Bt_open, Bt_state}
      | p # _ \<Rightarrow> previous b = p \<and> type_of b \<noteq> Bt_open \<and> (state_at B p \<longrightarrow> is_state b))"

fun linked :: "(u256 \<rightharpoonup> block) \<Rightarrow> (u256 \<rightharpoonup> u256) \<Rightarrow> u256 \<Rightarrow> u256 list \<Rightarrow> bool" where
  "linked B S n [] = True"
| "linked B S n (h # xs) \<longleftrightarrow> S h = Some n \<and> (\<exists>b. B h = Some b \<and> position_ok B b xs) \<and> linked B S h xs"

definition owner_ok :: "u256 \<Rightarrow> block \<Rightarrow> bool" where
  "owner_ok a b \<longleftrightarrow> (case b of Open ob \<Rightarrow> o_account (open_hashables ob) = a
     | State tb \<Rightarrow> st_account (state_hashables tb) = a | _ \<Rightarrow> True)"

definition chains_ok :: "view \<Rightarrow> (u256 \<Rightarrow> u256 list) \<Rightarrow> bool" where
  "chains_ok V C \<longleftrightarrow>
     (\<forall>a. vA V a = None \<longleftrightarrow> C a = [])
     \<and> (\<forall>a i. vA V a = Some i \<longrightarrow> a \<noteq> 0 \<and> head i = hd (C a) \<and> open_block i = last (C a)
          \<and> block_count i = of_nat (length (C a)))
     \<and> (\<forall>a. distinct (C a)) \<and> (\<forall>a a' h. h \<in> set (C a) \<longrightarrow> h \<in> set (C a') \<longrightarrow> a = a')
     \<and> (\<forall>h. h \<in> dom (vB V) \<longleftrightarrow> (\<exists>a. h \<in> set (C a)))
     \<and> (\<forall>a. linked (vB V) (vS V) 0 (C a))
     \<and> (\<forall>a h b. h \<in> set (C a) \<longrightarrow> vB V h = Some b \<longrightarrow> owner_ok a b)"

definition frontiers_ok :: "view \<Rightarrow> bool" where
  "frontiers_ok V \<longleftrightarrow>
     (\<forall>h a. vF V h = Some a \<longleftrightarrow> (\<exists>i. vA V a = Some i \<and> head i = h \<and> \<not> state_at (vB V) h))"

text \<open>Every block has a balance; the account record agrees with its head block.\<close>

definition values_ok :: "u256 \<Rightarrow> view \<Rightarrow> bool" where
  "values_ok g V \<longleftrightarrow> (\<forall>h \<in> dom (vB V). \<exists>v. bal_of g (vB V) h v)
     \<and> (\<forall>a i. vA V a = Some i \<longrightarrow> bal_of g (vB V) (head i) (balance i) \<and> rep_of (vB V) (head i) (rep_block i))"

text \<open>Sends and receipts: which account a block sends to, which send a block receives.\<close>

definition state_sends :: "u256 \<Rightarrow> (u256 \<rightharpoonup> block) \<Rightarrow> state_block \<Rightarrow> bool" where
  "state_sends g B tb \<longleftrightarrow>
     (\<exists>v. bal_of g B (st_previous (state_hashables tb)) v \<and> st_balance (state_hashables tb) < v)"

definition sends_to :: "u256 \<Rightarrow> (u256 \<rightharpoonup> block) \<Rightarrow> block \<Rightarrow> u256 \<Rightarrow> bool" where
  "sends_to g B b d \<longleftrightarrow> (case b of
      Send sb \<Rightarrow> s_destination (send_hashables sb) = d
    | State tb \<Rightarrow> st_link (state_hashables tb) = d \<and> state_sends g B tb
    | _ \<Rightarrow> False)"

definition receives :: "u256 \<Rightarrow> (u256 \<rightharpoonup> block) \<Rightarrow> block \<Rightarrow> u256 \<Rightarrow> bool" where
  "receives g B b src \<longleftrightarrow> (case b of
      Receive rb \<Rightarrow> r_source (receive_hashables rb) = src
    | Open ob \<Rightarrow> o_source (open_hashables ob) = src \<and> src \<noteq> g
    | State tb \<Rightarrow> st_link (state_hashables tb) = src \<and> src \<noteq> 0 \<and> \<not> state_sends g B tb
    | _ \<Rightarrow> False)"

definition pending_ok :: "u256 \<Rightarrow> view \<Rightarrow> (u256 \<Rightarrow> u256 list) \<Rightarrow> bool" where
  "pending_ok g V C \<longleftrightarrow> (\<forall>d h p. vP V (Pending_key d h) = Some p \<longrightarrow>
     (\<exists>b. vB V h = Some b \<and> sends_to g (vB V) b d) \<and> amt_of g (vB V) h (pending_amount p)
     \<and> h \<in> set (C (pending_source p)))"

text \<open>
  A received send was addressed to the receiver and is no longer pending; no send is received
  twice; a send that is not pending was received by its destination.
\<close>

definition receipts_ok :: "u256 \<Rightarrow> view \<Rightarrow> (u256 \<Rightarrow> u256 list) \<Rightarrow> bool" where
  "receipts_ok g V C \<longleftrightarrow>
     (\<forall>a h b src. h \<in> set (C a) \<longrightarrow> vB V h = Some b \<longrightarrow> receives g (vB V) b src \<longrightarrow>
        (\<exists>sb. vB V src = Some sb \<and> sends_to g (vB V) sb a) \<and> vP V (Pending_key a src) = None)
     \<and> (\<forall>h h' b b' src. vB V h = Some b \<longrightarrow> vB V h' = Some b' \<longrightarrow> receives g (vB V) b src \<longrightarrow>
          receives g (vB V) b' src \<longrightarrow> h = h')
     \<and> (\<forall>h b d. vB V h = Some b \<longrightarrow> sends_to g (vB V) b d \<longrightarrow> vP V (Pending_key d h) = None \<longrightarrow>
          (\<exists>h' \<in> set (C d). \<exists>b'. vB V h' = Some b' \<and> receives g (vB V) b' h))"

definition order_ok :: "u256 \<Rightarrow> view \<Rightarrow> (u256 \<Rightarrow> nat) \<Rightarrow> bool" where
  "order_ok g V N \<longleftrightarrow> (\<forall>h b. vB V h = Some b \<longrightarrow> (previous b \<noteq> 0 \<longrightarrow> N (previous b) < N h)
     \<and> (\<forall>src. receives g (vB V) b src \<longrightarrow> N src < N h))"

text \<open>
  Every 32nd block of a chain, and no other, has a \<open>block_info\<close> unless it is a state block. An entry left over
  from a block no longer in the ledger belongs to a state block.
\<close>

definition infos_ok :: "rai_env \<Rightarrow> view \<Rightarrow> (u256 \<Rightarrow> u256 list) \<Rightarrow> bool" where
  "infos_ok E V C \<longleftrightarrow>
     (\<forall>h b i. vI V h = Some i \<longrightarrow> vB V h = Some b \<longrightarrow> \<not> is_state b \<longrightarrow>
        bal_of (genesis_account E) (vB V) h (info_balance i) \<and> h \<in> set (C (info_account i)))
     \<and> (\<forall>a xs h ys. C a = xs @ h # ys \<longrightarrow> \<not> state_at (vB V) h \<longrightarrow>
          (vI V h \<noteq> None \<longleftrightarrow> (of_nat (Suc (length ys)) :: u64) mod block_info_max = 0))
     \<and> (\<forall>h. h \<in> dom (vI V) \<longrightarrow> h \<notin> dom (vB V) \<longrightarrow> (\<exists>tb. block_hash E (State tb) = h))
     \<and> vI V 1 = None"

text \<open>The weight of a representative is the sum of the balances of the accounts that chose it.\<close>

definition delegated :: "view \<Rightarrow> u256 \<Rightarrow> u128" where
  "delegated V r = msum (\<lambda>i. if rep_account (vB V) (rep_block i) = r then balance i else 0) (vA V)"

definition weights_ok :: "view \<Rightarrow> bool" where
  "weights_ok V \<longleftrightarrow> (\<forall>r. vR V r = delegated V r)"

definition total_supply :: "view \<Rightarrow> nat" where
  "total_supply V = msum (\<lambda>i. unat (balance i)) (vA V) + msum (\<lambda>p. unat (pending_amount p)) (vP V)"

definition supply_ok :: "view \<Rightarrow> bool" where
  "supply_ok V \<longleftrightarrow> total_supply V = 2 ^ 128 - 1"

interpretation xor_sum: comm_monoid_set "(XOR) :: u256 \<Rightarrow> u256 \<Rightarrow> u256" 0
  by unfold_locales (simp_all add: ac_simps)

definition xor_heads :: "(u256 \<rightharpoonup> account_info) \<Rightarrow> u256" where
  "xor_heads A = xor_sum.F (\<lambda>a. head (the (A a))) (dom A)"

definition checksum_ok :: "view \<Rightarrow> bool" where
  "checksum_ok V \<longleftrightarrow> vK V = Some (xor_heads (vA V))"

definition is_genesis :: "u256 \<Rightarrow> block \<Rightarrow> bool" where
  "is_genesis g b \<longleftrightarrow> (case b of Open ob \<Rightarrow> o_source (open_hashables ob) = g | _ \<Rightarrow> False)"

text \<open>A send never raises the balance, a receipt raises it by the amount sent, any other block keeps it.\<close>

definition moves_ok :: "u256 \<Rightarrow> (u256 \<rightharpoonup> block) \<Rightarrow> bool" where
  "moves_ok g B \<longleftrightarrow> (\<forall>h b v w. B h = Some b \<longrightarrow> bal_of g B h v \<longrightarrow>
     (if previous b = 0 then w = 0 else bal_of g B (previous b) w) \<longrightarrow>
       ((\<exists>d. sends_to g B b d) \<longrightarrow> v \<le> w)
       \<and> (\<forall>src am. receives g B b src \<longrightarrow> amt_of g B src am \<longrightarrow> unat v = unat w + unat am)
       \<and> (\<not> is_genesis g b \<longrightarrow> (\<nexists>d. sends_to g B b d) \<longrightarrow> (\<nexists>src. receives g B b src) \<longrightarrow> v = w))"

definition finite_ok :: "view \<Rightarrow> bool" where
  "finite_ok V \<longleftrightarrow> finite (dom (vB V)) \<and> finite (dom (vA V)) \<and> finite (dom (vP V)) \<and> finite (dom (vI V))"

definition ledger_inv :: "rai_env \<Rightarrow> view \<Rightarrow> (u256 \<Rightarrow> u256 list) \<Rightarrow> (u256 \<Rightarrow> nat) \<Rightarrow> bool" where
  "ledger_inv E V C N \<longleftrightarrow> hashes_ok E V \<and> chains_ok V C \<and> frontiers_ok V \<and> values_ok (genesis_account E) V
     \<and> pending_ok (genesis_account E) V C \<and> receipts_ok (genesis_account E) V C
     \<and> order_ok (genesis_account E) V N \<and> infos_ok E V C \<and> weights_ok V \<and> supply_ok V \<and> checksum_ok V
     \<and> finite_ok V \<and> moves_ok (genesis_account E) (vB V)"

lemma ledger_invD:
  assumes "ledger_inv E V C N"
  shows "hashes_ok E V" "chains_ok V C" "frontiers_ok V" "values_ok (genesis_account E) V"
    "pending_ok (genesis_account E) V C" "receipts_ok (genesis_account E) V C"
    "order_ok (genesis_account E) V N" "infos_ok E V C" "weights_ok V" "supply_ok V" "checksum_ok V" "finite_ok V"
    "moves_ok (genesis_account E) (vB V)"
  using assms unfolding ledger_inv_def by blast+

section \<open>Putting a block on a chain\<close>

definition appendable :: "rai_env \<Rightarrow> view \<Rightarrow> (u256 \<Rightarrow> u256 list) \<Rightarrow> u256 \<Rightarrow> u256 \<Rightarrow> block \<Rightarrow> u256 \<Rightarrow> u128 \<Rightarrow> bool" where
  "appendable E V C a h b r v \<longleftrightarrow> h = block_hash E b \<and> h \<notin> dom (vB V) \<and> h \<notin> {0, 1, genesis_account E} \<and> a \<noteq> 0
     \<and> position_ok (vB V) b (C a) \<and> owner_ok a b
     \<and> bal_of (genesis_account E) ((vB V)(h \<mapsto> b)) h v \<and> rep_of ((vB V)(h \<mapsto> b)) h r"

lemma appendableD:
  assumes "appendable E V C a h b r v"
  shows "h = block_hash E b" "h \<notin> dom (vB V)" "vB V h = None" "h \<noteq> 0" "h \<noteq> 1" "h \<noteq> genesis_account E" "a \<noteq> 0"
    "position_ok (vB V) b (C a)" "owner_ok a b" "bal_of (genesis_account E) ((vB V)(h \<mapsto> b)) h v"
    "rep_of ((vB V)(h \<mapsto> b)) h r"
  using assms unfolding appendable_def by auto

lemma chains_okD:
  assumes "chains_ok V C"
  shows "vA V a = None \<longleftrightarrow> C a = []"
    "vA V a = Some i \<Longrightarrow> a \<noteq> 0" "vA V a = Some i \<Longrightarrow> head i = hd (C a)"
    "vA V a = Some i \<Longrightarrow> open_block i = last (C a)"
    "vA V a = Some i \<Longrightarrow> block_count i = of_nat (length (C a))"
    "vA V a = Some i \<Longrightarrow> C a \<noteq> []"
    "distinct (C a)" "h \<in> set (C a) \<Longrightarrow> h \<in> set (C a') \<Longrightarrow> a = a'"
    "h \<in> dom (vB V) \<longleftrightarrow> (\<exists>a. h \<in> set (C a))"
    "linked (vB V) (vS V) 0 (C a)"
    "h \<in> set (C a) \<Longrightarrow> vB V h = Some b \<Longrightarrow> owner_ok a b"
proof -
  show n: "vA V a = None \<longleftrightarrow> C a = []" for a using assms unfolding chains_ok_def by blast
  then show "vA V a = Some i \<Longrightarrow> C a \<noteq> []" by (metis option.distinct(1))
qed (use assms in \<open>unfold chains_ok_def, blast+\<close>)

lemma linked_frame:
  "linked B S n xs \<Longrightarrow> (\<And>x. x \<in> set xs \<Longrightarrow> B' x = B x \<and> S' x = S x) \<Longrightarrow> linked B' S' n xs"
proof (induction xs arbitrary: n)
  case (Cons h xs)
  have pos: "position_ok B' b xs = position_ok B b xs" for b
    using Cons.prems(2) by (auto simp: position_ok_def state_at_def split: list.splits)
  show ?case using Cons pos by auto
qed simp

lemma linked_retop:
  assumes "linked B S n (p # xs)" "p \<notin> set xs" "\<And>x. x \<in> set (p # xs) \<Longrightarrow> B' x = B x"
    "\<And>x. x \<in> set xs \<Longrightarrow> S' x = S x" "S' p = Some m"
  shows "linked B' S' m (p # xs)"
proof -
  have "linked B' S' p xs" using assms by (auto intro: linked_frame)
  moreover have "position_ok B' b xs = position_ok B b xs" for b
    using assms(3) by (auto simp: position_ok_def state_at_def split: list.splits)
  ultimately show ?thesis using assms by auto
qed

lemma linked_member: "linked B S n xs \<Longrightarrow> h \<in> set xs \<Longrightarrow> h \<in> dom B"
  by (induction xs arbitrary: n) auto

lemma appendable_fresh:
  assumes "chains_ok V C" "appendable E V C a h b r v"
  shows "h \<notin> set (C x)"
  using chains_okD(9)[OF assms(1), of h] appendableD(2)[OF assms(2)] by auto

lemma hashes_append:
  "hashes_ok E V \<Longrightarrow> appendable E V C a h b r v \<Longrightarrow> hashes_ok E (v_append T a h b r v P V)"
  using appendableD[of E V C a h b r v] by (auto simp: hashes_ok_def v_append_sel)

lemma new_info_sel:
  "head (new_info T V a h r v) = h" "rep_block (new_info T V a h r v) = r" "balance (new_info T V a h r v) = v"
  "open_block (new_info T V a h r v) = (case vA V a of Some i \<Rightarrow> open_block i | None \<Rightarrow> h)"
  "block_count (new_info T V a h r v) = (case vA V a of Some i \<Rightarrow> block_count i + 1 | None \<Rightarrow> 1)"
  by (auto simp: new_info_def split: option.splits)

lemma linked_append:
  assumes ch: "chains_ok V C" and hs: "hashes_ok E V" and app: "appendable E V C a h b r v"
  shows "linked (vB (v_append T a h b r v P V)) (vS (v_append T a h b r v P V)) 0 ((C(a := h # C a)) x)"
proof -
  let ?V = "v_append T a h b r v P V"
  note fresh = appendable_fresh[OF ch app] and D = appendableD[OF app]
  have prev0: "previous b \<noteq> 0" if "C a = p # ps" for p ps
  proof -
    have "p \<in> dom (vB V)" using chains_okD(9)[OF ch, of p] that by (metis list.set_intros(1))
    then have "p \<noteq> 0" using hs unfolding hashes_ok_def by auto
    then show ?thesis using D(8) that by (simp add: position_ok_def)
  qed
  have top: "linked (vB ?V) (vS ?V) h (C a)"
  proof (cases "C a")
    case (Cons p ps)
    have "p \<notin> set ps" using chains_okD(7)[OF ch, of a] Cons by simp
    moreover have "x \<noteq> h" if "x \<in> set (p # ps)" for x using fresh[of a] that Cons by auto
    moreover have "previous b = p" using D(8) Cons by (simp add: position_ok_def)
    ultimately show ?thesis
      using chains_okD(10)[OF ch, of a] prev0[OF Cons] unfolding Cons
      by - (rule linked_retop[where B = "vB V" and S = "vS V" and n = 0], auto simp: v_append_sel)
  qed simp
  have pos: "position_ok (vB ?V) b (C a)"
    using D(8) fresh[of a] by (auto simp: position_ok_def v_append_sel state_at_def split: list.splits)
  show ?thesis
  proof (cases "x = a")
    case True
    have "previous b \<noteq> h"
    proof (cases "C a")
      case Nil
      then show ?thesis using D(4,8) by (simp add: position_ok_def)
    next
      case (Cons p ps)
      then show ?thesis using D(8) fresh[of a] by (auto simp: position_ok_def)
    qed
    then show ?thesis using True top pos by (simp add: v_append_sel)
  next
    case False
    have "y \<noteq> h \<and> (previous b \<noteq> 0 \<longrightarrow> y \<noteq> previous b)" if "y \<in> set (C x)" for y
    proof (cases "C a")
      case Nil
      then show ?thesis using D(8) that fresh[of x] by (auto simp: position_ok_def)
    next
      case (Cons p ps)
      have "p \<in> set (C a)" using Cons by simp
      then have "y \<noteq> p" using that False chains_okD(8)[OF ch] by blast
      then show ?thesis using D(8) that fresh[of x] Cons by (auto simp: position_ok_def)
    qed
    then show ?thesis
      using False chains_okD(10)[OF ch, of x] by (auto intro!: linked_frame[of "vB V" "vS V" 0 "C x"] simp: v_append_sel)
  qed
qed

lemma chains_append:
  assumes ch: "chains_ok V C" and hs: "hashes_ok E V" and app: "appendable E V C a h b r v"
  shows "chains_ok (v_append T a h b r v P V) (C(a := h # C a))"
  unfolding chains_ok_def
proof (intro conjI allI impI)
  note fresh = appendable_fresh[OF ch app] and D = appendableD[OF app] and c = chains_okD[OF ch]
  let ?V = "v_append T a h b r v P V" and ?C = "C(a := h # C a)"
  show "(vA ?V x = None) = (?C x = [])" for x using c(1) by (simp add: v_append_sel)
  show "distinct (?C x)" for x using c(7) fresh by simp
  show "x \<in> dom (vB ?V) \<longleftrightarrow> (\<exists>y. x \<in> set (?C y))" for x using c(9)[of x] by (auto simp: v_append_sel)
  show "linked (vB ?V) (vS ?V) 0 (?C x)" for x by (rule linked_append[OF ch hs app])
  show "x = y" if "k \<in> set (?C x)" "k \<in> set (?C y)" for x y k
    using that c(8)[of k] fresh by (auto split: if_splits)
  show "owner_ok x bb" if "k \<in> set (?C x)" "vB ?V k = Some bb" for x k bb
    using that c(11)[of k x bb] D(9) fresh by (auto simp: v_append_sel split: if_splits)
  fix x i assume i: "vA ?V x = Some i"
  show "x \<noteq> 0" "head i = hd (?C x)" using i c(2,3) D(7) by (auto simp: v_append_sel new_info_sel split: if_splits)
  show "open_block i = last (?C x)"
    using i c(1,4,6) by (auto simp: v_append_sel new_info_sel split: if_splits option.splits)
  show "block_count i = of_nat (length (?C x))"
    using i c(1,5) by (auto simp: v_append_sel new_info_sel split: if_splits option.splits)
qed

lemma head_in_chain:
  assumes "chains_ok V C" "vA V a = Some i"
  shows "head i \<in> set (C a)" "head i \<in> dom (vB V)"
proof -
  show "head i \<in> set (C a)" using chains_okD(3,6)[OF assms] by simp
  then show "head i \<in> dom (vB V)" using chains_okD(9)[OF assms(1)] by blast
qed

lemma appendable_previous:
  assumes "appendable E V C a h b r v"
  shows "previous b = (if C a = [] then 0 else hd (C a))"
  using appendableD(8)[OF assms] by (simp add: position_ok_def split: list.splits)

lemma frontiers_append:
  assumes ch: "chains_ok V C" and hs: "hashes_ok E V" and fr: "frontiers_ok V" and app: "appendable E V C a h b r v"
  shows "frontiers_ok (v_append T a h b r v P V)"
  unfolding frontiers_ok_def
proof (intro allI)
  note D = appendableD[OF app] and prev = appendable_previous[OF app] and c = chains_okD[OF ch]
  let ?V = "v_append T a h b r v P V"
  have dom: "head i \<noteq> h" "head i \<noteq> 0" "head i \<in> set (C x)" if "vA V x = Some i" for x i
    using head_in_chain[OF ch that] D(2) hs unfolding hashes_ok_def by auto
  have F: "vF V k = Some x \<longleftrightarrow> (\<exists>i. vA V x = Some i \<and> head i = k \<and> \<not> state_at (vB V) k)" for k x
    using fr unfolding frontiers_ok_def by blast
  have Fh: "vF V h = None" using F[of h] dom(1) by (cases "vF V h") auto
  have prevh: "previous b \<noteq> h" using prev D(4) appendable_fresh[OF ch app, of a] by (auto split: if_splits)
  have other: "head i \<noteq> previous b" if "vA V x = Some i" "x \<noteq> a" for x i
    using prev dom[OF that(1)] that(2) c(8)[of "head i" x a] by (auto split: if_splits)
  have own: "head i = previous b" if "vA V a = Some i" for i
    using prev c(3,6)[OF that] by simp
  have st: "state_at ((vB V)(h \<mapsto> b)) k = (if k = h then is_state b else state_at (vB V) k)" for k
    by (simp add: state_at_def)
  fix k x
  show "vF ?V k = Some x \<longleftrightarrow> (\<exists>i. vA ?V x = Some i \<and> head i = k \<and> \<not> state_at (vB ?V) k)"
  proof (cases "k = h")
    case True
    then show ?thesis
      using Fh prevh dom(1) by (auto simp: v_append_sel st new_info_sel)
  next
    case False
    show ?thesis
    proof (cases "k = previous b")
      case True
      then show ?thesis using False other[of x] by (auto simp: v_append_sel st new_info_sel)
    next
      case F2: False
      show ?thesis
      proof (cases "x = a")
        case True
        then show ?thesis using False F2 own F[of k a] by (auto simp: v_append_sel st new_info_sel)
      next
        case F3: False
        then show ?thesis using False F2 F[of k x] by (auto simp: v_append_sel st new_info_sel)
      qed
    qed
  qed
qed

lemma values_append:
  assumes vl: "values_ok (genesis_account E) V" and app: "appendable E V C a h b r v"
  shows "values_ok (genesis_account E) (v_append T a h b r v P V)"
proof -
  note D = appendableD[OF app] and ext = walks_extend[OF appendableD(2)[OF app]]
  have "\<exists>w. bal_of (genesis_account E) ((vB V)(h \<mapsto> b)) k w" if "k \<in> dom ((vB V)(h \<mapsto> b))" for k
  proof (cases "k = h")
    case False
    then have "k \<in> dom (vB V)" using that by auto
    then obtain w where "bal_of (genesis_account E) (vB V) k w"
      using vl unfolding values_ok_def by blast
    then show ?thesis using ext(1) D(6) by blast
  qed (use D(10) in blast)
  moreover have "bal_of (genesis_account E) ((vB V)(h \<mapsto> b)) (head i) (balance i) \<and> rep_of ((vB V)(h \<mapsto> b)) (head i) (rep_block i)"
    if "vA V x = Some i" for x i
    using vl that ext(1,3) D(6) unfolding values_ok_def by blast
  ultimately show ?thesis
    unfolding values_ok_def v_append_sel using D(10,11) by (auto simp: new_info_sel split: if_splits)
qed

lemma weights_append:
  assumes w: "weights_ok V" and vl: "values_ok (genesis_account E) V" and fin: "finite_ok V"
    and app: "appendable E V C a h b r v"
  shows "weights_ok (v_append T a h b r v P V)"
  unfolding weights_ok_def
proof
  fix x
  let ?B = "(vB V)(h \<mapsto> b)" and ?i = "new_info T V a h r v"
  define f where "f = (\<lambda>i :: account_info. if rep_account ?B (rep_block i) = x then balance i else 0)"
  have "rep_account ?B (rep_block i) = rep_account (vB V) (rep_block i)" if "vA V y = Some i" for y i
  proof -
    have "rep_block i \<in> dom (vB V)" using vl that rep_of_dom unfolding values_ok_def by blast
    then show ?thesis using appendableD(2)[OF app] by (auto simp: rep_account_def)
  qed
  then have old: "msum f (vA V) = delegated V x" and
    fi: "vA V a = Some i \<Longrightarrow> f i = (if rep_account (vB V) (rep_block i) = x then balance i else 0)" for i
    unfolding delegated_def f_def by (auto intro!: msum_cong)
  have finA: "finite (dom (vA V))" using fin unfolding finite_ok_def by blast
  have R: "vR V y = delegated V y" for y using w unfolding weights_ok_def by blast
  have new: "f ?i = (if rep_account ?B r = x then v else 0)" by (simp add: f_def new_info_sel)
  have "delegated (v_append T a h b r v P V) x = msum f ((vA V)(a \<mapsto> ?i))"
    by (simp add: delegated_def f_def v_append_sel)
  also have "\<dots> = (case vA V a of None \<Rightarrow> delegated V x | Some i \<Rightarrow> delegated V x - f i) + f ?i"
  proof (cases "vA V a")
    case None
    then have "msum f ((vA V)(a \<mapsto> ?i)) = f ?i + msum f (vA V)" using finA by (intro msum_insert) auto
    then show ?thesis using None old by simp
  next
    case (Some i)
    then have "msum f ((vA V)(a \<mapsto> ?i)) + f i = msum f (vA V) + f ?i" using finA by (intro msum_replace)
    then have "msum f ((vA V)(a \<mapsto> ?i)) = msum f (vA V) + f ?i - f i" by (simp add: eq_diff_eq)
    then show ?thesis using Some old by simp
  qed
  also have "\<dots> = vR (v_append T a h b r v P V) x"
    using R new fi by (auto simp: v_append_sel weight_without_def split: option.splits)
  finally show "vR (v_append T a h b r v P V) x = delegated (v_append T a h b r v P V) x" ..
qed

lemma xor_heads_insert:
  assumes "finite (dom A)"
  shows "xor_heads (A(a \<mapsto> i)) = (case A a of Some j \<Rightarrow> xor_heads A XOR head j | None \<Rightarrow> xor_heads A) XOR head i"
proof -
  define R where "R = xor_sum.F (\<lambda>x. head (the (A x))) (dom A - {a})"
  have fin: "finite (dom A - {a})" using assms by simp
  have "xor_heads (A(a \<mapsto> i)) = xor_sum.F (\<lambda>x. head (the ((A(a \<mapsto> i)) x))) (insert a (dom A - {a}))"
    unfolding xor_heads_def by (rule arg_cong[where f = "xor_sum.F _"]) auto
  also have "\<dots> = head i XOR R"
    using fin unfolding R_def by (subst xor_sum.insert) (auto intro!: arg_cong2[where f = "(XOR)"] xor_sum.cong)
  finally have new: "xor_heads (A(a \<mapsto> i)) = head i XOR R" .
  show ?thesis
  proof (cases "A a")
    case None
    then have "dom A - {a} = dom A" by auto
    then have "xor_heads A = R" unfolding R_def xor_heads_def by simp
    then show ?thesis using new None by (simp add: xor.commute)
  next
    case (Some j)
    have "xor_heads A = head j XOR R"
      using assms Some unfolding xor_heads_def R_def by (subst xor_sum.remove[of _ a]) auto
    then show ?thesis using new Some by (simp add: ac_simps xor.left_commute)
  qed
qed

lemma checksum_append:
  "checksum_ok V \<Longrightarrow> finite_ok V \<Longrightarrow> checksum_ok (v_append T a h b r v P V)"
  by (auto simp: checksum_ok_def finite_ok_def v_append_sel xor_heads_insert new_info_sel split: option.splits)

lemma finite_append: "finite_ok V \<Longrightarrow> finite (dom P) \<Longrightarrow> finite_ok (v_append T a h b r v P V)"
  by (simp add: finite_ok_def v_append_sel)

text \<open>No state block hashes to the hash of a block of another kind.\<close>

definition no_state_collision :: "rai_env \<Rightarrow> block \<Rightarrow> bool" where
  "no_state_collision E b \<longleftrightarrow> is_state b \<or> (\<forall>tb. block_hash E (State tb) \<noteq> block_hash E b)"

lemma infos_okD:
  assumes "infos_ok E V C"
  shows "vI V h = Some i \<Longrightarrow> vB V h = Some b \<Longrightarrow> \<not> is_state b \<Longrightarrow>
      bal_of (genesis_account E) (vB V) h (info_balance i) \<and> h \<in> set (C (info_account i))"
    "C a = xs @ h # ys \<Longrightarrow> \<not> state_at (vB V) h \<Longrightarrow>
      vI V h \<noteq> None \<longleftrightarrow> (of_nat (Suc (length ys)) :: u64) mod block_info_max = 0"
    "h \<in> dom (vI V) \<Longrightarrow> h \<notin> dom (vB V) \<Longrightarrow> \<exists>tb. block_hash E (State tb) = h"
    "vI V 1 = None"
  using assms unfolding infos_ok_def by metis+

lemma infos_append:
  assumes ch: "chains_ok V C" and inf: "infos_ok E V C" and app: "appendable E V C a h b r v"
    and nc: "no_state_collision E b"
  shows "infos_ok E (v_append T a h b r v P V) (C(a := h # C a))"
proof -
  note D = appendableD[OF app] and c = chains_okD[OF ch] and fresh = appendable_fresh[OF ch app]
  let ?V = "v_append T a h b r v P V" and ?C = "C(a := h # C a)" and ?g = "genesis_account E"
  have left: "\<exists>tb. block_hash E (State tb) = k" if "k \<in> dom (vI V)" "k \<notin> dom (vB V)" for k
    using inf that unfolding infos_ok_def by blast
  have noI: "vI V h = None" if "\<not> is_state b"
    using left[of h] D(1,2) nc that unfolding no_state_collision_def by (cases "vI V h") auto
  have cnt: "block_count (new_info T V a h r v) = of_nat (Suc (length (C a)))"
    using c(1,5) by (auto simp: new_info_sel split: option.splits)
  have "bal_of ?g (vB ?V) k (info_balance i) \<and> k \<in> set (?C (info_account i))"
    if "vI ?V k = Some i" "vB ?V k = Some bb" "\<not> is_state bb" for k bb i
  proof (cases "k = h")
    case True
    then have "\<not> is_state b" using that by (simp add: v_append_sel)
    then show ?thesis using that True noI D(10) by (auto simp: v_append_sel split: if_splits)
  next
    case False
    then have "bal_of ?g (vB V) k (info_balance i)" "k \<in> set (C (info_account i))"
      using that inf unfolding infos_ok_def by (auto simp: v_append_sel split: if_splits)
    then show ?thesis using walks_extend(1)[OF D(2) D(6)] by (auto simp: v_append_sel)
  qed
  moreover have "vI ?V k \<noteq> None \<longleftrightarrow> (of_nat (Suc (length ys)) :: u64) mod block_info_max = 0"
    if split: "?C x = xs @ k # ys" and leg: "\<not> state_at (vB ?V) k" for x xs k ys
  proof (cases "x = a \<and> xs = []")
    case True
    then have "k = h" "ys = C a" using split by auto
    moreover have "\<not> is_state b" using leg \<open>k = h\<close> by (simp add: v_append_sel state_at_def)
    ultimately show ?thesis using cnt noI by (simp add: v_append_sel)
  next
    case False
    then obtain zs where zs: "C x = zs @ k # ys" using split by (cases xs) (auto split: if_splits)
    then have "k \<noteq> h" using fresh[of x] by auto
    then show ?thesis using infos_okD(2)[OF inf zs] leg by (simp add: v_append_sel state_at_def)
  qed
  moreover have "\<exists>tb. block_hash E (State tb) = k" if "k \<in> dom (vI ?V)" "k \<notin> dom (vB ?V)" for k
    using that left[of k] by (auto simp: v_append_sel split: if_splits)
  moreover have "vI ?V 1 = None" using inf D(5) by (auto simp: v_append_sel infos_ok_def)
  ultimately show ?thesis unfolding infos_ok_def by blast
qed

section \<open>Sends and receipts of a longer ledger\<close>

lemma linked_previous:
  "linked B S n xs \<Longrightarrow> h \<in> set xs \<Longrightarrow> B h = Some b \<Longrightarrow> previous b = 0 \<or> previous b \<in> set xs"
proof (induction xs arbitrary: n)
  case (Cons x xs)
  then show ?case by (cases xs) (auto simp: position_ok_def)
qed simp

lemma previous_closed:
  assumes "chains_ok V C" "vB V h = Some b"
  shows "previous b = 0 \<or> previous b \<in> dom (vB V)"
proof -
  obtain a where "h \<in> set (C a)" using chains_okD(9)[OF assms(1), of h] assms(2) by auto
  then show ?thesis
    using linked_previous[OF chains_okD(10)[OF assms(1)]] assms(2) chains_okD(9)[OF assms(1)] by blast
qed

lemma flows_extend:
  assumes ch: "chains_ok V C" and hs: "hashes_ok E V" and vl: "values_ok (genesis_account E) V"
    and k: "k \<notin> dom (vB V)" "k \<noteq> genesis_account E" "k \<noteq> 0" and b: "vB V h = Some b"
  shows "sends_to (genesis_account E) ((vB V)(k \<mapsto> bb)) b d = sends_to (genesis_account E) (vB V) b d"
    "receives (genesis_account E) ((vB V)(k \<mapsto> bb)) b src = receives (genesis_account E) (vB V) b src"
proof -
  let ?g = "genesis_account E"
  have "state_sends ?g ((vB V)(k \<mapsto> bb)) tb = state_sends ?g (vB V) tb" if "b = State tb" for tb
  proof (cases "st_previous (state_hashables tb) = 0")
    case True
    have "vB V 0 = None" using hs unfolding hashes_ok_def by (metis insertI1 not_None_eq)
    then show ?thesis using True k(3) by (simp add: state_sends_def bal_of_at)
  next
    case False
    then have "st_previous (state_hashables tb) \<in> dom (vB V)"
      using previous_closed[OF ch b] that by simp
    then obtain w where w: "bal_of ?g (vB V) (st_previous (state_hashables tb)) w"
      using vl unfolding values_ok_def by blast
    then have "bal_of ?g ((vB V)(k \<mapsto> bb)) (st_previous (state_hashables tb)) w"
      using walks_extend(1)[OF k(1,2)] by blast
    then show ?thesis using w bal_of_functional unfolding state_sends_def by metis
  qed
  then show "sends_to ?g ((vB V)(k \<mapsto> bb)) b d = sends_to ?g (vB V) b d"
    "receives ?g ((vB V)(k \<mapsto> bb)) b src = receives ?g (vB V) b src"
    by (cases b; simp add: sends_to_def receives_def)+
qed

lemma sends_to_functional: "sends_to g B b d \<Longrightarrow> sends_to g B b d' \<Longrightarrow> d = d'"
  by (cases b) (auto simp: sends_to_def)

lemma receives_functional: "receives g B b s \<Longrightarrow> receives g B b s' \<Longrightarrow> s = s'"
  by (cases b) (auto simp: receives_def)

lemma sends_not_receives: "sends_to g B b d \<Longrightarrow> \<not> receives g B b src"
  by (cases b) (auto simp: sends_to_def receives_def)

section \<open>How a new block moves money\<close>

definition old_balance :: "view \<Rightarrow> u256 \<Rightarrow> u128" where
  "old_balance V a = (case vA V a of Some i \<Rightarrow> balance i | None \<Rightarrow> 0)"

text \<open>A new block sends (a new pending entry), receives (an entry less) or does neither.\<close>

definition flow_ok :: "u256 \<Rightarrow> view \<Rightarrow> u256 \<Rightarrow> u256 \<Rightarrow> block \<Rightarrow> u128 \<Rightarrow> (pending_key \<rightharpoonup> pending_info) \<Rightarrow> bool" where
  "flow_ok g V a h b v P \<longleftrightarrow>
     (\<exists>d p. sends_to g ((vB V)(h \<mapsto> b)) b d \<and> amt_of g ((vB V)(h \<mapsto> b)) h (pending_amount p) \<and> pending_source p = a
        \<and> P = (vP V)(Pending_key d h \<mapsto> p) \<and> unat (old_balance V a) = unat v + unat (pending_amount p))
     \<or> (\<exists>src p. receives g ((vB V)(h \<mapsto> b)) b src \<and> vP V (Pending_key a src) = Some p
        \<and> P = (vP V)(Pending_key a src := None) \<and> unat v = unat (old_balance V a) + unat (pending_amount p))
     \<or> ((\<forall>d. \<not> sends_to g ((vB V)(h \<mapsto> b)) b d) \<and> (\<forall>src. \<not> receives g ((vB V)(h \<mapsto> b)) b src)
        \<and> P = vP V \<and> v = old_balance V a)"

lemma flow_okE:
  assumes "flow_ok g V a h b v P"
  obtains (send) d p where "sends_to g ((vB V)(h \<mapsto> b)) b d" "amt_of g ((vB V)(h \<mapsto> b)) h (pending_amount p)"
      "pending_source p = a" "P = (vP V)(Pending_key d h \<mapsto> p)" "unat (old_balance V a) = unat v + unat (pending_amount p)"
  | (receive) src p where "receives g ((vB V)(h \<mapsto> b)) b src" "vP V (Pending_key a src) = Some p"
      "P = (vP V)(Pending_key a src := None)" "unat v = unat (old_balance V a) + unat (pending_amount p)"
  | (none) "\<And>d. \<not> sends_to g ((vB V)(h \<mapsto> b)) b d" "\<And>src. \<not> receives g ((vB V)(h \<mapsto> b)) b src"
      "P = vP V" "v = old_balance V a"
  using assms unfolding flow_ok_def by blast

lemma pending_okD:
  assumes "pending_ok g V C" "vP V (Pending_key d h) = Some p"
  shows "\<exists>b. vB V h = Some b \<and> sends_to g (vB V) b d" "amt_of g (vB V) h (pending_amount p)"
    "h \<in> set (C (pending_source p))" "h \<in> dom (vB V)"
  using assms unfolding pending_ok_def by blast+

lemma no_pending_fresh: "pending_ok g V C \<Longrightarrow> h \<notin> dom (vB V) \<Longrightarrow> vP V (Pending_key d h) = None"
  using pending_okD(4) by (metis option.exhaust)

lemma flow_pending:
  assumes "flow_ok g V a h b v P" "P (Pending_key d k) = Some p"
  shows "vP V (Pending_key d k) = Some p \<or>
    (k = h \<and> sends_to g ((vB V)(h \<mapsto> b)) b d \<and> amt_of g ((vB V)(h \<mapsto> b)) h (pending_amount p) \<and> pending_source p = a)"
  using assms(1) by (cases rule: flow_okE) (use assms(2) in \<open>auto split: if_splits\<close>)

lemma pending_append:
  assumes ch: "chains_ok V C" and hs: "hashes_ok E V" and vl: "values_ok (genesis_account E) V"
    and pd: "pending_ok (genesis_account E) V C" and app: "appendable E V C a h b r v"
    and fl: "flow_ok (genesis_account E) V a h b v P"
  shows "pending_ok (genesis_account E) (v_append T a h b r v P V) (C(a := h # C a))"
  unfolding pending_ok_def v_append_sel
proof (intro allI impI)
  note D = appendableD[OF app]
  fix d k p
  assume "P (Pending_key d k) = Some p"
  from flow_pending[OF fl this] show "(\<exists>ba. ((vB V)(h \<mapsto> b)) k = Some ba \<and> sends_to (genesis_account E) ((vB V)(h \<mapsto> b)) ba d)
      \<and> amt_of (genesis_account E) ((vB V)(h \<mapsto> b)) k (pending_amount p)
      \<and> k \<in> set ((C(a := h # C a)) (pending_source p))"
  proof
    assume old: "vP V (Pending_key d k) = Some p"
    obtain ba where ba: "vB V k = Some ba" "sends_to (genesis_account E) (vB V) ba d"
      using pending_okD(1)[OF pd old] by blast
    have "k \<noteq> h" using ba(1) D(3) by auto
    then show ?thesis
      using ba pending_okD(2,3)[OF pd old] walks_extend(2)[OF D(2,6)]
        flows_extend(1)[OF ch hs vl D(2,6,4) ba(1), of b d] by auto
  qed auto
qed

lemma receipts_okD:
  assumes "receipts_ok g V C"
  shows "h \<in> set (C a) \<Longrightarrow> vB V h = Some b \<Longrightarrow> receives g (vB V) b src \<Longrightarrow>
      \<exists>sb. vB V src = Some sb \<and> sends_to g (vB V) sb a"
    "h \<in> set (C a) \<Longrightarrow> vB V h = Some b \<Longrightarrow> receives g (vB V) b src \<Longrightarrow> vP V (Pending_key a src) = None"
    "vB V h = Some b \<Longrightarrow> vB V h' = Some b' \<Longrightarrow> receives g (vB V) b src \<Longrightarrow> receives g (vB V) b' src \<Longrightarrow> h = h'"
    "vB V h = Some b \<Longrightarrow> sends_to g (vB V) b d \<Longrightarrow> vP V (Pending_key d h) = None \<Longrightarrow>
      \<exists>h' \<in> set (C d). \<exists>b'. vB V h' = Some b' \<and> receives g (vB V) b' h"
  using assms unfolding receipts_ok_def by metis+

text \<open>A pending send has not been received by any block.\<close>

lemma pending_unreceived:
  assumes ch: "chains_ok V C" and pd: "pending_ok g V C" and rc: "receipts_ok g V C"
    and p: "vP V (Pending_key a src) = Some p" and k: "vB V k = Some bk"
  shows "\<not> receives g (vB V) bk src"
proof
  assume r: "receives g (vB V) bk src"
  obtain x where x: "k \<in> set (C x)" using chains_okD(9)[OF ch, of k] k by auto
  obtain sb where sb: "vB V src = Some sb" "sends_to g (vB V) sb x" using receipts_okD(1)[OF rc x k r] by blast
  obtain sb' where "vB V src = Some sb'" "sends_to g (vB V) sb' a" using pending_okD(1)[OF pd p] by blast
  then have "x = a" using sb sends_to_functional by (metis option.inject)
  then show False using receipts_okD(2)[OF rc x k r] p by simp
qed

lemma receipts_append:
  assumes ch: "chains_ok V C" and hs: "hashes_ok E V" and vl: "values_ok (genesis_account E) V"
    and pd: "pending_ok (genesis_account E) V C" and rc: "receipts_ok (genesis_account E) V C"
    and app: "appendable E V C a h b r v" and fl: "flow_ok (genesis_account E) V a h b v P"
  shows "receipts_ok (genesis_account E) (v_append T a h b r v P V) (C(a := h # C a))"
proof -
  note D = appendableD[OF app] and fresh = appendable_fresh[OF ch app]
  let ?g = "genesis_account E" and ?B = "(vB V)(h \<mapsto> b)" and ?C = "C(a := h # C a)"
  note ext = flows_extend[OF ch hs vl D(2,6,4), where bb = b]
  have new_src: "\<exists>p. vP V (Pending_key a src) = Some p \<and> P = (vP V)(Pending_key a src := None)"
    if "receives ?g ?B b src" for src
    using fl by (cases rule: flow_okE) (use that sends_not_receives receives_functional in blast)+
  have new_dst: "P (Pending_key d h) \<noteq> None" if "sends_to ?g ?B b d" for d
    using fl by (cases rule: flow_okE) (use that sends_not_receives sends_to_functional in fastforce)+
  have src_old: "src \<in> dom (vB V) \<and> src \<noteq> h" if "vP V (Pending_key x src) = Some p" for x src p
    using pending_okD(4)[OF pd that] D(2) by auto
  have P_old: "P (Pending_key x k) = None" if "vP V (Pending_key x k) = None" "k \<noteq> h" for x k
    using flow_pending[OF fl, of x k] that by (cases "P (Pending_key x k)") auto
  have one: "(\<exists>sb. ?B src = Some sb \<and> sends_to ?g ?B sb x) \<and> P (Pending_key x src) = None"
    if "k \<in> set (?C x)" "?B k = Some bk" and rr: "receives ?g ?B bk src" for x k bk src
  proof (cases "k = h")
    case True
    then have x: "x = a" "bk = b" using that fresh[of x] by (auto split: if_splits)
    then obtain p where p: "vP V (Pending_key a src) = Some p" "P = (vP V)(Pending_key a src := None)"
      using new_src rr by blast
    obtain sb where sb: "vB V src = Some sb" "sends_to ?g (vB V) sb a" using pending_okD(1)[OF pd p(1)] by blast
    then show ?thesis using x p(2) src_old[OF p(1)] ext(1)[OF sb(1)] by simp
  next
    case False
    then have k: "k \<in> set (C x)" "vB V k = Some bk" using that by (auto split: if_splits)
    then have r: "receives ?g (vB V) bk src" using ext(2) rr by simp
    obtain sb where sb: "vB V src = Some sb" "sends_to ?g (vB V) sb x" using receipts_okD(1)[OF rc k r] by blast
    have "src \<noteq> h" using sb(1) D(3) by auto
    then show ?thesis using sb ext(1)[OF sb(1)] P_old receipts_okD(2)[OF rc k r] by simp
  qed
  have clash: False if "vB V k = Some bk" "receives ?g ?B bk src" and rr: "receives ?g ?B b src" for k bk src
  proof -
    obtain p where "vP V (Pending_key a src) = Some p" using new_src rr by blast
    then show False using pending_unreceived[OF ch pd rc _ that(1)] that(2) ext(2)[OF that(1)] by simp
  qed
  have two: "k = k'" if "?B k = Some bk" "?B k' = Some bk'" "receives ?g ?B bk src" "receives ?g ?B bk' src" for k k' bk bk' src
  proof (cases "k = h \<or> k' = h")
    case True
    then show ?thesis using that clash by (auto split: if_splits)
  next
    case False
    then show ?thesis using that receipts_okD(3)[OF rc, of k bk k' bk'] ext(2) by auto
  qed
  have three: "\<exists>h' \<in> set (?C d). \<exists>b'. ?B h' = Some b' \<and> receives ?g ?B b' k"
    if "?B k = Some bk" "sends_to ?g ?B bk d" "P (Pending_key d k) = None" for k bk d
  proof -
    have "k \<noteq> h" using that new_dst[of d] by auto
    then have k: "vB V k = Some bk" "sends_to ?g (vB V) bk d" using that ext(1) by auto
    show ?thesis
    proof (cases "vP V (Pending_key d k)")
      case None
      then obtain h' b' where "h' \<in> set (C d)" "vB V h' = Some b'" "receives ?g (vB V) b' k"
        using receipts_okD(4)[OF rc k] by blast
      moreover from this have "h' \<noteq> h" using D(3) by auto
      ultimately show ?thesis using ext(2) by (intro bexI[of _ h']) auto
    next
      case (Some p)
      from fl show ?thesis
      proof (cases rule: flow_okE)
        case (receive src p')
        then have "d = a" "src = k" using Some that(3) by (auto split: if_splits)
        then show ?thesis using receive(1) by (intro bexI[of _ h]) auto
      qed (use Some that(3) in \<open>auto split: if_splits\<close>)
    qed
  qed
  show ?thesis unfolding receipts_ok_def v_append_sel using one two three by blast
qed


lemma previous_old:
  assumes ch: "chains_ok V C" and app: "appendable E V C a h b r v" and "previous b \<noteq> 0"
  shows "previous b \<in> dom (vB V)"
  using appendable_previous[OF app] assms(3) chains_okD(9)[OF ch, of "previous b"] hd_in_set
  by (metis (full_types))

lemma order_append:
  assumes ch: "chains_ok V C" and hs: "hashes_ok E V" and vl: "values_ok (genesis_account E) V"
    and pd: "pending_ok (genesis_account E) V C" and od: "order_ok (genesis_account E) V N"
    and app: "appendable E V C a h b r v" and fl: "flow_ok (genesis_account E) V a h b v P"
    and rc: "receipts_ok (genesis_account E) V C"
    and m: "\<forall>x \<in> dom (vB V). N x < m"
  shows "order_ok (genesis_account E) (v_append T a h b r v P V) (N(h := m))"
proof -
  note D = appendableD[OF app]
  let ?g = "genesis_account E" and ?B = "(vB V)(h \<mapsto> b)"
  have new: "previous b \<noteq> 0 \<Longrightarrow> previous b \<in> dom (vB V)" by (rule previous_old[OF ch app])
  have src: "src \<in> dom (vB V)" if "receives ?g ?B b src" for src
  proof -
    have "\<exists>p. vP V (Pending_key a src) = Some p"
      using fl by (cases rule: flow_okE) (use that sends_not_receives receives_functional in blast)+
    then show ?thesis using pending_okD(4)[OF pd] by blast
  qed
  have old: "(previous bk \<noteq> 0 \<longrightarrow> N (previous bk) < N k) \<and> (\<forall>src. receives ?g ?B bk src \<longrightarrow> N src < N k)
      \<and> (previous bk \<noteq> 0 \<longrightarrow> previous bk \<noteq> h) \<and> (\<forall>src. receives ?g ?B bk src \<longrightarrow> src \<noteq> h)"
    if k: "vB V k = Some bk" for k bk
  proof -
    obtain x where x: "k \<in> set (C x)" using chains_okD(9)[OF ch, of k] k by auto
    have "src \<noteq> h" if "receives ?g (vB V) bk src" for src
      using receipts_okD(1)[OF rc x k that] D(3) by auto
    moreover have "previous bk \<noteq> 0 \<Longrightarrow> previous bk \<noteq> h" using previous_closed[OF ch k] D(2) by auto
    moreover have "receives ?g ?B bk src = receives ?g (vB V) bk src" for src
      by (rule flows_extend(2)[OF ch hs vl D(2,6,4) k])
    ultimately show ?thesis using od k unfolding order_ok_def by auto
  qed
  have "(previous bk \<noteq> 0 \<longrightarrow> (N(h := m)) (previous bk) < (N(h := m)) k)
      \<and> (\<forall>src. receives ?g ?B bk src \<longrightarrow> (N(h := m)) src < (N(h := m)) k)" if "?B k = Some bk" for k bk
  proof (cases "k = h")
    case True
    then have "bk = b" using that by simp
    moreover have "x \<noteq> h \<and> N x < m" if "x \<in> dom (vB V)" for x using that m D(2) by blast
    ultimately show ?thesis using True new src by auto
  next
    case False
    then have "vB V k = Some bk" using that by simp
    from old[OF this] False show ?thesis by auto
  qed
  then show ?thesis unfolding order_ok_def v_append_sel by blast
qed

lemma supply_append:
  assumes sp: "supply_ok V" and fin: "finite_ok V" and pd: "pending_ok g V C" and h: "h \<notin> dom (vB V)"
    and fl: "flow_ok g V a h b v P"
  shows "supply_ok (v_append T a h b r v P V)"
proof -
  let ?i = "new_info T V a h r v" and ?f = "\<lambda>i :: account_info. unat (balance i)"
    and ?p = "\<lambda>p :: pending_info. unat (pending_amount p)"
  have finA: "finite (dom (vA V))" and finP: "finite (dom (vP V))" using fin unfolding finite_ok_def by blast+
  have bal: "msum ?f ((vA V)(a \<mapsto> ?i)) + unat (old_balance V a) = msum ?f (vA V) + unat v"
  proof (cases "vA V a")
    case None
    then have "msum ?f ((vA V)(a \<mapsto> ?i)) = ?f ?i + msum ?f (vA V)" using finA by (intro msum_insert) auto
    then show ?thesis using None by (simp add: old_balance_def new_info_sel)
  next
    case (Some i)
    then have "msum ?f ((vA V)(a \<mapsto> ?i)) + ?f i = msum ?f (vA V) + ?f ?i" using finA by (intro msum_replace)
    then show ?thesis using Some by (simp add: old_balance_def new_info_sel)
  qed
  have "msum ?p P + unat v = msum ?p (vP V) + unat (old_balance V a)"
    using fl
  proof (cases rule: flow_okE)
    case (send d p)
    have "vP V (Pending_key d h) = None" by (rule no_pending_fresh[OF pd h])
    then have "msum ?p P = ?p p + msum ?p (vP V)" unfolding send(4) using finP by (intro msum_insert) auto
    then show ?thesis using send(5) by simp
  next
    case (receive src p)
    have "msum ?p (vP V) = ?p p + msum ?p P" unfolding receive(3) using finP receive(2) by (rule msum_remove)
    then show ?thesis using receive(4) by simp
  qed simp
  then show ?thesis using sp bal unfolding supply_ok_def total_supply_def v_append_sel by linarith
qed

text \<open>Putting an admissible block on a chain keeps the whole invariant.\<close>

lemma linked_first:
  "linked B S n xs \<Longrightarrow> h \<in> set xs \<Longrightarrow> B h = Some b \<Longrightarrow> type_of b \<notin> {Bt_open, Bt_state} \<Longrightarrow> previous b \<in> set xs"
proof (induction xs arbitrary: n)
  case (Cons x xs)
  then show ?case by (cases xs) (auto simp: position_ok_def)
qed simp

text \<open>Every send has an amount.\<close>

lemma sent_amount:
  assumes ch: "chains_ok V C" and hs: "hashes_ok E V" and vl: "values_ok (genesis_account E) V"
    and k: "vB V k = Some bk" and s: "sends_to (genesis_account E) (vB V) bk d"
  obtains am w where "amt_of (genesis_account E) (vB V) k am" "previous bk \<noteq> 0"
    "bal_of (genesis_account E) (vB V) (previous bk) w"
proof -
  let ?g = "genesis_account E"
  have nz: "x \<noteq> 0" if "x \<in> dom (vB V)" for x using that hs unfolding hashes_ok_def by auto
  have "previous bk \<in> dom (vB V)"
  proof (cases bk)
    case (Send sb)
    obtain a where "k \<in> set (C a)" using chains_okD(9)[OF ch, of k] k by auto
    then have "previous bk \<in> set (C a)" using linked_first[OF chains_okD(10)[OF ch] _ k] Send by simp
    then show ?thesis using chains_okD(9)[OF ch] by blast
  next
    case (State tb)
    then obtain w where "bal_of ?g (vB V) (previous bk) w" using s by (auto simp: sends_to_def state_sends_def)
    then show ?thesis by (rule bal_of_dom)
  qed (use s in \<open>simp_all add: sends_to_def\<close>)
  moreover from this obtain w where "bal_of ?g (vB V) (previous bk) w" using vl unfolding values_ok_def by blast
  moreover from this have "\<exists>am. amt_of ?g (vB V) k am"
    using s k nz[OF calculation(1)] by (cases bk) (auto simp: sends_to_def amt_of_at)
  ultimately show ?thesis using that nz by blast
qed

lemma moves_append:
  assumes ch: "chains_ok V C" and hs: "hashes_ok E V" and vl: "values_ok (genesis_account E) V"
    and pd: "pending_ok (genesis_account E) V C" and mv: "moves_ok (genesis_account E) (vB V)"
    and app: "appendable E V C a h b r v" and fl: "flow_ok (genesis_account E) V a h b v P"
    and src: "\<And>k bk x. vB V k = Some bk \<Longrightarrow> receives (genesis_account E) (vB V) bk x \<Longrightarrow>
      \<exists>sb d. vB V x = Some sb \<and> sends_to (genesis_account E) (vB V) sb d"
  shows "moves_ok (genesis_account E) ((vB V)(h \<mapsto> b))"
  unfolding moves_ok_def
proof (intro allI impI)
  fix k bk u w
  let ?g = "genesis_account E" and ?B = "(vB V)(h \<mapsto> b)"
  assume k: "?B k = Some bk" and u: "bal_of ?g ?B k u" and w: "if previous bk = 0 then w = 0 else bal_of ?g ?B (previous bk) w"
  note D = appendableD[OF app] and c = chains_okD[OF ch] and ext = walks_extend[OF appendableD(2)[OF app]]
  have old: "bal_of ?g (vB V) x y" if "bal_of ?g ?B x y" "x \<in> dom (vB V)" for x y
    using that vl ext(1) D(6) bal_of_functional unfolding values_ok_def by metis
  show "((\<exists>d. sends_to ?g ?B bk d) \<longrightarrow> u \<le> w)
      \<and> (\<forall>src am. receives ?g ?B bk src \<longrightarrow> amt_of ?g ?B src am \<longrightarrow> unat u = unat w + unat am)
      \<and> (\<not> is_genesis ?g bk \<longrightarrow> (\<nexists>d. sends_to ?g ?B bk d) \<longrightarrow> (\<nexists>src. receives ?g ?B bk src) \<longrightarrow> u = w)"
  proof (cases "k = h")
    case True
    then have b: "bk = b" "u = v" using k u D(10) bal_of_functional by auto
    have ww: "w = old_balance V a"
    proof (cases "vA V a")
      case None
      then show ?thesis using w b c(1)[of a] appendable_previous[OF app] by (simp add: old_balance_def)
    next
      case (Some i)
      then have "previous b = head i" using c(3,6) appendable_previous[OF app] by simp
      moreover have "head i \<noteq> 0" using head_in_chain(2)[OF ch Some] hs unfolding hashes_ok_def by auto
      moreover have "bal_of ?g ?B (head i) (balance i)" using vl Some ext(1) D(6) unfolding values_ok_def by blast
      ultimately show ?thesis using w b Some bal_of_functional by (auto simp: old_balance_def)
    qed
    from fl show ?thesis
    proof (cases rule: flow_okE)
      case (send d p)
      then show ?thesis unfolding b ww using sends_not_receives by (fastforce simp: word_le_nat_alt)
    next
      case (receive x p)
      have "amt_of ?g ?B x (pending_amount p)" using pending_okD(2)[OF pd receive(2)] ext(2) D(6) by blast
      then show ?thesis unfolding b ww using receive(1,4) sends_not_receives receives_functional amt_of_functional by metis
    next
      case none
      then show ?thesis unfolding b ww by simp
    qed
  next
    case False
    then have k': "vB V k = Some bk" using k by simp
    have fl: "sends_to ?g ?B bk d = sends_to ?g (vB V) bk d" "receives ?g ?B bk x = receives ?g (vB V) bk x" for d x
      using flows_extend[OF ch hs vl D(2,6,4) k'] by blast+
    have "bal_of ?g (vB V) k u" using old u k' by blast
    moreover have "if previous bk = 0 then w = 0 else bal_of ?g (vB V) (previous bk) w"
      using w old[of "previous bk" w] previous_closed[OF ch k'] by (simp split: if_splits)
    moreover have "amt_of ?g (vB V) x am" if rx: "receives ?g (vB V) bk x" "amt_of ?g ?B x am" for x am
    proof -
      obtain am' where "amt_of ?g (vB V) x am'" using src[OF k' rx(1)] sent_amount[OF ch hs vl] by blast
      then show ?thesis using rx ext(2) D(6) amt_of_functional by metis
    qed
    ultimately show ?thesis using mv k' unfolding moves_ok_def fl by meson
  qed
qed

theorem ledger_inv_append:
  assumes inv: "ledger_inv E V C N" and app: "appendable E V C a h b r v"
    and fl: "flow_ok (genesis_account E) V a h b v P" and nc: "no_state_collision E b"
  obtains N' where "ledger_inv E (v_append T a h b r v P V) (C(a := h # C a)) N'" "\<forall>x \<in> dom (vB V). N' x < N' h"
proof -
  note I = ledger_invD[OF inv]
  have "finite (N ` dom (vB V))" using I(12) unfolding finite_ok_def by blast
  then have above: "\<forall>x \<in> dom (vB V). N x < Suc (Max (N ` dom (vB V)))" by (auto simp: le_imp_less_Suc)
  have "\<exists>sb d. vB V x = Some sb \<and> sends_to (genesis_account E) (vB V) sb d"
    if "vB V k = Some bk" "receives (genesis_account E) (vB V) bk x" for k bk x
    using receipts_okD(1)[OF I(6) _ that] chains_okD(9)[OF I(2), of k] that(1) by blast
  note mv = moves_append[OF I(2,1,4,5,13) app fl this]
  note od = order_append[OF I(2,1,4,5,7) app fl I(6) above]
  have "finite (dom P)"
    using fl by (cases rule: flow_okE) (use I(12) in \<open>auto simp: finite_ok_def\<close>)
  then have "ledger_inv E (v_append T a h b r v P V) (C(a := h # C a)) (N(h := Suc (Max (N ` dom (vB V)))))"
    unfolding ledger_inv_def
    by (simp add: hashes_append[OF I(1) app] chains_append[OF I(2,1) app] frontiers_append[OF I(2,1,3) app]
        values_append[OF I(4) app] pending_append[OF I(2,1,4,5) app fl] receipts_append[OF I(2,1,4,5,6) app fl] od mv v_append_sel(1)
        infos_append[OF I(2,8) app nc] weights_append[OF I(9,4,12) app]
        supply_append[OF I(10,12,5) appendableD(2)[OF app] fl] checksum_append[OF I(11,12)] finite_append[OF I(12)]
        del: fun_upd_apply)
  moreover have "(N(h := m)) x < (N(h := m)) h" if "x \<in> dom (vB V)" "\<forall>x \<in> dom (vB V). N x < m" for x m
    using that appendableD(2)[OF app] by (metis fun_upd_apply)
  ultimately show ?thesis using above by (intro that) blast+
qed

end
