(* ===== verification/Rai_Ledger_Steps.thy ===== *)
theory Rai_Ledger_Steps
  imports Rai_Ledger_Inv
begin

text \<open>
  Every rule of the step relation keeps the ledger invariant: each step appends one block that fits
  on its account's chain (\<open>appendable\<close>) and moves the amount the block says (\<open>flow_ok\<close>).
\<close>


section \<open>Every step keeps the invariant\<close>

text \<open>
  The hypothesis on the hash function: the block's hash is none of the three reserved values
  0, 1 and the genesis account, and no state block has the hash of a block of another kind.
\<close>

definition hash_sane :: "rai_env \<Rightarrow> block \<Rightarrow> bool" where
  "hash_sane E b \<longleftrightarrow> block_hash E b \<notin> {0, 1, genesis_account E} \<and> no_state_collision E b"

lemma member_sum_bound:
  assumes "supply_ok V" "finite_ok V" "vA V a = Some i" "vP V k = Some p"
  shows "unat (balance i) + unat (pending_amount p) < 2 ^ 128"
proof -
  have "unat (balance i) \<le> msum (\<lambda>i. unat (balance i)) (vA V)"
    using assms(2,3) by (intro msum_member_le) (auto simp: finite_ok_def)
  moreover have "unat (pending_amount p) \<le> msum (\<lambda>p. unat (pending_amount p)) (vP V)"
    using assms(2,4) by (intro msum_member_le[where k = k]) (auto simp: finite_ok_def)
  ultimately have "unat (balance i) + unat (pending_amount p) \<le> 2 ^ 128 - 1"
    using assms(1) unfolding supply_ok_def total_supply_def by linarith
  then show ?thesis by (simp add: le_less_trans)
qed

lemma chain_of_account:
  assumes "chains_ok V C" "vA V a = Some i"
  obtains xs where "C a = head i # xs"
  using chains_okD(3,6)[OF assms] by (cases "C a") auto

lemma appendable_on_head:
  assumes inv: "ledger_inv E V C N" and sane: "hash_sane E b" and i: "vA V a = Some i"
    and h: "h = block_hash E b" "h \<notin> dom (vB V)" and prev: "previous b = head i"
    and pos: "type_of b \<noteq> Bt_open" "state_at (vB V) (head i) \<Longrightarrow> is_state b" and own: "owner_ok a b"
    and vals: "bal_of (genesis_account E) ((vB V)(h \<mapsto> b)) h v" "rep_of ((vB V)(h \<mapsto> b)) h r"
  shows "appendable E V C a h b r v"
proof -
  note ch = ledger_invD(2)[OF inv]
  obtain xs where "C a = head i # xs" by (rule chain_of_account[OF ch i])
  then have "position_ok (vB V) b (C a)" using prev pos by (simp add: position_ok_def)
  then show ?thesis
    using sane h own vals chains_okD(2)[OF ch i] unfolding appendable_def hash_sane_def by simp
qed

lemma appendable_first:
  assumes inv: "ledger_inv E V C N" and sane: "hash_sane E b" and i: "vA V a = None" "a \<noteq> 0"
    and h: "h = block_hash E b" "h \<notin> dom (vB V)" and prev: "previous b = 0"
    and pos: "type_of b \<in> {Bt_open, Bt_state}" and own: "owner_ok a b"
    and vals: "bal_of (genesis_account E) ((vB V)(h \<mapsto> b)) h v" "rep_of ((vB V)(h \<mapsto> b)) h r"
  shows "appendable E V C a h b r v"
proof -
  have "C a = []" using chains_okD(1)[OF ledger_invD(2)[OF inv], of a] i by simp
  then have "position_ok (vB V) b (C a)" using prev pos by (simp add: position_ok_def)
  then show ?thesis using sane h own vals i(2) unfolding appendable_def hash_sane_def by simp
qed

text \<open>What the invariant says of the head of an account, still true when a block is added.\<close>

lemma head_values:
  assumes inv: "ledger_inv E V C N" and i: "vA V a = Some i" and h: "h \<notin> dom (vB V)" "h \<noteq> genesis_account E"
  shows "bal_of (genesis_account E) ((vB V)(h \<mapsto> b)) (head i) (balance i)" "rep_of ((vB V)(h \<mapsto> b)) (head i) (rep_block i)"
    "state_at ((vB V)(h \<mapsto> b)) (head i) = state_at (vB V) (head i)" "head i \<noteq> 0" "head i \<noteq> h"
proof -
  note I = ledger_invD[OF inv]
  show "bal_of (genesis_account E) ((vB V)(h \<mapsto> b)) (head i) (balance i)" "rep_of ((vB V)(h \<mapsto> b)) (head i) (rep_block i)"
    using I(4) i walks_extend(1,3)[OF h(1)] h(2) unfolding values_ok_def by blast+
  have "head i \<in> dom (vB V)" by (rule head_in_chain(2)[OF I(2) i])
  then show "head i \<noteq> h" "head i \<noteq> 0" using h(1) I(1) unfolding hashes_ok_def by auto
  then show "state_at ((vB V)(h \<mapsto> b)) (head i) = state_at (vB V) (head i)" by (simp add: state_at_def)
qed

lemma pending_values:
  assumes inv: "ledger_inv E V C N" and p: "vP V (Pending_key a src) = Some p"
    and h: "h \<notin> dom (vB V)" "h \<noteq> genesis_account E"
  shows "amt_of (genesis_account E) ((vB V)(h \<mapsto> b)) src (pending_amount p)" "src \<noteq> genesis_account E" "src \<noteq> 0"
proof -
  note I = ledger_invD[OF inv]
  show "amt_of (genesis_account E) ((vB V)(h \<mapsto> b)) src (pending_amount p)"
    using pending_okD(2)[OF I(5) p] walks_extend(2)[OF h] by blast
  show "src \<noteq> genesis_account E" "src \<noteq> 0"
    using pending_okD(4)[OF I(5) p] I(1) unfolding hashes_ok_def by auto
qed

lemma unat_word_sub: "(x :: 'a::len word) \<le> y \<Longrightarrow> unat x + unat (y - x) = unat y"
  by (simp add: unat_sub word_le_nat_alt)

lemma flow_send:
  assumes "vA V a = Some i" "sends_to g ((vB V)(h \<mapsto> b)) b d"
    and "amt_of g ((vB V)(h \<mapsto> b)) h (balance i - v)" "v \<le> balance i"
    and "P = (vP V)(Pending_key d h \<mapsto> \<lparr>pending_source = a, pending_amount = balance i - v\<rparr>)"
  shows "flow_ok g V a h b v P"
  unfolding flow_ok_def
  by (intro disjI1 exI[of _ d] exI[of _ "\<lparr>pending_source = a, pending_amount = balance i - v\<rparr>"])
    (use assms in \<open>simp add: old_balance_def unat_word_sub\<close>)

lemma flow_receive:
  assumes "receives g ((vB V)(h \<mapsto> b)) b src" "vP V (Pending_key a src) = Some p"
    and "P = (vP V)(Pending_key a src := None)" "unat v = unat (old_balance V a) + unat (pending_amount p)"
  shows "flow_ok g V a h b v P"
  unfolding flow_ok_def using assms by blast

text \<open>Each rule of the step relation appends a block that fits and moves its amount.\<close>

definition appends :: "rai_env \<Rightarrow> rai_clock \<Rightarrow> view \<Rightarrow> (u256 \<Rightarrow> u256 list) \<Rightarrow> block \<Rightarrow> view \<Rightarrow> bool" where
  "appends E T V C b V' \<longleftrightarrow> (\<exists>a h r v P. V' = v_append T a h b r v P V \<and> appendable E V C a h b r v
     \<and> flow_ok (genesis_account E) V a h b v P)"

lemma appendsI:
  "appendable E V C a h b r v \<Longrightarrow> flow_ok (genesis_account E) V a h b v P \<Longrightarrow> appends E T V C b (v_append T a h b r v P V)"
  unfolding appends_def by blast

lemma send_appends:
  assumes inv: "ledger_inv E V C N" and sane: "hash_sane E (Send b)" and st: "ledger_step E T V (Send b) V'"
  shows "appends E T V C (Send b) V'"
  using st
proof (cases rule: ledger_step.cases)
  case (step_send h a i P)
  let ?B = "(vB V)(h \<mapsto> Send b)"
  have hg: "h \<noteq> genesis_account E" using sane step_send(2) by (simp add: hash_sane_def)
  note hv = head_values(1,2,3)[OF inv step_send(5) step_send(3) hg, where b = "Send b"]
  have at: "?B h = Some (Send b)" by simp
  have "rep_of ?B h (rep_block i)" using rep_send[where B = ?B, OF at] hv(2) step_send(6) by simp
  then have "appendable E V C a h (Send b) (rep_block i) (s_balance (send_hashables b))"
    using step_send
    by (intro appendable_on_head[OF inv sane step_send(5,2,3) _ _ _ _ bal_send[where B = ?B, OF at]])
      (simp_all add: owner_ok_def)
  moreover have "abs_diff (s_balance (send_hashables b)) (balance i) = balance i - s_balance (send_hashables b)"
    using step_send(8) by (auto simp: abs_diff_def)
  then have "amt_of (genesis_account E) ?B h (balance i - s_balance (send_hashables b))"
    using hv(1) step_send(6) amt_send[where g = "genesis_account E" and B = ?B, OF at] by metis
  then have "flow_ok (genesis_account E) V a h (Send b) (s_balance (send_hashables b)) P"
    using step_send by (intro flow_send[OF step_send(5)]) (simp_all add: sends_to_def)
  ultimately show ?thesis unfolding step_send(1) by (rule appendsI)
qed

lemma receive_appends:
  assumes inv: "ledger_inv E V C N" and sane: "hash_sane E (Receive b)" and st: "ledger_step E T V (Receive b) V'"
  shows "appends E T V C (Receive b) V'"
  using st
proof (cases rule: ledger_step.cases)
  case (step_receive h a i p P)
  let ?B = "(vB V)(h \<mapsto> Receive b)"
  have hg: "h \<noteq> genesis_account E" using sane step_receive(2) by (simp add: hash_sane_def)
  note hv = head_values(1,2,3)[OF inv step_receive(5) step_receive(3) hg, where b = "Receive b"]
    and pv = pending_values(1)[OF inv step_receive(8) step_receive(3) hg, where b = "Receive b"] pending_values(2,3)[OF inv step_receive(8) step_receive(3) hg]
  have at: "?B h = Some (Receive b)" by simp
  have "\<not> state_at ?B (r_previous (receive_hashables b))" using hv(3) step_receive(6,7) by simp
  then have "bal_of (genesis_account E) ?B h (balance i + pending_amount p)"
    using bal_receive[where g = "genesis_account E" and B = ?B, OF at pv(1)] hv(1) step_receive(6) by simp
  moreover have "rep_of ?B h (rep_block i)" using rep_receive[where B = ?B, OF at] hv(2) step_receive(6) by simp
  ultimately have "appendable E V C a h (Receive b) (rep_block i) (balance i + pending_amount p)"
    using step_receive by (intro appendable_on_head[OF inv sane step_receive(5,2,3)]) (simp_all add: owner_ok_def)
  moreover have "unat (balance i + pending_amount p) = unat (balance i) + unat (pending_amount p)"
    using member_sum_bound[OF ledger_invD(10,12)[OF inv] step_receive(5,8)] by (simp add: unat_word_ariths)
  then have "flow_ok (genesis_account E) V a h (Receive b) (balance i + pending_amount p) P"
    using step_receive by (intro flow_receive[OF _ step_receive(8)]) (simp_all add: receives_def old_balance_def)
  ultimately show ?thesis unfolding step_receive(1) by (rule appendsI)
qed

lemma open_appends:
  assumes inv: "ledger_inv E V C N" and sane: "hash_sane E (Open b)" and st: "ledger_step E T V (Open b) V'"
  shows "appends E T V C (Open b) V'"
  using st
proof (cases rule: ledger_step.cases)
  case (step_open h a p P)
  let ?B = "(vB V)(h \<mapsto> Open b)"
  have hg: "h \<noteq> genesis_account E" using sane step_open(2) by (simp add: hash_sane_def)
  note pv = pending_values(1)[OF inv step_open(8) step_open(3) hg, where b = "Open b"] pending_values(2,3)[OF inv step_open(8) step_open(3) hg]
  have at: "?B h = Some (Open b)" by simp
  have "appendable E V C a h (Open b) h (pending_amount p)"
    using step_open
    by (intro appendable_first[OF inv sane step_open(7) _ step_open(2,3) _ _ _
          bal_open[where B = ?B, OF at pv(1)] rep_open[where B = ?B, OF at]])
      (simp_all add: owner_ok_def burn_account_def)
  moreover have "flow_ok (genesis_account E) V a h (Open b) (pending_amount p) P"
    using step_open pv by (intro flow_receive[OF _ step_open(8)]) (simp_all add: receives_def old_balance_def)
  ultimately show ?thesis unfolding step_open(1) by (rule appendsI)
qed

lemma change_appends:
  assumes inv: "ledger_inv E V C N" and sane: "hash_sane E (Change b)" and st: "ledger_step E T V (Change b) V'"
  shows "appends E T V C (Change b) V'"
  using st
proof (cases rule: ledger_step.cases)
  case (step_change h a i)
  let ?B = "(vB V)(h \<mapsto> Change b)"
  have hg: "h \<noteq> genesis_account E" using sane step_change(2) by (simp add: hash_sane_def)
  note hv = head_values(1,2,3)[OF inv step_change(5) step_change(3) hg, where b = "Change b"]
  have at: "?B h = Some (Change b)" by simp
  have "bal_of (genesis_account E) ?B h (balance i)"
    using hv(1,3) step_change(6,7) by (intro bal_change[where B = ?B, OF at]) simp_all
  then have "appendable E V C a h (Change b) h (balance i)"
    using step_change
    by (intro appendable_on_head[OF inv sane step_change(5,2,3) _ _ _ _ _ rep_change[where B = ?B, OF at]])
      (simp_all add: owner_ok_def)
  moreover have "flow_ok (genesis_account E) V a h (Change b) (balance i) (vP V)"
    using step_change by (simp add: flow_ok_def sends_to_def receives_def old_balance_def)
  ultimately show ?thesis unfolding step_change(1) by (rule appendsI)
qed

lemma state_appendable:
  assumes inv: "ledger_inv E V C N" and sane: "hash_sane E (State b)" and i: "vA V a = Some i"
    and h: "h = block_hash E (State b)" "h \<notin> dom (vB V)"
    and "a = st_account (state_hashables b)" "head i = st_previous (state_hashables b)"
  shows "appendable E V C a h (State b) h (st_balance (state_hashables b))"
proof -
  have at: "((vB V)(h \<mapsto> State b)) h = Some (State b)" by simp
  show ?thesis
    by (rule appendable_on_head[OF inv sane i h _ _ _ _ bal_state[where B = "(vB V)(h \<mapsto> State b)", OF at]
          rep_state[where B = "(vB V)(h \<mapsto> State b)", OF at]])
      (use assms in \<open>simp_all add: owner_ok_def is_state_def\<close>)
qed

lemma state_sends_on_head:
  assumes inv: "ledger_inv E V C N" and sane: "hash_sane E (State b)" and i: "vA V a = Some i"
    and h: "h = block_hash E (State b)" "h \<notin> dom (vB V)" and prev: "head i = st_previous (state_hashables b)"
  shows "state_sends (genesis_account E) ((vB V)(h \<mapsto> State b)) b \<longleftrightarrow> st_balance (state_hashables b) < balance i"
proof -
  have "h \<noteq> genesis_account E" using sane h(1) by (simp add: hash_sane_def)
  note hv = head_values(1)[OF inv i h(2) this, where b = "State b", unfolded prev]
  show ?thesis unfolding state_sends_def using hv bal_of_functional[OF hv] by blast
qed

lemma state_appends_on_head:
  assumes inv: "ledger_inv E V C N" and sane: "hash_sane E (State b)" and i: "vA V a = Some i"
    and h: "h = block_hash E (State b)" "h \<notin> dom (vB V)" and a: "a = st_account (state_hashables b)"
    and prev: "head i = st_previous (state_hashables b)"
    and fl: "flow_ok (genesis_account E) V a h (State b) (st_balance (state_hashables b)) P"
  shows "appends E T V C (State b) (v_append T a h (State b) h (st_balance (state_hashables b)) P V)"
  by (rule appendsI[OF state_appendable[OF inv sane i h a prev] fl])

lemma state_appends:
  assumes inv: "ledger_inv E V C N" and sane: "hash_sane E (State b)" and st: "ledger_step E T V (State b) V'"
  shows "appends E T V C (State b) V'"
  using st
proof (cases rule: ledger_step.cases)
  case (step_state_send h a i P)
  let ?B = "(vB V)(h \<mapsto> State b)"
  have hg: "h \<noteq> genesis_account E" using sane step_state_send(2) by (simp add: hash_sane_def)
  have at: "?B h = Some (State b)" by simp
  note hv = head_values(1)[OF inv step_state_send(6,3) hg, where b = "State b", unfolded step_state_send(7)]
    head_values(4)[OF inv step_state_send(6,3) hg, unfolded step_state_send(7)]
  have "abs_diff (st_balance (state_hashables b)) (balance i) = balance i - st_balance (state_hashables b)"
    using step_state_send(8) by (simp add: abs_diff_def)
  then have "amt_of (genesis_account E) ?B h (balance i - st_balance (state_hashables b))"
    using amt_state[where g = "genesis_account E" and B = ?B, OF at] hv by metis
  then have "flow_ok (genesis_account E) V a h (State b) (st_balance (state_hashables b)) P"
    using step_state_send(8,9) state_sends_on_head[OF inv sane step_state_send(6,2,3,7)]
    by (intro flow_send[OF step_state_send(6)]) (simp_all add: sends_to_def)
  then show ?thesis unfolding step_state_send(1)
    by (rule state_appends_on_head[OF inv sane step_state_send(6,2,3,4,7)])
next
  case (step_state_receive h a i p P)
  have "unat (balance i) + unat (pending_amount p) = unat (st_balance (state_hashables b))"
    using step_state_receive(10,11) unat_word_sub by metis
  then have "flow_ok (genesis_account E) V a h (State b) (st_balance (state_hashables b)) P"
    using step_state_receive(6,8,9,10,12) state_sends_on_head[OF inv sane step_state_receive(6,2,3,7)]
    by (intro flow_receive[OF _ step_state_receive(9)]) (simp_all add: receives_def old_balance_def not_less)
  then show ?thesis unfolding step_state_receive(1)
    by (rule state_appends_on_head[OF inv sane step_state_receive(6,2,3,4,7)])
next
  case (step_state_change h a i)
  have "flow_ok (genesis_account E) V a h (State b) (st_balance (state_hashables b)) (vP V)"
    using step_state_change(6,8,9) state_sends_on_head[OF inv sane step_state_change(6,2,3,7)]
    by (simp add: flow_ok_def sends_to_def receives_def old_balance_def)
  then show ?thesis unfolding step_state_change(1)
    by (rule state_appends_on_head[OF inv sane step_state_change(6,2,3,4,7)])
next
  case (step_state_open h a p P)
  let ?B = "(vB V)(h \<mapsto> State b)"
  have at: "?B h = Some (State b)" by simp
  have "0 \<notin> dom ?B" using sane step_state_open(2) ledger_invD(1)[OF inv] by (auto simp: hash_sane_def hashes_ok_def)
  then have "\<not> state_sends (genesis_account E) ?B b"
    unfolding state_sends_def step_state_open(8) using bal_of_dom by blast
  then have "flow_ok (genesis_account E) V a h (State b) (st_balance (state_hashables b)) P"
    using step_state_open by (intro flow_receive[OF _ step_state_open(10)]) (simp_all add: receives_def old_balance_def)
  moreover have "appendable E V C a h (State b) h (st_balance (state_hashables b))"
    using step_state_open
    by (intro appendable_first[OF inv sane step_state_open(7,6,2,3) _ _ _
          bal_state[where B = ?B, OF at] rep_state[where B = ?B, OF at]]) (simp_all add: owner_ok_def)
  ultimately show ?thesis unfolding step_state_open(1) by (intro appendsI)
qed

lemmas step_appends = send_appends receive_appends open_appends change_appends state_appends

text \<open>The accepted block becomes the newest one.\<close>

lemma ledger_step_newest:
  assumes inv: "ledger_inv E V C N" and st: "ledger_step E T V b V'" and sane: "hash_sane E b"
  obtains C' N' where "ledger_inv E V' C' N'" "\<forall>x \<in> dom (vB V). N' x < N' (block_hash E b)"
    "block_hash E b \<notin> dom (vB V)" "vB V' = (vB V)(block_hash E b \<mapsto> b)"
proof -
  have "appends E T V C b V'" using sane st by (cases b) (auto intro: step_appends[OF inv])
  then obtain a h r v P where V': "V' = v_append T a h b r v P V" and app: "appendable E V C a h b r v"
    and fl: "flow_ok (genesis_account E) V a h b v P" unfolding appends_def by blast
  have h: "h = block_hash E b" "h \<notin> dom (vB V)" using app unfolding appendable_def by auto
  have nc: "no_state_collision E b" using sane by (simp add: hash_sane_def)
  obtain N' where "ledger_inv E V' (C(a := h # C a)) N'" "\<forall>x \<in> dom (vB V). N' x < N' h"
    by (rule ledger_inv_append[OF inv app fl nc, of T, folded V'])
  then show ?thesis using that h by (simp add: V' v_append_sel)
qed

theorem ledger_step_inv:
  assumes "ledger_inv E V C N" "ledger_step E T V b V'" "hash_sane E b"
  shows "\<exists>C' N'. ledger_inv E V' C' N'"
  using ledger_step_newest[OF assms] by metis

end
