(* ===== verification/Rai_Ledger_Refine.thy ===== *)
theory Rai_Ledger_Refine
  imports Rai_Ledger_Steps
begin

text \<open>
  The handlers of \<open>Rai_Ledger\<close> implement the step relation of \<open>Rai_Ledger_Spec\<close>: on a store that
  satisfies the invariant, processing a block never aborts, says progress exactly when the relation
  has a step for the block and then leaves the store whose view the step describes, and leaves the
  store as it is otherwise.
\<close>


section \<open>The operations on the store, as equations\<close>

lemmas table_defs = account_get_def account_put_def frontier_get_def frontier_put_def pending_get_def pending_put_def
  block_info_get_def block_info_put_def

lemma frontier_del_eq: "frontiers s h \<noteq> None \<Longrightarrow> frontier_del s h = Some (s\<lparr>frontiers := (frontiers s)(h := None)\<rparr>)"
  by (simp add: frontier_del_def)

lemma pending_del_eq: "pending s k \<noteq> None \<Longrightarrow> pending_del s k = Some (s\<lparr>pending := (pending s)(k := None)\<rparr>)"
  by (simp add: pending_del_def)

lemma block_info_del_eq:
  "blocks_info s h \<noteq> None \<Longrightarrow> block_info_del s h = Some (s\<lparr>blocks_info := (blocks_info s)(h := None)\<rparr>)"
  by (simp add: block_info_del_def)

lemma checksum_update_eq:
  "checksum s 0 = Some k \<Longrightarrow> ledger_checksum_update s h = Some (s\<lparr>checksum := (checksum s)(0 \<mapsto> k XOR h)\<rparr>)"
  by (simp add: ledger_checksum_update_def checksum_get_def checksum_put_def checksum_key_def uint256_xor_eq)

text \<open>\<open>representation_add\<close> changes one weight, that of the representative the block names.\<close>

definition weight_add :: "u256 \<Rightarrow> u128 \<Rightarrow> block_store \<Rightarrow> block_store" where
  "weight_add ra x s = s\<lparr>representation := (representation s)(ra \<mapsto> representation_get s ra + x)\<rparr>"

lemma representation_add_eq:
  assumes "dbs_wf (dbs s)" "src \<in> dom (blk (dbs s))"
  shows "representation_add s src x = Some (weight_add (rep_account (blk (dbs s)) src) x s)"
  using assms
  by (auto simp: representation_add_def block_get_blk weight_add_def rep_account_def representation_put_def Let_def)

lemma weight_add_sel [simp]:
  "dbs (weight_add ra x s) = dbs s" "accounts (weight_add ra x s) = accounts s"
  "frontiers (weight_add ra x s) = frontiers s" "pending (weight_add ra x s) = pending s"
  "blocks_info (weight_add ra x s) = blocks_info s" "checksum (weight_add ra x s) = checksum s"
  "representation_get (weight_add ra x s) = (representation_get s)(ra := representation_get s ra + x)"
  by (auto simp: weight_add_def representation_get_def)

lemma representation_get_frame [simp]:
  "representation_get (s\<lparr>dbs := d\<rparr>) = representation_get s"
  "representation_get (s\<lparr>accounts := A\<rparr>) = representation_get s"
  "representation_get (s\<lparr>frontiers := F\<rparr>) = representation_get s"
  "representation_get (s\<lparr>pending := P\<rparr>) = representation_get s"
  "representation_get (s\<lparr>blocks_info := I\<rparr>) = representation_get s"
  "representation_get (s\<lparr>checksum := K\<rparr>) = representation_get s"
  by (auto simp: representation_get_def)

text \<open>\<open>change_latest\<close> on an account, on a new account, and with a zero hash.\<close>

definition latest_set :: "u256 \<Rightarrow> u256 \<Rightarrow> account_info \<Rightarrow> bool \<Rightarrow> u256 \<Rightarrow> block_store \<Rightarrow> block_store" where
  "latest_set a h i st k s = s\<lparr>accounts := (accounts s)(a \<mapsto> i),
     blocks_info := (if block_count i mod block_info_max = 0 \<and> \<not> st
       then (blocks_info s)(h \<mapsto> \<lparr>info_account = a, info_balance = balance i\<rparr>) else blocks_info s),
     checksum := (checksum s)(0 \<mapsto> k)\<rparr>"

lemma latest_set_sel [simp]:
  "dbs (latest_set a h i st k s) = dbs s" "accounts (latest_set a h i st k s) = (accounts s)(a \<mapsto> i)"
  "frontiers (latest_set a h i st k s) = frontiers s" "pending (latest_set a h i st k s) = pending s"
  "blocks_info (latest_set a h i st k s) = (if block_count i mod block_info_max = 0 \<and> \<not> st
       then (blocks_info s)(h \<mapsto> \<lparr>info_account = a, info_balance = balance i\<rparr>) else blocks_info s)"
  "checksum (latest_set a h i st k s) = (checksum s)(0 \<mapsto> k)"
  "representation_get (latest_set a h i st k s) = representation_get s"
  by (simp_all add: latest_set_def)

lemma change_latest_eq:
  assumes "accounts s a = Some i" "checksum s 0 = Some k" "h \<noteq> 0"
  shows "change_latest T s a h r v n st = Some (latest_set a h
    (i\<lparr>head := h, rep_block := r, balance := v, modified := seconds_since_epoch T, block_count := n\<rparr>) st
    ((k XOR head i) XOR h) s)"
  using assms
  by (simp add: change_latest_def table_defs checksum_update_eq latest_set_def Let_def)

lemma change_latest_new:
  assumes "accounts s a = None" "checksum s 0 = Some k" "h \<noteq> 0" "dbs_wf (dbs s)" "blk (dbs s) h = Some b" "previous b = 0"
  shows "change_latest T s a h r v n st = Some (latest_set a h
    \<lparr>head = h, rep_block = r, open_block = h, balance = v, modified = seconds_since_epoch T, block_count = n\<rparr> st
    (k XOR h) s)"
  using assms
  by (simp add: change_latest_def table_defs checksum_update_eq latest_set_def Let_def block_get_blk account_info_zero_def)

lemma change_latest_zero:
  assumes "accounts s a = Some i" "checksum s 0 = Some k"
  shows "change_latest T s a 0 r v n st = Some (s\<lparr>accounts := (accounts s)(a := None), checksum := (checksum s)(0 \<mapsto> k XOR head i)\<rparr>)"
  using assms by (simp add: change_latest_def table_defs checksum_update_eq account_del_def)

lemma valid_predecessor_iff:
  "type_of b \<notin> {Bt_open, Bt_state} \<Longrightarrow> valid_predecessor b p \<longleftrightarrow> \<not> is_state p"
  by (cases b; cases p) simp_all

section \<open>Stores the ledger works on\<close>

definition store_ok :: "rai_env \<Rightarrow> block_store \<Rightarrow> bool" where
  "store_ok E s \<longleftrightarrow> dbs_wf (dbs s) \<and> (\<exists>C N. ledger_inv E (view_of s) C N)"

lemma inv_walkable:
  assumes "dbs_wf (dbs s)" "ledger_inv E (view_of s) C N"
  shows "walkable E s"
  using assms(1) ledger_invD(1)[OF assms(2)] infos_okD(1)[OF ledger_invD(8)[OF assms(2)]]
  unfolding walkable_def hashes_ok_def by (auto simp: domIff intro: ccontr)

text \<open>
  What a handler promises: it returns, keeps the tables well formed, and either makes the step the
  specification allows and says progress, or changes nothing because no step is possible.
\<close>

definition implements :: "rai_env \<Rightarrow> rai_clock \<Rightarrow> ledger \<Rightarrow> block \<Rightarrow> (process_return \<times> ledger) option \<Rightarrow> bool" where
  "implements E T L b res \<longleftrightarrow> (\<exists>ret L'. res = Some (ret, L') \<and> dbs_wf (dbs (store L')) \<and>
     (if ret_code ret = Progress then ledger_step E T (view_of (store L)) b (view_of (store L'))
      else store L' = store L \<and> (\<nexists>V'. ledger_step E T (view_of (store L)) b V')))"

lemma implements_error:
  "ret_code ret \<noteq> Progress \<Longrightarrow> dbs_wf (dbs (store L)) \<Longrightarrow> store L' = store L \<Longrightarrow> (\<And>V'. \<not> ledger_step E T (view_of (store L)) b V') \<Longrightarrow>
   implements E T L b (Some (ret, L'))"
  by (auto simp: implements_def)

lemma implements_progress:
  "ret_code ret = Progress \<Longrightarrow> dbs_wf (dbs (store L')) \<Longrightarrow> ledger_step E T (view_of (store L)) b V' \<Longrightarrow> view_of (store L') = V' \<Longrightarrow>
   implements E T L b (Some (ret, L'))"
  by (auto simp: implements_def)

section \<open>Facts the handlers rely on\<close>

lemma frontier_account:
  assumes "ledger_inv E (view_of s) C N" "frontier_get s p \<noteq> 0"
  obtains i where "frontiers s p = Some (frontier_get s p)" "accounts s (frontier_get s p) = Some i" "head i = p"
    "\<not> state_at (blk (dbs s)) p"
proof -
  obtain a where a: "frontiers s p = Some a" "frontier_get s p = a"
    using assms(2) by (auto simp: frontier_get_def split: option.splits)
  then show ?thesis using ledger_invD(3)[OF assms(1)] that unfolding frontiers_ok_def by auto
qed

lemma head_frontier:
  assumes inv: "ledger_inv E (view_of s) C N" and i: "accounts s a = Some i" and "\<not> state_at (blk (dbs s)) (head i)"
  shows "frontiers s (head i) = Some a" "frontier_get s (head i) = a" "a \<noteq> 0"
proof -
  show f: "frontiers s (head i) = Some a"
    using ledger_invD(3)[OF inv] assms(2,3) unfolding frontiers_ok_def by auto
  then show "frontier_get s (head i) = a" by (simp add: frontier_get_def)
  show "a \<noteq> 0" using chains_okD(2)[OF ledger_invD(2)[OF inv]] i by simp
qed

lemma account_blocks:
  assumes inv: "ledger_inv E (view_of s) C N" and i: "accounts s a = Some i"
  shows "head i \<in> dom (blk (dbs s))" "rep_block i \<in> dom (blk (dbs s))" "head i \<noteq> 0" "rep_block i \<noteq> 0" "a \<noteq> 0"
    "bal_of (genesis_account E) (blk (dbs s)) (head i) (balance i)"
    "rep_of (blk (dbs s)) (head i) (rep_block i)"
proof -
  note I = ledger_invD[OF inv]
  show "bal_of (genesis_account E) (blk (dbs s)) (head i) (balance i)" and r: "rep_of (blk (dbs s)) (head i) (rep_block i)"
    using I(4) i unfolding values_ok_def by simp_all
  show h: "head i \<in> dom (blk (dbs s))" using head_in_chain(2)[OF I(2)] i by simp
  show "rep_block i \<in> dom (blk (dbs s))" using rep_of_dom[OF r] by blast
  with h show "head i \<noteq> 0" "rep_block i \<noteq> 0" using I(1) unfolding hashes_ok_def by auto
  show "a \<noteq> 0" using chains_okD(2)[OF I(2)] i by simp
qed

lemma checksum_some: "ledger_inv E (view_of s) C N \<Longrightarrow> \<exists>k. checksum s 0 = Some k"
  using ledger_invD(11) unfolding checksum_ok_def by fastforce

lemma rep_account_frame: "r \<noteq> h \<Longrightarrow> rep_account (B(h \<mapsto> b)) r = rep_account B r"
  by (simp add: rep_account_def)

lemma rep_account_new [simp]: "rep_account (B(h \<mapsto> b)) h = representative b"
  by (simp add: rep_account_def)

lemma view_eqI:
  assumes "vB V = vB W" "vS V = vS W" "vA V = vA W" "vP V = vP W" "vF V = vF W" "vR V = vR W" "vI V = vI W" "vK V = vK W"
  shows "(V :: view) = W"
  using assms by simp

lemma new_info_Some:
  "vA V a = Some i \<Longrightarrow> new_info T V a h r v = i\<lparr>head := h, rep_block := r, balance := v,
     modified := seconds_since_epoch T, block_count := block_count i + 1\<rparr>"
  by (simp add: new_info_def)

lemma new_info_None:
  "vA V a = None \<Longrightarrow> new_info T V a h r v = \<lparr>head = h, rep_block = r, open_block = h, balance = v,
     modified = seconds_since_epoch T, block_count = 1\<rparr>"
  by (simp add: new_info_def)

text \<open>The account a legacy block on \<open>p\<close> extends is the one the frontier table has for \<open>p\<close>.\<close>

definition legacy_head :: "block_store \<Rightarrow> u256 \<Rightarrow> u256 \<Rightarrow> account_info \<Rightarrow> bool" where
  "legacy_head s p a i \<longleftrightarrow> accounts s a = Some i \<and> head i = p \<and> \<not> state_at (blk (dbs s)) p"

lemma legacy_head_iff:
  assumes inv: "ledger_inv E (view_of s) C N"
  shows "legacy_head s p a i \<longleftrightarrow> frontier_get s p \<noteq> 0 \<and> frontier_get s p = a \<and> accounts s a = Some i"
  unfolding legacy_head_def
  using head_frontier[OF inv] frontier_account[OF inv] by (metis option.inject)

lemma legacy_headD:
  assumes inv: "ledger_inv E (view_of s) C N" and "legacy_head s p a i"
  shows "accounts s a = Some i" "head i = p" "\<not> state_at (blk (dbs s)) p" "frontiers s p = Some a" "frontier_get s p = a"
    "a \<noteq> 0" "p \<noteq> 0" "p \<in> dom (blk (dbs s))"
  using assms(2) head_frontier[OF inv] account_blocks[OF inv] unfolding legacy_head_def by blast+

lemma legacy_frontier:
  assumes inv: "ledger_inv E (view_of s) C N" and "frontier_get s p \<noteq> 0"
  obtains i where "legacy_head s p (frontier_get s p) i"
  using frontier_account[OF assms] assms(2) legacy_head_iff[OF inv] by metis

lemmas handler_simps = block_exists_iff block_get_blk valid_predecessor_iff signed_def representation_add_eq change_latest_eq
  change_latest_new table_defs frontier_del_eq pending_del_eq

section \<open>Send blocks\<close>

abbreviation send_view :: "rai_env \<Rightarrow> rai_clock \<Rightarrow> view \<Rightarrow> send_block \<Rightarrow> u256 \<Rightarrow> account_info \<Rightarrow> view" where
  "send_view E T V b a i \<equiv> v_append T a (block_hash E (Send b)) (Send b) (rep_block i) (s_balance (send_hashables b))
     ((vP V)(Pending_key (s_destination (send_hashables b)) (block_hash E (Send b)) \<mapsto>
        \<lparr>pending_source = a, pending_amount = balance i - s_balance (send_hashables b)\<rparr>)) V"

lemma send_step_iff:
  "ledger_step E T (view_of s) (Send b) V' \<longleftrightarrow> block_hash E (Send b) \<notin> dom (blk (dbs s)) \<and>
     (\<exists>a i. legacy_head s (s_previous (send_hashables b)) a i \<and> signed E a (Send b)
        \<and> s_balance (send_hashables b) \<le> balance i \<and> V' = send_view E T (view_of s) b a i)"
  by (rule iffI, erule step_SendE) (auto simp: legacy_head_def intro!: step_send)

lemma process_send_commit:
  assumes wf: "dbs_wf (dbs (store L))" and inv: "ledger_inv E (view_of (store L)) C N" and nz: "block_hash E (Send b) \<noteq> 0"
    and new: "block_hash E (Send b) \<notin> dom (blk (dbs (store L)))"
    and lh: "legacy_head (store L) (s_previous (send_hashables b)) a i"
    and sg: "signed E a (Send b)" and le: "s_balance (send_hashables b) \<le> balance i"
  shows "implements E T L (Send b) (process_send E T L b)"
proof -
  define s h where "s = store L" and "h = block_hash E (Send b)"
  note D = legacy_headD[OF inv lh, folded s_def] and A = account_blocks[OF inv legacy_headD(1)[OF inv lh], folded s_def]
    and wf = wf[folded s_def] and new = new[folded s_def h_def] and nz = nz[folded h_def]
  obtain k where k: "checksum s 0 = Some k" using checksum_some[OF inv[folded s_def]] ..
  obtain p where p: "blk (dbs s) (s_previous (send_hashables b)) = Some p" "\<not> is_state p"
    using D(3,8) by (auto simp: state_at_def)
  let ?s = "weight_add (rep_account (blk (dbs s)) (rep_block i)) (0 - (balance i - s_balance (send_hashables b))) s"
  obtain d' where d: "block_put E ?s h (Send b) 0 = Some (?s\<lparr>dbs := d'\<rparr>)" "dbs_wf d'" "blk d' = (blk (dbs ?s))(h \<mapsto> Send b)"
    "suc d' = (if previous (Send b) = 0 then (suc (dbs ?s))(h \<mapsto> 0) else (suc (dbs ?s))(h \<mapsto> 0, previous (Send b) \<mapsto> h))"
    by (rule block_put_views[of ?s h "Send b" 0 E]) (use wf new D h_def in auto)
  have "rep_block i \<noteq> h" using A(2) new by blast
  have step: "ledger_step E T (view_of s) (Send b) (send_view E T (view_of s) b a i)"
    unfolding send_step_iff using lh sg le new by (auto simp: s_def h_def)
  show ?thesis
    by (use wf A D d(1) k nz new p sg le in \<open>simp add: process_send_def Let_def s_def[symmetric] h_def[symmetric] handler_simps
          del: valid_predecessor.simps\<close>, intro implements_progress[OF _ _ step[unfolded s_def]] view_eqI)
      (use D d k \<open>rep_block i \<noteq> h\<close> in \<open>auto simp: return_code_def v_append_sel s_def[symmetric] h_def[symmetric]
          new_info_Some weight_without_def rep_account_frame fun_eq_iff\<close>)
qed

lemma process_send_implements:
  assumes wf: "dbs_wf (dbs (store L))" and inv: "ledger_inv E (view_of (store L)) C N" and nz: "block_hash E (Send b) \<noteq> 0"
  shows "implements E T L (Send b) (process_send E T L b)"
proof (cases "\<exists>V'. ledger_step E T (view_of (store L)) (Send b) V'")
  case True
  then show ?thesis unfolding send_step_iff using process_send_commit[OF assms] by blast
next
  case False
  then have no: "\<not> ledger_step E T (view_of (store L)) (Send b) V'" for V' by blast
  note err = implements_error[OF _ wf refl no]
  let ?p = "s_previous (send_hashables b)"
  show ?thesis
  proof (cases "frontier_get (store L) ?p = 0")
    case True
    then show ?thesis
      by (auto simp: process_send_def Let_def return_code_def block_get_blk[OF wf] intro!: err split: option.splits)
  next
    case False
    then obtain i where lh: "legacy_head (store L) ?p (frontier_get (store L) ?p) i" by (rule legacy_frontier[OF inv])
    note D = legacy_headD[OF inv lh]
    show ?thesis
      using D lh no[unfolded send_step_iff] 
      by (auto simp: process_send_def Let_def return_code_def block_get_blk[OF wf] block_exists_iff[OF wf] account_get_def signed_def
            intro!: err split: option.splits)
  qed
qed

section \<open>Receive blocks\<close>

abbreviation receive_view :: "rai_env \<Rightarrow> rai_clock \<Rightarrow> view \<Rightarrow> receive_block \<Rightarrow> u256 \<Rightarrow> account_info \<Rightarrow> pending_info \<Rightarrow> view" where
  "receive_view E T V b a i p \<equiv> v_append T a (block_hash E (Receive b)) (Receive b) (rep_block i) (balance i + pending_amount p)
     ((vP V)(Pending_key a (r_source (receive_hashables b)) := None)) V"

lemma receive_step_iff:
  "ledger_step E T (view_of s) (Receive b) V' \<longleftrightarrow> block_hash E (Receive b) \<notin> dom (blk (dbs s)) \<and>
     (\<exists>a i p. legacy_head s (r_previous (receive_hashables b)) a i \<and> signed E a (Receive b)
        \<and> pending s (Pending_key a (r_source (receive_hashables b))) = Some p \<and> V' = receive_view E T (view_of s) b a i p)"
  by (rule iffI, erule step_ReceiveE) (auto simp: legacy_head_def intro!: step_receive)

lemma pending_accounts:
  assumes inv: "ledger_inv E (view_of s) C N" and p: "pending s (Pending_key a src) = Some p"
  shows "src \<in> dom (blk (dbs s))" "\<exists>j. accounts s (pending_source p) = Some j"
proof -
  note P = pending_okD[OF ledger_invD(5)[OF inv], simplified, OF p]
  show "src \<in> dom (blk (dbs s))" using P(4) by blast
  have "C (pending_source p) \<noteq> []" using P(3) by auto
  then show "\<exists>j. accounts s (pending_source p) = Some j" using chains_okD(1)[OF ledger_invD(2)[OF inv]] by fastforce
qed

lemma process_receive_commit:
  assumes wf: "dbs_wf (dbs (store L))" and inv: "ledger_inv E (view_of (store L)) C N" and nz: "block_hash E (Receive b) \<noteq> 0"
    and new: "block_hash E (Receive b) \<notin> dom (blk (dbs (store L)))"
    and lh: "legacy_head (store L) (r_previous (receive_hashables b)) a i" and sg: "signed E a (Receive b)"
    and q: "pending (store L) (Pending_key a (r_source (receive_hashables b))) = Some q"
  shows "implements E T L (Receive b) (process_receive E T L b)"
proof -
  define s h where "s = store L" and "h = block_hash E (Receive b)"
  note D = legacy_headD[OF inv lh, folded s_def] and A = account_blocks[OF inv legacy_headD(1)[OF inv lh], folded s_def]
    and Q = pending_accounts[OF inv q, folded s_def] and wf = wf[folded s_def] and new = new[folded s_def h_def] and nz = nz[folded h_def]
  obtain k where k: "checksum s 0 = Some k" using checksum_some[OF inv[folded s_def]] ..
  obtain j where j: "accounts s (pending_source q) = Some j" using Q(2) ..
  obtain p where p: "blk (dbs s) (r_previous (receive_hashables b)) = Some p" "\<not> is_state p"
    using D(3,8) by (auto simp: state_at_def)
  let ?s = "s\<lparr>pending := (pending s)(Pending_key a (r_source (receive_hashables b)) := None)\<rparr>"
  obtain d' where d: "block_put E ?s h (Receive b) 0 = Some (?s\<lparr>dbs := d'\<rparr>)" "dbs_wf d'" "blk d' = (blk (dbs ?s))(h \<mapsto> Receive b)"
    "suc d' = (if previous (Receive b) = 0 then (suc (dbs ?s))(h \<mapsto> 0) else (suc (dbs ?s))(h \<mapsto> 0, previous (Receive b) \<mapsto> h))"
    by (rule block_put_views[of ?s h "Receive b" 0 E]) (use wf new D h_def in auto)
  have "rep_block i \<noteq> h" using A(2) new by blast
  have step: "ledger_step E T (view_of s) (Receive b) (receive_view E T (view_of s) b a i q)"
    unfolding receive_step_iff using lh sg q new by (auto simp: s_def h_def)
  show ?thesis
    by (use wf A D d k nz new p sg q j Q(1) in \<open>simp add: process_receive_def Let_def s_def[symmetric] h_def[symmetric] handler_simps
          del: valid_predecessor.simps\<close>, intro implements_progress[OF _ _ step[unfolded s_def]] view_eqI)
      (use D d k \<open>rep_block i \<noteq> h\<close> in \<open>auto simp: return_code_def v_append_sel s_def[symmetric] h_def[symmetric]
          new_info_Some weight_without_def rep_account_frame fun_eq_iff\<close>)
qed

lemma process_receive_implements:
  assumes wf: "dbs_wf (dbs (store L))" and inv: "ledger_inv E (view_of (store L)) C N" and nz: "block_hash E (Receive b) \<noteq> 0"
  shows "implements E T L (Receive b) (process_receive E T L b)"
proof (cases "\<exists>V'. ledger_step E T (view_of (store L)) (Receive b) V'")
  case True
  then show ?thesis unfolding receive_step_iff using process_receive_commit[OF assms] by blast
next
  case False
  then have no: "\<not> ledger_step E T (view_of (store L)) (Receive b) V'" for V' by blast
  note err = implements_error[OF _ wf refl no]
  let ?p = "r_previous (receive_hashables b)"
  show ?thesis
  proof (cases "frontier_get (store L) ?p = 0")
    case True
    then show ?thesis
      by (auto simp: process_receive_def Let_def return_code_def block_get_blk[OF wf] intro!: err split: option.splits)
  next
    case False
    then obtain i where lh: "legacy_head (store L) ?p (frontier_get (store L) ?p) i" by (rule legacy_frontier[OF inv])
    note D = legacy_headD[OF inv lh]
    have stop: "block_hash E (Receive b) \<notin> dom (blk (dbs (store L))) \<Longrightarrow> signed E (frontier_get (store L) ?p) (Receive b) \<Longrightarrow>
        pending (store L) (Pending_key (frontier_get (store L) ?p) (r_source (receive_hashables b))) \<noteq> Some q" for q
      using no[unfolded receive_step_iff] lh by blast
    show ?thesis
      using D stop
      by (auto simp: process_receive_def Let_def return_code_def block_get_blk[OF wf] block_exists_iff[OF wf] account_get_def
          pending_get_def signed_def intro!: err split: option.splits)
  qed
qed

section \<open>Change blocks\<close>

abbreviation change_view :: "rai_env \<Rightarrow> rai_clock \<Rightarrow> view \<Rightarrow> change_block \<Rightarrow> u256 \<Rightarrow> account_info \<Rightarrow> view" where
  "change_view E T V b a i \<equiv> v_append T a (block_hash E (Change b)) (Change b) (block_hash E (Change b)) (balance i) (vP V) V"

lemma change_step_iff:
  "ledger_step E T (view_of s) (Change b) V' \<longleftrightarrow> block_hash E (Change b) \<notin> dom (blk (dbs s)) \<and>
     (\<exists>a i. legacy_head s (c_previous (change_hashables b)) a i \<and> signed E a (Change b)
        \<and> V' = change_view E T (view_of s) b a i)"
  by (rule iffI, erule step_ChangeE)
    (auto simp: legacy_head_def intro!: step_change[where V = "view_of s", simplified])

text \<open>The balance of a block is still the same when another block has been put.\<close>

lemma balance_after_put:
  assumes wf: "dbs_wf d'" and inv: "ledger_inv E (view_of s) C N" and sane: "hash_sane E b"
    and h: "h = block_hash E b" "h \<notin> dom (blk (dbs s))" and d: "blk d' = (blk (dbs s))(h \<mapsto> b)"
    and v: "bal_of (genesis_account E) (blk (dbs s)) x v"
  shows "ledger_balance E (s\<lparr>dbs := d'\<rparr>) x = Some v"
proof -
  note I = ledger_invD[OF inv] and inf = infos_okD[OF ledger_invD(8)[OF inv]]
  have hg: "h \<noteq> genesis_account E" "h \<noteq> 0" using sane h(1) by (auto simp: hash_sane_def)
  have "\<not> is_state b \<Longrightarrow> blocks_info s h = None"
    using sane inf(3)[of h] h by (auto simp: hash_sane_def no_state_collision_def)
  then have "walkable E (s\<lparr>dbs := d'\<rparr>)"
    using wf I(1) inf(1) walks_extend(1)[OF h(2) hg(1)] h hg unfolding walkable_def d hashes_ok_def
    by (auto simp: d split: if_splits)
  then show ?thesis
    using block_balance_correct[of E "s\<lparr>dbs := d'\<rparr>" x v] walks_extend(1)[OF h(2) hg(1) v]
    by (simp add: d ledger_balance_def block_balance_def)
qed

lemma process_change_commit:
  assumes wf: "dbs_wf (dbs (store L))" and inv: "ledger_inv E (view_of (store L)) C N" and sane: "hash_sane E (Change b)"
    and new: "block_hash E (Change b) \<notin> dom (blk (dbs (store L)))"
    and lh: "legacy_head (store L) (c_previous (change_hashables b)) a i" and sg: "signed E a (Change b)"
  shows "implements E T L (Change b) (process_change E T L b)"
proof -
  define s h where "s = store L" and "h = block_hash E (Change b)"
  note D = legacy_headD[OF inv lh, folded s_def] and A = account_blocks[OF inv legacy_headD(1)[OF inv lh], folded s_def]
    and wf = wf[folded s_def] and new = new[folded s_def h_def] and inv = inv[folded s_def]
  have nz: "h \<noteq> 0" using sane by (simp add: hash_sane_def h_def)
  obtain k where k: "checksum s 0 = Some k" using checksum_some[OF inv] ..
  obtain p where p: "blk (dbs s) (c_previous (change_hashables b)) = Some p" "\<not> is_state p"
    using D(3,8) by (auto simp: state_at_def)
  obtain d' where d: "block_put E s h (Change b) 0 = Some (s\<lparr>dbs := d'\<rparr>)" "dbs_wf d'" "blk d' = (blk (dbs s))(h \<mapsto> Change b)"
    "suc d' = (if previous (Change b) = 0 then (suc (dbs s))(h \<mapsto> 0) else (suc (dbs s))(h \<mapsto> 0, previous (Change b) \<mapsto> h))"
    by (rule block_put_views[of s h "Change b" 0 E]) (use wf new D h_def in auto)
  note bal = balance_after_put[OF d(2) inv sane h_def new d(3) A(6), unfolded D(2)]
  have "rep_block i \<noteq> h" using A(2) new by blast
  have step: "ledger_step E T (view_of s) (Change b) (change_view E T (view_of s) b a i)"
    unfolding change_step_iff using lh sg new by (auto simp: s_def h_def)
  show ?thesis
    by (use wf A D d k nz new p sg bal in \<open>simp add: process_change_def Let_def s_def[symmetric] h_def[symmetric] handler_simps
          del: valid_predecessor.simps\<close>, intro implements_progress[OF _ _ step[unfolded s_def]] view_eqI)
      (use D d k \<open>rep_block i \<noteq> h\<close> in \<open>auto simp: return_code_def v_append_sel s_def[symmetric] h_def[symmetric]
          new_info_Some weight_without_def rep_account_frame fun_eq_iff\<close>)
qed

lemma process_change_implements:
  assumes wf: "dbs_wf (dbs (store L))" and inv: "ledger_inv E (view_of (store L)) C N" and sane: "hash_sane E (Change b)"
  shows "implements E T L (Change b) (process_change E T L b)"
proof (cases "\<exists>V'. ledger_step E T (view_of (store L)) (Change b) V'")
  case True
  then show ?thesis unfolding change_step_iff using process_change_commit[OF assms] by blast
next
  case False
  then have no: "\<not> ledger_step E T (view_of (store L)) (Change b) V'" for V' by blast
  note err = implements_error[OF _ wf refl no]
  let ?p = "c_previous (change_hashables b)"
  show ?thesis
  proof (cases "frontier_get (store L) ?p = 0")
    case True
    then show ?thesis
      by (auto simp: process_change_def Let_def return_code_def block_get_blk[OF wf] intro!: err split: option.splits)
  next
    case False
    then obtain i where lh: "legacy_head (store L) ?p (frontier_get (store L) ?p) i" by (rule legacy_frontier[OF inv])
    note D = legacy_headD[OF inv lh]
    have stop: "block_hash E (Change b) \<notin> dom (blk (dbs (store L))) \<Longrightarrow> \<not> signed E (frontier_get (store L) ?p) (Change b)"
      using no[unfolded change_step_iff] lh by blast
    show ?thesis
      using D stop
      by (auto simp: process_change_def Let_def return_code_def block_get_blk[OF wf] block_exists_iff[OF wf] account_get_def
          signed_def intro!: err split: option.splits)
  qed
qed

section \<open>Open blocks\<close>

abbreviation open_view :: "rai_env \<Rightarrow> rai_clock \<Rightarrow> view \<Rightarrow> open_block \<Rightarrow> pending_info \<Rightarrow> view" where
  "open_view E T V b p \<equiv> v_append T (o_account (open_hashables b)) (block_hash E (Open b)) (Open b) (block_hash E (Open b))
     (pending_amount p) ((vP V)(Pending_key (o_account (open_hashables b)) (o_source (open_hashables b)) := None)) V"

lemma open_step_iff:
  "ledger_step E T (view_of s) (Open b) V' \<longleftrightarrow> block_hash E (Open b) \<notin> dom (blk (dbs s)) \<and>
     (\<exists>p. signed E (o_account (open_hashables b)) (Open b) \<and> o_account (open_hashables b) \<noteq> burn_account
        \<and> accounts s (o_account (open_hashables b)) = None
        \<and> pending s (Pending_key (o_account (open_hashables b)) (o_source (open_hashables b))) = Some p
        \<and> V' = open_view E T (view_of s) b p)"
  by (rule iffI, erule step_OpenE) (auto intro!: step_open)

lemma frontier_0:
  assumes "ledger_inv E (view_of s) C N"
  shows "frontiers s 0 = None"
  using ledger_invD(3)[OF assms] account_blocks(3)[OF assms] unfolding frontiers_ok_def
  by (metis not_None_eq view_of_sel(3,5))

lemma process_open_commit:
  assumes wf: "dbs_wf (dbs (store L))" and inv: "ledger_inv E (view_of (store L)) C N" and nz: "block_hash E (Open b) \<noteq> 0"
    and st: "ledger_step E T (view_of (store L)) (Open b) V'"
  shows "implements E T L (Open b) (process_open E T L b)"
proof -
  define s h a where "s = store L" and "h = block_hash E (Open b)" and "a = o_account (open_hashables b)"
  note nz = nz[folded h_def]
  obtain q where new: "h \<notin> dom (blk (dbs s))" and sg: "signed E a (Open b)" and a: "a \<noteq> burn_account" "accounts s a = None"
    and q: "pending s (Pending_key a (o_source (open_hashables b))) = Some q" and V': "V' = open_view E T (view_of s) b q"
    using st unfolding open_step_iff s_def h_def a_def by blast
  note Q = pending_accounts[OF inv[folded s_def] q] and wf = wf[folded s_def] and F0 = frontier_0[OF inv[folded s_def]]
  obtain k where k: "checksum s 0 = Some k" using checksum_some[OF inv[folded s_def]] ..
  obtain j where j: "accounts s (pending_source q) = Some j" using Q(2) ..
  let ?s = "s\<lparr>pending := (pending s)(Pending_key a (o_source (open_hashables b)) := None)\<rparr>"
  obtain d' where d: "block_put E ?s h (Open b) 0 = Some (?s\<lparr>dbs := d'\<rparr>)" "dbs_wf d'" "blk d' = (blk (dbs ?s))(h \<mapsto> Open b)"
    "suc d' = (if previous (Open b) = 0 then (suc (dbs ?s))(h \<mapsto> 0) else (suc (dbs ?s))(h \<mapsto> 0, previous (Open b) \<mapsto> h))"
    by (rule block_put_views[of ?s h "Open b" 0 E]) (use wf new h_def in auto)
  have c: "change_latest T (?s\<lparr>dbs := d'\<rparr>) a h h (pending_amount q) (block_count account_info_zero + 1) False =
      Some (latest_set a h (new_info T (view_of s) a h h (pending_amount q)) False (k XOR h) (?s\<lparr>dbs := d'\<rparr>))"
    by (subst change_latest_new[where b = "Open b"]) (use a d k nz in \<open>simp_all add: new_info_None account_info_zero_def\<close>)
  show ?thesis
    by (use wf a d k nz new sg q j Q(1) c in \<open>simp add: process_open_def Let_def s_def[symmetric] h_def[symmetric] a_def[symmetric]
          handler_simps\<close>, intro implements_progress[OF _ _ st] view_eqI)
      (use a d k F0 V' in \<open>auto simp: return_code_def v_append_sel h_def[symmetric] a_def[symmetric]
          new_info_None weight_without_def fun_eq_iff\<close>)
qed

lemma process_open_implements:
  assumes wf: "dbs_wf (dbs (store L))" and inv: "ledger_inv E (view_of (store L)) C N" and nz: "block_hash E (Open b) \<noteq> 0"
  shows "implements E T L (Open b) (process_open E T L b)"
proof (cases "\<exists>V'. ledger_step E T (view_of (store L)) (Open b) V'")
  case True
  then show ?thesis using process_open_commit[OF assms] by blast
next
  case False
  then have no: "\<not> ledger_step E T (view_of (store L)) (Open b) V'" for V' by blast
  note err = implements_error[OF _ wf refl no]
  have stop: "block_hash E (Open b) \<notin> dom (blk (dbs (store L))) \<Longrightarrow> signed E (o_account (open_hashables b)) (Open b) \<Longrightarrow>
      o_account (open_hashables b) \<noteq> burn_account \<Longrightarrow> accounts (store L) (o_account (open_hashables b)) = None \<Longrightarrow>
      pending (store L) (Pending_key (o_account (open_hashables b)) (o_source (open_hashables b))) \<noteq> Some q" for q
    using no[unfolded open_step_iff] by blast
  show ?thesis
    using stop
    by (auto simp: process_open_def Let_def return_code_def block_exists_iff[OF wf] account_get_def pending_get_def signed_def
        intro!: err split: option.splits)
qed


section \<open>State blocks\<close>

abbreviation state_pending :: "rai_env \<Rightarrow> view \<Rightarrow> state_block \<Rightarrow> bool \<Rightarrow> u128 \<Rightarrow> (pending_key \<rightharpoonup> pending_info)" where
  "state_pending E V b snd_a amount \<equiv>
     (let link = st_link (state_hashables b); a = st_account (state_hashables b) in
      if snd_a then (vP V)(Pending_key link (block_hash E (State b)) \<mapsto> \<lparr>pending_source = a, pending_amount = amount\<rparr>)
      else if link \<noteq> 0 then (vP V)(Pending_key a link := None) else vP V)"

abbreviation state_view :: "rai_env \<Rightarrow> rai_clock \<Rightarrow> view \<Rightarrow> state_block \<Rightarrow> bool \<Rightarrow> u128 \<Rightarrow> view" where
  "state_view E T V b snd_a amount \<equiv> v_append T (st_account (state_hashables b)) (block_hash E (State b)) (State b)
     (block_hash E (State b)) (st_balance (state_hashables b)) (state_pending E V b snd_a amount) V"

definition state_placed :: "block_store \<Rightarrow> state_block \<Rightarrow> account_info \<Rightarrow> bool" where
  "state_placed s b info \<longleftrightarrow> (case accounts s (st_account (state_hashables b)) of
      Some i \<Rightarrow> info = i \<and> st_previous (state_hashables b) = head i
    | None \<Rightarrow> info = account_info_zero \<and> st_previous (state_hashables b) = 0)"

lemma frontier_drop:
  assumes inv: "ledger_inv E (view_of s) C N" and f: "frontiers s' = frontiers s"
  shows "(if frontier_get s' p \<noteq> 0 then frontier_del s' p else Some s') = Some (s'\<lparr>frontiers := (frontiers s)(p := None)\<rparr>)"
proof (cases "frontiers s p")
  case None
  then have "(frontiers s)(p := None) = frontiers s" by auto
  with None f show ?thesis by (auto simp: frontier_get_def intro!: block_store.equality)
next
  case (Some a)
  then obtain i where "accounts s a = Some i" using ledger_invD(3)[OF inv] unfolding frontiers_ok_def by auto
  then have "a \<noteq> 0" by (rule account_blocks(5)[OF inv])
  with Some f show ?thesis by (simp add: frontier_get_def frontier_del_def)
qed

lemma state_apply_commit:
  assumes wf: "dbs_wf (dbs (store L))" and inv: "ledger_inv E (view_of (store L)) C N" and nz: "block_hash E (State b) \<noteq> 0"
    and new: "block_hash E (State b) \<notin> dom (blk (dbs (store L)))" and at: "state_placed (store L) b info"
    and rc: "\<not> snd_a \<Longrightarrow> st_link (state_hashables b) \<noteq> 0 \<Longrightarrow>
      pending (store L) (Pending_key (st_account (state_hashables b)) (st_link (state_hashables b))) \<noteq> None"
  obtains ret L' where "state_apply E T L b snd_a amount info = Some (ret, L')" "ret_code ret = Progress" "dbs_wf (dbs (store L'))"
    "view_of (store L') = state_view E T (view_of (store L)) b snd_a amount"
proof -
  define s h a where "s = store L" and "h = block_hash E (State b)" and "a = st_account (state_hashables b)"
  note inv = inv[folded s_def] and wf = wf[folded s_def] and new = new[folded s_def h_def] and nz = nz[folded h_def]
    and at = at[folded s_def] and rc = rc[folded s_def a_def]
  obtain k where k: "checksum s 0 = Some k" using checksum_some[OF inv] ..
  have prev: "previous (State b) \<noteq> 0 \<Longrightarrow> previous (State b) \<in> dom (blk (dbs s))"
    using at account_blocks(1)[OF inv] by (auto simp: state_placed_def split: option.splits)
  obtain d' where d: "block_put E s h (State b) 0 = Some (s\<lparr>dbs := d'\<rparr>)" "dbs_wf d'" "blk d' = (blk (dbs s))(h \<mapsto> State b)"
    "suc d' = (if previous (State b) = 0 then (suc (dbs s))(h \<mapsto> 0) else (suc (dbs s))(h \<mapsto> 0, previous (State b) \<mapsto> h))"
    by (rule block_put_views[of s h "State b" 0 E]) (use wf new prev h_def in auto)
  show ?thesis
  proof (cases "accounts s a")
    case (Some i)
    have i: "info = i" "st_previous (state_hashables b) = head i" using at Some by (simp_all add: state_placed_def a_def)
    note A = account_blocks[OF inv Some]
    have r: "rep_block i \<noteq> h" using A(2) new by blast
    have "\<exists>ret L'. state_apply E T L b snd_a amount info = Some (ret, L') \<and> ret_code ret = Progress \<and> dbs_wf (dbs (store L'))
        \<and> view_of (store L') = state_view E T (view_of s) b snd_a amount"
      by (cases snd_a; cases "st_link (state_hashables b) = 0"; use wf A d k nz new i r Some rc frontier_drop[OF inv] in
          \<open>simp add: state_apply_def Let_def s_def[symmetric] h_def[symmetric] a_def[symmetric] representation_add_eq change_latest_eq
            pending_put_def pending_del_eq return_code_def split del: if_split\<close>)
        (intro view_eqI; use wf A d k nz new i r Some in
          \<open>simp add: v_append_sel new_info_Some weight_without_def rep_account_frame fun_eq_iff\<close>)+
    then show ?thesis using that unfolding s_def by blast
  next
    case None
    have i: "head info = 0" "rep_block info = 0" "block_count info = 0" "st_previous (state_hashables b) = 0"
      using at None by (simp_all add: state_placed_def a_def account_info_zero_def)
    have new_account: "change_latest T s' a h h v (block_count info + 1) True =
        Some (latest_set a h (new_info T (view_of s) a h h v) True (k XOR h) s')"
      if "accounts s' = accounts s" "checksum s' = checksum s" "dbs s' = d'" for s' v
      by (subst change_latest_new[where b = "State b"])
        (use that None d k nz i in \<open>simp_all add: new_info_None account_info_zero_def\<close>)
    have "\<exists>ret L'. state_apply E T L b snd_a amount info = Some (ret, L') \<and> ret_code ret = Progress \<and> dbs_wf (dbs (store L'))
        \<and> view_of (store L') = state_view E T (view_of s) b snd_a amount"
      by (cases snd_a; cases "st_link (state_hashables b) = 0"; use wf d k nz new i(2,4) None rc frontier_drop[OF inv] new_account in
          \<open>simp add: state_apply_def Let_def s_def[symmetric] h_def[symmetric] a_def[symmetric] representation_add_eq
            pending_put_def pending_del_eq return_code_def split del: if_split\<close>)
        (intro view_eqI; use wf d k nz new i None in
          \<open>simp add: v_append_sel new_info_None weight_without_def fun_eq_iff\<close>)+
    then show ?thesis using that unfolding s_def by blast
  qed
qed

lemma state_step_iff:
  assumes inv: "ledger_inv E (view_of s) C N"
  shows "ledger_step E T (view_of s) (State b) V' \<longleftrightarrow> (
     let h = block_hash E (State b); a = st_account (state_hashables b); link = st_link (state_hashables b);
       prev = st_previous (state_hashables b); bal = st_balance (state_hashables b) in
     h \<notin> dom (blk (dbs s)) \<and> signed E a (State b) \<and> a \<noteq> 0 \<and>
     (case accounts s a of
        Some i \<Rightarrow> prev = head i \<and> (if bal < balance i then V' = state_view E T (view_of s) b True (balance i - bal)
          else if link \<noteq> 0 then \<exists>p. pending s (Pending_key a link) = Some p \<and> bal - balance i = pending_amount p \<and>
              V' = state_view E T (view_of s) b False (bal - balance i)
          else bal = balance i \<and> V' = state_view E T (view_of s) b False (bal - balance i))
      | None \<Rightarrow> prev = 0 \<and> link \<noteq> 0 \<and> (\<exists>p. pending s (Pending_key a link) = Some p \<and> bal = pending_amount p \<and>
              V' = state_view E T (view_of s) b False bal)))"
    (is "?L \<longleftrightarrow> ?R")
proof
  assume ?L
  then show ?R
    by (cases rule: ledger_step.cases) (use account_blocks(5)[OF inv] in \<open>auto simp: Let_def\<close>)
next
  assume R: ?R
  show ?L
  proof (cases "accounts s (st_account (state_hashables b))")
    case None
    then show ?thesis using R by (auto simp: Let_def intro!: step_state_open[where V = "view_of s", simplified])
  next
    case (Some i)
    let ?h = "block_hash E (State b)" and ?a = "st_account (state_hashables b)" and ?bal = "st_balance (state_hashables b)"
    note F = R[unfolded Let_def Some option.case]
    have com: "?h \<notin> dom (vB (view_of s))" "signed E ?a (State b)" "vA (view_of s) ?a = Some i"
      "head i = st_previous (state_hashables b)" using F Some by simp_all
    consider (send) "?bal < balance i" | (receive) "\<not> ?bal < balance i" "st_link (state_hashables b) \<noteq> 0"
      | (change) "\<not> ?bal < balance i" "st_link (state_hashables b) = 0" by blast
    then show ?thesis
    proof cases
      case send
      then show ?thesis using F step_state_send[OF refl com(1) refl com(2-4) send refl] by simp
    next
      case receive
      then obtain p where p: "vP (view_of s) (Pending_key ?a (st_link (state_hashables b))) = Some p" "?bal - balance i = pending_amount p"
        "V' = state_view E T (view_of s) b False (?bal - balance i)" using F by auto
      show ?thesis using step_state_receive[OF refl com(1) refl com(2-4) receive(2) p(1) _ p(2) refl] p(3) receive by (simp add: not_less)
    next
      case change
      then show ?thesis using F step_state_change[OF refl com(1) refl com(2-4) change(2)] by simp
    qed
  qed
qed

lemma state_position_store:
  "state_position T L b = (code, snd_a, amount, info, L1) \<Longrightarrow> store L1 = store L"
  by (auto simp: state_position_def Let_def split: option.splits if_splits)

lemma state_go:
  assumes inv: "ledger_inv E (view_of (store L)) C N" and new: "block_hash E (State b) \<notin> dom (blk (dbs (store L)))"
    and sg: "signed E (st_account (state_hashables b)) (State b)" and a: "st_account (state_hashables b) \<noteq> 0"
    and pos: "state_position T L b = (Progress, snd_a, amount, info, L1)"
    and link: "state_link (store L) b snd_a amount = Progress"
  shows "ledger_step E T (view_of (store L)) (State b) (state_view E T (view_of (store L)) b snd_a amount)"
  unfolding state_step_iff[OF inv] Let_def
  using new sg a pos link
  by (auto simp: state_position_def state_link_def Let_def table_defs not_less split: option.splits if_splits)

lemma process_state_implements:
  assumes wf: "dbs_wf (dbs (store L))" and inv: "ledger_inv E (view_of (store L)) C N" and nz: "block_hash E (State b) \<noteq> 0"
  shows "implements E T L (State b) (process_state E T L b)"
proof (cases "\<exists>V'. ledger_step E T (view_of (store L)) (State b) V'")
  case True
  then obtain V' where st: "ledger_step E T (view_of (store L)) (State b) V'" ..
  define snd_a amount info L1 where "snd_a = fst (snd (state_position T L b))" and "amount = fst (snd (snd (state_position T L b)))"
    and "info = fst (snd (snd (snd (state_position T L b))))" and "L1 = snd (snd (snd (snd (state_position T L b))))"
  note S = st[unfolded state_step_iff[OF inv] Let_def]
  have prev: "accounts (store L) a = Some i \<Longrightarrow> head i \<in> dom (blk (dbs (store L))) \<and> head i \<noteq> 0" for a i
    using account_blocks[OF inv] by blast
  have pos: "state_position T L b = (Progress, snd_a, amount, info, L1)" "store L1 = store L" "state_placed (store L) b info"
    using S prev unfolding snd_a_def amount_def info_def L1_def
    by (auto simp: state_position_def Let_def account_get_def block_exists_iff[OF wf] state_placed_def split: option.splits if_splits)
  have link: "state_link (store L) b snd_a amount = Progress" "V' = state_view E T (view_of (store L)) b snd_a amount"
    using S prev pending_accounts(1)[OF inv] unfolding snd_a_def amount_def
    by (auto simp: state_position_def state_link_def Let_def table_defs block_exists_iff[OF wf] split: option.splits if_splits)
  have rc: "\<not> snd_a \<Longrightarrow> st_link (state_hashables b) \<noteq> 0 \<Longrightarrow>
      pending (store L) (Pending_key (st_account (state_hashables b)) (st_link (state_hashables b))) \<noteq> None"
    using link(1) by (auto simp: state_link_def Let_def pending_get_def split: if_splits option.splits)
  obtain ret L' where "state_apply E T L1 b snd_a amount info = Some (ret, L')" "ret_code ret = Progress" "dbs_wf (dbs (store L'))"
    "view_of (store L') = state_view E T (view_of (store L)) b snd_a amount"
    by (rule state_apply_commit[of L1 E C N b info snd_a T amount, unfolded pos(2), OF wf inv nz conjunct1[OF S] pos(3) rc])
  then show ?thesis
    using S pos link st by (intro implements_progress[of ret L' E T L, OF _ _ st, THEN back_subst[of "implements E T L (State b)"]])
      (auto simp: process_state_def Let_def block_exists_iff[OF wf] signed_def)
next
  case False
  then have no: "\<not> ledger_step E T (view_of (store L)) (State b) V'" for V' by blast
  note err = implements_error[OF _ wf _ no]
  obtain code snd_a amount info L1 where pos: "state_position T L b = (code, snd_a, amount, info, L1)" by (rule prod_cases5)
  have st1: "store L1 = store L" by (rule state_position_store[OF pos])
  have stop: "code \<noteq> Progress \<or> state_link (store L) b snd_a amount \<noteq> Progress"
    if "block_hash E (State b) \<notin> dom (blk (dbs (store L)))" "signed E (st_account (state_hashables b)) (State b)"
      "st_account (state_hashables b) \<noteq> 0"
    using state_go[OF inv that] pos no by blast
  show ?thesis
    using stop st1 by (auto simp: process_state_def Let_def pos return_code_def block_exists_iff[OF wf] signed_def intro!: err)
qed

section \<open>Processing implements the specification\<close>

theorem process_implements:
  assumes "dbs_wf (dbs (store L))" "ledger_inv E (view_of (store L)) C N" "hash_sane E b"
  shows "implements E T L b (process E T L b)"
proof -
  have nz: "block_hash E b \<noteq> 0" using assms(3) by (simp add: hash_sane_def)
  show ?thesis
    using assms nz unfolding process_def
    by (cases b) (auto intro: process_send_implements process_receive_implements process_open_implements
        process_change_implements process_state_implements)
qed

corollary process_keeps_store_ok:
  assumes ok: "store_ok E (store L)" and sane: "hash_sane E b"
  obtains ret L' where "process E T L b = Some (ret, L')" "store_ok E (store L')"
proof -
  obtain C N where wf: "dbs_wf (dbs (store L))" and inv: "ledger_inv E (view_of (store L)) C N"
    using ok unfolding store_ok_def by blast
  obtain ret L' where r: "process E T L b = Some (ret, L')" "dbs_wf (dbs (store L'))" and
    step: "if ret_code ret = Progress then ledger_step E T (view_of (store L)) b (view_of (store L'))
      else store L' = store L \<and> (\<nexists>V'. ledger_step E T (view_of (store L)) b V')"
    using process_implements[OF wf inv sane] unfolding implements_def by blast
  have "\<exists>C N. ledger_inv E (view_of (store L')) C N"
    using step ledger_step_inv[OF inv _ sane] inv by (metis (full_types))
  then show ?thesis using that[OF r(1)] r(2) unfolding store_ok_def by blast
qed

section \<open>The genesis store\<close>

definition genesis_hash :: "rai_env \<Rightarrow> u256" where
  "genesis_hash E = block_hash E (Open (genesis_open E))"

lemma genesis_open_sel [simp]:
  "o_source (open_hashables (genesis_open E)) = genesis_account E"
  "o_account (open_hashables (genesis_open E)) = genesis_account E"
  "o_representative (open_hashables (genesis_open E)) = genesis_account E"
  by (simp_all add: genesis_open_def Let_def)

lemma empty_store_sel [simp]:
  "accounts empty_store = Map.empty" "pending empty_store = Map.empty" "frontiers empty_store = Map.empty"
  "blocks_info empty_store = Map.empty" "representation empty_store = Map.empty"
  "blk (dbs empty_store) = Map.empty" "suc (dbs empty_store) = Map.empty"
  by (auto simp: empty_store_def blk_def suc_def block_get_raw_def)

lemma genesis_initialize_view:
  assumes "genesis_hash E \<noteq> 0"
  obtains s where "genesis_initialize E T empty_store = Some s" "dbs_wf (dbs s)"
    "view_of s = \<lparr>vB = [genesis_hash E \<mapsto> Open (genesis_open E)], vS = [genesis_hash E \<mapsto> 0],
       vA = [genesis_account E \<mapsto> \<lparr>head = genesis_hash E, rep_block = genesis_hash E, open_block = genesis_hash E,
         balance = - 1, modified = seconds_since_epoch T, block_count = 1\<rparr>],
       vP = Map.empty, vF = [genesis_hash E \<mapsto> genesis_account E], vR = (\<lambda>_. 0)(genesis_account E := - 1),
       vI = Map.empty, vK = Some (genesis_hash E)\<rparr>"
proof -
  let ?h = "genesis_hash E" and ?b = "Open (genesis_open E)"
  obtain d' where d: "block_put E empty_store ?h ?b 0 = Some (empty_store\<lparr>dbs := d'\<rparr>)" "dbs_wf d'"
    "blk d' = (blk (dbs empty_store))(?h \<mapsto> ?b)"
    "suc d' = (if previous ?b = 0 then (suc (dbs empty_store))(?h \<mapsto> 0) else (suc (dbs empty_store))(?h \<mapsto> 0, previous ?b \<mapsto> ?h))"
    by (rule block_put_views[of empty_store ?h ?b 0 E]) (auto simp: dbs_wf_empty)
  have "cursor_first (accounts empty_store) = []" by (simp add: cursor_first_def)
  then show ?thesis
    using that d
    by (simp add: genesis_initialize_def Let_def genesis_hash_def[symmetric] checksum_put_def checksum_key_def table_defs
        representation_put_def view_of_def representation_get_def fun_eq_iff)
qed

lemma genesis_inv:
  assumes gh: "genesis_hash E \<notin> {0, 1, genesis_account E}" and V: "V = \<lparr>vB = [genesis_hash E \<mapsto> Open (genesis_open E)],
       vS = [genesis_hash E \<mapsto> 0],
       vA = [genesis_account E \<mapsto> \<lparr>head = genesis_hash E, rep_block = genesis_hash E, open_block = genesis_hash E,
         balance = - 1, modified = seconds_since_epoch T, block_count = 1\<rparr>],
       vP = Map.empty, vF = [genesis_hash E \<mapsto> genesis_account E], vR = (\<lambda>_. 0)(genesis_account E := - 1),
       vI = Map.empty, vK = Some (genesis_hash E)\<rparr>"
  shows "ledger_inv E V ((\<lambda>_. [])(genesis_account E := [genesis_hash E])) (\<lambda>_. 0)"
proof -
  let ?h = "genesis_hash E" and ?g = "genesis_account E" and ?b = "Open (genesis_open E)" and ?C = "(\<lambda>_. [])(genesis_account E := [genesis_hash E])"
  have at: "vB V ?h = Some ?b" "vB V ?g = None" using gh by (auto simp: V)
  have bal: "bal_of ?g (vB V) ?h (- 1)" using at by (intro bal_genesis[where B = "vB V", OF at(1)]) simp_all
  have rep: "rep_of (vB V) ?h ?h" using at by (intro rep_open)
  have norec: "\<not> receives ?g (vB V) ?b src" for src by (simp add: receives_def)
  have nosend: "\<not> sends_to ?g (vB V) ?b d" for d by (simp add: sends_to_def)
  have one: "vB V h = Some b \<longleftrightarrow> h = ?h \<and> b = ?b" for h b by (auto simp: V)
  have sup: "unat (- 1 :: u128) = 2 ^ 128 - 1" using unat_genesis_amount by (simp add: genesis_amount_def)
  have "hashes_ok E V" using gh by (simp add: hashes_ok_def V genesis_hash_def)
  moreover have "chains_ok V ?C" by (auto simp: chains_ok_def V position_ok_def owner_ok_def)
  moreover have "frontiers_ok V" by (auto simp: frontiers_ok_def V state_at_def)
  moreover have "values_ok ?g V" using bal rep by (auto simp: values_ok_def V)
  moreover have "pending_ok ?g V ?C" by (simp add: pending_ok_def V)
  moreover have "receipts_ok ?g V ?C" using norec nosend by (auto simp: receipts_ok_def one)
  moreover have "order_ok ?g V (\<lambda>_. 0)" using norec by (auto simp: order_ok_def one)
  moreover have "infos_ok E V ?C"
  proof -
    have "(of_nat (Suc (length ys)) :: u64) mod block_info_max \<noteq> 0" if "?C a = xs @ h # ys" for a xs h ys
    proof -
      have "[?h] = xs @ h # ys" using that by (simp split: if_splits)
      then have ys: "ys = []" by (cases xs) simp_all
      show ?thesis unfolding ys by code_simp
    qed
    then show ?thesis unfolding infos_ok_def by (simp add: V)
  qed
  moreover have "weights_ok V" by (auto simp: weights_ok_def delegated_def V msum_def rep_account_def)
  moreover have "supply_ok V" by (simp add: supply_ok_def total_supply_def V msum_def sup)
  moreover have "checksum_ok V" by (simp add: checksum_ok_def xor_heads_def V)
  moreover have "finite_ok V" by (simp add: finite_ok_def V)
  moreover have "moves_ok ?g (vB V)" using norec nosend by (auto simp: moves_ok_def one is_genesis_def)
  ultimately show ?thesis unfolding ledger_inv_def by blast
qed

theorem genesis_store_ok:
  assumes "genesis_hash E \<notin> {0, 1, genesis_account E}"
  obtains s where "genesis_initialize E T empty_store = Some s" "store_ok E s"
  using genesis_initialize_view[of E T] genesis_inv[OF assms refl, of T] assms unfolding store_ok_def by (metis insertCI)


end
