(* ===== verification/Rai_Ledger_Undo.thy ===== *)
theory Rai_Ledger_Undo
  imports Rai_Ledger_Refine
begin

text \<open>
  The inverse of a step: taking the newest block of an account off its chain and giving its amount
  back (\<open>v_retract\<close>), when the block is not the genesis block and, if it is a send, has not been
  received. The invariant of the ledger is kept.
\<close>


section \<open>Taking the newest block off a chain\<close>

definition v_retract :: "rai_clock \<Rightarrow> u256 \<Rightarrow> account_info \<Rightarrow> block \<Rightarrow> u256 \<Rightarrow> u128 \<Rightarrow> (pending_key \<rightharpoonup> pending_info) \<Rightarrow> view \<Rightarrow> view" where
  "v_retract T a i b r v P V = (let h = head i; p = previous b; n = block_count i - 1;
       w = (vR V)(rep_account (vB V) (rep_block i) := vR V (rep_account (vB V) (rep_block i)) - balance i);
       I = (if p \<noteq> 0 \<and> n mod block_info_max = 0 then (vI V)(p \<mapsto> \<lparr>info_account = a, info_balance = v\<rparr>) else vI V) in
     \<lparr>vB = (vB V)(h := None),
      vS = (if p = 0 then (vS V)(h := None) else (vS V)(p \<mapsto> 0, h := None)),
      vA = (if p = 0 then (vA V)(a := None) else (vA V)(a \<mapsto> i\<lparr>head := p, rep_block := r, balance := v,
              modified := seconds_since_epoch T, block_count := n\<rparr>)),
      vP = P,
      vF = (if p = 0 \<or> state_at (vB V) p then (vF V)(h := None) else (vF V)(h := None, p \<mapsto> a)),
      vR = (if p = 0 then w else w(rep_account (vB V) r := w (rep_account (vB V) r) + v)),
      vI = (if \<not> is_state b \<and> block_count i mod block_info_max = 0 then I(h := None) else I),
      vK = map_option (\<lambda>k. (k XOR h) XOR p) (vK V)\<rparr>)"

lemma v_retract_sel:
  "vB (v_retract T a i b r v P V) = (vB V)(head i := None)"
  "vS (v_retract T a i b r v P V) = (if previous b = 0 then (vS V)(head i := None) else (vS V)(previous b \<mapsto> 0, head i := None))"
  "vA (v_retract T a i b r v P V) = (if previous b = 0 then (vA V)(a := None) else (vA V)(a \<mapsto> i\<lparr>head := previous b,
      rep_block := r, balance := v, modified := seconds_since_epoch T, block_count := block_count i - 1\<rparr>))"
  "vP (v_retract T a i b r v P V) = P"
  "vF (v_retract T a i b r v P V) = (if previous b = 0 \<or> state_at (vB V) (previous b) then (vF V)(head i := None)
      else (vF V)(head i := None, previous b \<mapsto> a))"
  "vK (v_retract T a i b r v P V) = map_option (\<lambda>k. (k XOR head i) XOR previous b) (vK V)"
  by (simp_all add: v_retract_def Let_def)

text \<open>
  When the newest block of an account can be taken off: it is not the genesis block, and if it
  is a send it has not been received.
\<close>

definition retractable :: "rai_env \<Rightarrow> view \<Rightarrow> u256 \<Rightarrow> account_info \<Rightarrow> block \<Rightarrow> u256 \<Rightarrow> u128 \<Rightarrow> bool" where
  "retractable E V a i b r v \<longleftrightarrow> vA V a = Some i \<and> vB V (head i) = Some b \<and> \<not> is_genesis (genesis_account E) b
     \<and> (if previous b = 0 then v = 0 else bal_of (genesis_account E) (vB V) (previous b) v \<and> rep_of (vB V) (previous b) r)
     \<and> (\<forall>d. sends_to (genesis_account E) (vB V) b d \<longrightarrow> vP V (Pending_key d (head i)) \<noteq> None)"

definition flow_back :: "u256 \<Rightarrow> view \<Rightarrow> (u256 \<Rightarrow> u256 list) \<Rightarrow> u256 \<Rightarrow> u256 \<Rightarrow> block \<Rightarrow> (pending_key \<rightharpoonup> pending_info) \<Rightarrow> bool" where
  "flow_back g V C a h b P \<longleftrightarrow>
     (\<exists>d. sends_to g (vB V) b d \<and> P = (vP V)(Pending_key d h := None))
     \<or> (\<exists>src am x. receives g (vB V) b src \<and> amt_of g (vB V) src am \<and> src \<in> set (C x)
          \<and> P = (vP V)(Pending_key a src \<mapsto> \<lparr>pending_source = x, pending_amount = am\<rparr>))
     \<or> ((\<nexists>d. sends_to g (vB V) b d) \<and> (\<nexists>src. receives g (vB V) b src) \<and> P = vP V)"

lemma retractableD:
  assumes "retractable E V a i b r v"
  shows "vA V a = Some i" "vB V (head i) = Some b" "\<not> is_genesis (genesis_account E) b" "previous b = 0 \<Longrightarrow> v = 0"
    "previous b \<noteq> 0 \<Longrightarrow> bal_of (genesis_account E) (vB V) (previous b) v"
    "previous b \<noteq> 0 \<Longrightarrow> rep_of (vB V) (previous b) r"
    "sends_to (genesis_account E) (vB V) b d \<Longrightarrow> vP V (Pending_key d (head i)) \<noteq> None"
  using assms unfolding retractable_def by auto

lemma retract_chain:
  assumes ch: "chains_ok V C" and hs: "hashes_ok E V" and rt: "retractable E V a i b r v"
  shows "C a = head i # tl (C a)" "tl (C a) = [] \<longleftrightarrow> previous b = 0" "position_ok (vB V) b (tl (C a))"
    "head i \<notin> set (tl (C a))" "previous b \<noteq> 0 \<Longrightarrow> tl (C a) = previous b # tl (tl (C a))"
    "previous b \<noteq> 0 \<Longrightarrow> previous b \<in> dom (vB V)" "previous b \<noteq> head i" "head i \<noteq> 0"
proof -
  note D = retractableD[OF rt] and c = chains_okD[OF ch]
  show ca: "C a = head i # tl (C a)" using c(3,6)[OF D(1)] by (cases "C a") auto
  show pos: "position_ok (vB V) b (tl (C a))" using c(10)[of a] D(2) by (subst (asm) ca) simp
  have dm: "x \<in> dom (vB V)" if "x \<in> set (C a)" for x using c(9) that by blast
  have nz: "x \<noteq> 0" if "x \<in> dom (vB V)" for x using hs that unfolding hashes_ok_def by auto
  show e: "tl (C a) = [] \<longleftrightarrow> previous b = 0"
  proof (cases "tl (C a)")
    case (Cons p ps)
    have "p \<in> set (C a)" by (subst ca) (simp add: Cons)
    then show ?thesis using pos Cons dm nz by (simp add: position_ok_def)
  qed (use pos in \<open>simp add: position_ok_def\<close>)
  show t: "previous b \<noteq> 0 \<Longrightarrow> tl (C a) = previous b # tl (tl (C a))"
    using e pos by (cases "tl (C a)") (simp_all add: position_ok_def)
  show ni: "head i \<notin> set (tl (C a))" using c(7)[of a] by (subst (asm) ca) simp
  show hz: "head i \<noteq> 0" using nz D(2) by auto
  show "previous b \<noteq> head i" using t ni hz by (metis list.set_intros(1))
  show "previous b \<noteq> 0 \<Longrightarrow> previous b \<in> dom (vB V)" using t ca dm by (metis list.set_intros)
qed

lemma linked_hd_not_previous:
  "linked B S n (h # xs) \<Longrightarrow> distinct (h # xs) \<Longrightarrow> h \<noteq> 0 \<Longrightarrow> k \<in> set (h # xs) \<Longrightarrow> B k = Some b \<Longrightarrow> previous b \<noteq> h"
proof -
  assume l: "linked B S n (h # xs)" and d: "distinct (h # xs)" and h: "h \<noteq> 0" and k: "k \<in> set (h # xs)" and b: "B k = Some b"
  show "previous b \<noteq> h"
  proof (cases "k = h")
    case True
    then have "position_ok B b xs" using l b by auto
    then show ?thesis using h d by (cases xs) (auto simp: position_ok_def)
  next
    case False
    then have "k \<in> set xs" using k by simp
    moreover have "linked B S h xs" using l by simp
    ultimately have "previous b = 0 \<or> previous b \<in> set xs" using linked_previous b by metis
    then show ?thesis using h d by auto
  qed
qed

lemma retract_unreferenced:
  assumes ch: "chains_ok V C" and hs: "hashes_ok E V" and rc: "receipts_ok (genesis_account E) V C"
    and rt: "retractable E V a i b r v" and k: "vB V k = Some bk"
  shows "previous bk \<noteq> head i" "\<not> receives (genesis_account E) (vB V) bk (head i)" "source bk \<noteq> head i"
proof -
  note D = retractableD[OF rt] and c = chains_okD[OF ch] and R = retract_chain[OF ch hs rt]
  obtain x where x: "k \<in> set (C x)" using c(9)[of k] k by auto
  show "previous bk \<noteq> head i"
  proof (cases "x = a")
    case True
    then show ?thesis
      using linked_hd_not_previous[of "vB V" "vS V" 0 "head i" "tl (C a)" k bk] c(7,10)[of a] R(1,8) x k by metis
  next
    case False
    have "previous bk = 0 \<or> previous bk \<in> set (C x)" using linked_previous[OF c(10) x k] .
    moreover have "head i \<in> set (C a)" using R(1) by (metis list.set_intros(1))
    ultimately show ?thesis using False c(8)[of "head i"] R(8) by auto
  qed
  show nr: "\<not> receives (genesis_account E) (vB V) bk (head i)"
    using receipts_okD(1,2)[OF rc x k] D(2,7) by (metis option.inject)
  have "head i \<noteq> genesis_account E" using hs D(2) unfolding hashes_ok_def by auto
  then show "source bk \<noteq> head i" using nr R(8) by (cases bk) (auto simp: receives_def)
qed

section \<open>What is left is unchanged\<close>

lemma retract_walks:
  assumes inv: "ledger_inv E V C N" and rt: "retractable E V a i b r v"
  shows "bal_of (genesis_account E) (vB V) k x \<Longrightarrow> k \<noteq> head i \<Longrightarrow> bal_of (genesis_account E) ((vB V)(head i := None)) k x"
    "amt_of (genesis_account E) (vB V) k y \<Longrightarrow> k \<noteq> head i \<Longrightarrow> amt_of (genesis_account E) ((vB V)(head i := None)) k y"
    "rep_of (vB V) k z \<Longrightarrow> k \<noteq> head i \<Longrightarrow> rep_of ((vB V)(head i := None)) k z"
proof -
  have u: "unreferenced (vB V) (head i)"
    using retract_unreferenced[OF ledger_invD(2,1,6)[OF inv] rt] unfolding unreferenced_def by blast
  show "bal_of (genesis_account E) (vB V) k x \<Longrightarrow> k \<noteq> head i \<Longrightarrow> bal_of (genesis_account E) ((vB V)(head i := None)) k x"
    "amt_of (genesis_account E) (vB V) k y \<Longrightarrow> k \<noteq> head i \<Longrightarrow> amt_of (genesis_account E) ((vB V)(head i := None)) k y"
    "rep_of (vB V) k z \<Longrightarrow> k \<noteq> head i \<Longrightarrow> rep_of ((vB V)(head i := None)) k z"
    using bal_amt_remove[OF u] rep_of_remove[OF u] by blast+
qed

lemma retract_balance:
  assumes inv: "ledger_inv E V C N" and rt: "retractable E V a i b r v"
  shows "bal_of (genesis_account E) ((vB V)(head i := None)) k x \<longleftrightarrow> bal_of (genesis_account E) (vB V) k x \<and> k \<noteq> head i"
proof
  assume x: "bal_of (genesis_account E) ((vB V)(head i := None)) k x"
  then have k: "k \<in> dom (vB V)" "k \<noteq> head i" using bal_of_dom[OF x] by auto
  then obtain y where y: "bal_of (genesis_account E) (vB V) k y" using ledger_invD(4)[OF inv] unfolding values_ok_def by blast
  then show "bal_of (genesis_account E) (vB V) k x \<and> k \<noteq> head i"
    using retract_walks(1)[OF inv rt y k(2)] x k(2) bal_of_functional by metis
qed (use retract_walks(1)[OF inv rt] in blast)

lemma retract_flows:
  assumes inv: "ledger_inv E V C N" and rt: "retractable E V a i b r v" and k: "vB V k = Some bk"
  shows "sends_to (genesis_account E) ((vB V)(head i := None)) bk d = sends_to (genesis_account E) (vB V) bk d"
    "receives (genesis_account E) ((vB V)(head i := None)) bk src = receives (genesis_account E) (vB V) bk src"
proof -
  have "state_sends (genesis_account E) ((vB V)(head i := None)) tb = state_sends (genesis_account E) (vB V) tb" if "bk = State tb" for tb
    using retract_unreferenced(1)[OF ledger_invD(2,1,6)[OF inv] rt k] that
    unfolding state_sends_def retract_balance[OF inv rt] by auto
  then show "sends_to (genesis_account E) ((vB V)(head i := None)) bk d = sends_to (genesis_account E) (vB V) bk d"
    "receives (genesis_account E) ((vB V)(head i := None)) bk src = receives (genesis_account E) (vB V) bk src"
    by (cases bk; simp add: sends_to_def receives_def)+
qed

lemma retract_member:
  assumes inv: "ledger_inv E V C N" and rt: "retractable E V a i b r v"
  shows "k \<in> set ((C(a := tl (C a))) x) \<longleftrightarrow> k \<in> set (C x) \<and> k \<noteq> head i"
proof -
  note I = ledger_invD[OF inv] note R = retract_chain[OF I(2,1) rt]
  have "head i \<in> set (C a)" using R(1) by (metis list.set_intros(1))
  then show ?thesis using R(1,4) chains_okD(8)[OF I(2), of "head i" a x]
    by (metis fun_upd_other fun_upd_same list.set_intros(2) set_ConsD)
qed

lemma chains_retract:
  assumes inv: "ledger_inv E V C N" and rt: "retractable E V a i b r v"
  shows "chains_ok (v_retract T a i b r v P V) (C(a := tl (C a)))"
  unfolding chains_ok_def
proof (intro conjI allI impI)
  note I = ledger_invD[OF inv] note D = retractableD[OF rt] and c = chains_okD[OF I(2)] and R = retract_chain[OF I(2,1) rt]
  let ?V = "v_retract T a i b r v P V" and ?C = "C(a := tl (C a))"
  note mem = retract_member[OF inv rt]
  show "(vA ?V x = None) = (?C x = [])" for x using c(1)[of x] R(2) by (simp add: v_retract_sel)
  show "distinct (?C x)" for x using c(7)[of x] by (cases "x = a") (simp_all add: distinct_tl)
  show "x \<in> dom (vB ?V) \<longleftrightarrow> (\<exists>y. x \<in> set (?C y))" for x
    unfolding v_retract_sel mem using c(9)[of x] by auto
  show "x = y" if "k \<in> set (?C x)" "k \<in> set (?C y)" for x y k using that c(8) unfolding mem by blast
  show "owner_ok x bb" if "k \<in> set (?C x)" "vB ?V k = Some bb" for x k bb
    using that c(11)[of k x bb] unfolding mem by (simp add: v_retract_sel)
  show "linked (vB ?V) (vS ?V) 0 (?C x)" for x
  proof (cases "x = a")
    case True
    show ?thesis
    proof (cases "previous b = 0")
      case True
      then show ?thesis using \<open>x = a\<close> R(2) by simp
    next
      case False
      note t = R(5)[OF False]
      have l: "linked (vB V) (vS V) (head i) (tl (C a))" using c(10)[of a] by (subst (asm) R(1)) simp
      have ds: "previous b \<notin> set (tl (tl (C a)))" using c(7)[of a] t by (metis distinct.simps(2) distinct_tl)
      have nh: "head i \<notin> set (tl (tl (C a)))" using R(4) t by (metis list.set_intros(2))
      have "linked (vB ?V) (vS ?V) 0 (previous b # tl (tl (C a)))"
        by (rule linked_retop[where B = "vB V" and S = "vS V" and n = "head i"])
          (use l ds nh R(4,7) t False in \<open>auto simp: v_retract_sel\<close>)
      then show ?thesis using True t by simp
    qed
  next
    case False
    have "y \<noteq> head i \<and> (previous b \<noteq> 0 \<longrightarrow> y \<noteq> previous b)" if "y \<in> set (C x)" for y
      using that False c(8)[of y] R(1,5) by (metis list.set_intros)
    then show ?thesis using False c(10)[of x] by (auto intro!: linked_frame[of "vB V" "vS V" 0 "C x"] simp: v_retract_sel)
  qed
  fix x j assume j: "vA ?V x = Some j"
  show "x \<noteq> 0" using j c(2)[of x] D(1) by (auto simp: v_retract_sel split: if_splits)
  show "head j = hd (?C x)" using j c(3) R(5) by (auto simp: v_retract_sel split: if_splits) (metis list.sel(1))
  have la: "last (C a) = last (tl (C a))" if "previous b \<noteq> 0" using R(1,2) that by (metis last.simps)
  show "open_block j = last (?C x)"
    using j c(4) D(1) la by (auto simp: v_retract_sel split: if_splits)
  have "length (C a) = Suc (length (tl (C a)))" using R(1) by (metis length_Cons)
  then show "block_count j = of_nat (length (?C x))"
    using j c(5) D(1) by (auto simp: v_retract_sel split: if_splits)
qed

lemma values_retract:
  assumes inv: "ledger_inv E V C N" and rt: "retractable E V a i b r v"
  shows "values_ok (genesis_account E) (v_retract T a i b r v P V)"
proof -
  note I = ledger_invD[OF inv] note D = retractableD[OF rt] and W = retract_walks[OF inv rt] and R = retract_chain[OF I(2,1) rt]
  have "\<exists>x. bal_of (genesis_account E) ((vB V)(head i := None)) k x" if "k \<in> dom ((vB V)(head i := None))" for k
  proof -
    have k: "k \<in> dom (vB V)" "k \<noteq> head i" using that by (auto split: if_splits)
    then obtain x where "bal_of (genesis_account E) (vB V) k x" using I(4) unfolding values_ok_def by blast
    then show ?thesis using W(1) k(2) by blast
  qed
  moreover have "bal_of (genesis_account E) ((vB V)(head i := None)) (head j) (balance j)
      \<and> rep_of ((vB V)(head i := None)) (head j) (rep_block j)" if "vA V x = Some j" "x \<noteq> a" for x j
  proof -
    have "head j \<noteq> head i"
      using head_in_chain(1)[OF I(2) that(1)] head_in_chain(1)[OF I(2) D(1)] that(2) chains_okD(8)[OF I(2)] by metis
    then show ?thesis using I(4) that(1) W(1,3) unfolding values_ok_def by blast
  qed
  moreover have "bal_of (genesis_account E) ((vB V)(head i := None)) (previous b) v \<and> rep_of ((vB V)(head i := None)) (previous b) r"
    if "previous b \<noteq> 0" using W(1,3) D(5,6)[OF that] R(7) by blast
  ultimately show ?thesis unfolding values_ok_def v_retract_sel by (simp add: split: if_splits)
qed

lemma frontiers_retract:
  assumes inv: "ledger_inv E V C N" and rt: "retractable E V a i b r v"
  shows "frontiers_ok (v_retract T a i b r v P V)"
  unfolding frontiers_ok_def
proof (intro allI)
  note I = ledger_invD[OF inv] note D = retractableD[OF rt] and c = chains_okD[OF I(2)] and R = retract_chain[OF I(2,1) rt]
  let ?V = "v_retract T a i b r v P V"
  fix k x
  have F: "vF V k = Some x \<longleftrightarrow> (\<exists>i. vA V x = Some i \<and> head i = k \<and> \<not> state_at (vB V) k)" for k x
    using I(3) unfolding frontiers_ok_def by blast
  have st: "k \<noteq> head i \<Longrightarrow> state_at (vB ?V) k = state_at (vB V) k" by (simp add: v_retract_sel state_at_def)
  have other: "head j \<noteq> head i \<and> (previous b \<noteq> 0 \<longrightarrow> head j \<noteq> previous b)" if "vA V x = Some j" "x \<noteq> a" for j
    using head_in_chain(1)[OF I(2) that(1)] that(2) c(8)[of "head j" x a] R(1,5) by (metis list.set_intros)
  have a: "vA ?V a = (if previous b = 0 then None else Some (i\<lparr>head := previous b, rep_block := r, balance := v,
      modified := seconds_since_epoch T, block_count := block_count i - 1\<rparr>))" by (simp add: v_retract_sel)
  have fp: "vF V (previous b) = None" if "previous b \<noteq> 0"
  proof (rule ccontr)
    assume "vF V (previous b) \<noteq> None"
    then obtain y j where "vA V y = Some j" "head j = previous b" using F by fastforce
    then show False using that R(1,4,5,7) D(1) c(8)[of "previous b" y a] head_in_chain(1)[OF I(2)]
      by (metis list.set_intros option.inject)
  qed
  show "vF ?V k = Some x \<longleftrightarrow> (\<exists>j. vA ?V x = Some j \<and> head j = k \<and> \<not> state_at (vB ?V) k)"
  proof (cases "x = a")
    case True
    show ?thesis
    proof (cases "k = head i")
      case True
      then show ?thesis using \<open>x = a\<close> R(7) a by (auto simp: v_retract_sel split: if_splits)
    next
      case False
      then have "vF V k \<noteq> Some a" using F[of k a] D(1) by auto
      then show ?thesis using \<open>x = a\<close> a st False R(7) by (auto simp: v_retract_sel split: if_splits)
    qed
  next
    case False
    have A: "vA ?V x = vA V x" using False by (simp add: v_retract_sel)
    show ?thesis unfolding A using False F[of k x] other st fp R(7)
      by (cases "k = head i"; cases "k = previous b") (auto simp: v_retract_sel split: if_splits)
  qed
qed

lemma order_retract:
  assumes inv: "ledger_inv E V C N" and rt: "retractable E V a i b r v"
  shows "order_ok (genesis_account E) (v_retract T a i b r v P V) N"
  using ledger_invD(7)[OF inv] retract_flows(2)[OF inv rt] unfolding order_ok_def by (auto simp: v_retract_sel split: if_splits)

lemma moves_retract:
  assumes inv: "ledger_inv E V C N" and rt: "retractable E V a i b r v"
  shows "moves_ok (genesis_account E) (vB (v_retract T a i b r v P V))"
  unfolding moves_ok_def v_retract_sel
proof (intro allI impI)
  fix k bk u w
  note I = ledger_invD[OF inv]
  let ?g = "genesis_account E" and ?B = "(vB V)(head i := None)"
  assume k: "?B k = Some bk" and u: "bal_of ?g ?B k u" and w: "if previous bk = 0 then w = 0 else bal_of ?g ?B (previous bk) w"
  have k': "vB V k = Some bk" "k \<noteq> head i" using k by (auto split: if_splits)
  note fl = retract_flows[OF inv rt k'(1)] and rb = retract_balance[OF inv rt]
  have "amt_of ?g (vB V) x am" if rx: "receives ?g (vB V) bk x" "amt_of ?g ?B x am" for x am
  proof -
    obtain y where "k \<in> set (C y)" using chains_okD(9)[OF I(2), of k] k' by auto
    from receipts_okD(1)[OF I(6) this k'(1) rx(1)]
    obtain am' where am': "amt_of ?g (vB V) x am'" using sent_amount[OF I(2,1,4)] by blast
    moreover have "x \<noteq> head i" using retract_unreferenced(2)[OF I(2,1,6) rt k'(1)] rx(1) by blast
    ultimately show ?thesis using rx(2) retract_walks(2)[OF inv rt] amt_of_functional by metis
  qed
  moreover have "bal_of ?g (vB V) k u" "if previous bk = 0 then w = 0 else bal_of ?g (vB V) (previous bk) w"
    using u w rb by (auto split: if_splits)
  ultimately show "((\<exists>d. sends_to ?g ?B bk d) \<longrightarrow> u \<le> w)
      \<and> (\<forall>src am. receives ?g ?B bk src \<longrightarrow> amt_of ?g ?B src am \<longrightarrow> unat u = unat w + unat am)
      \<and> (\<not> is_genesis ?g bk \<longrightarrow> (\<nexists>d. sends_to ?g ?B bk d) \<longrightarrow> (\<nexists>src. receives ?g ?B bk src) \<longrightarrow> u = w)"
    unfolding fl using I(13) k'(1) unfolding moves_ok_def by meson
qed

lemma flow_backE:
  assumes "flow_back g V C a h b P"
  obtains (send) d where "sends_to g (vB V) b d" "P = (vP V)(Pending_key d h := None)" "\<And>src. \<not> receives g (vB V) b src"
  | (receive) src am x where "receives g (vB V) b src" "amt_of g (vB V) src am" "src \<in> set (C x)"
      "P = (vP V)(Pending_key a src \<mapsto> \<lparr>pending_source = x, pending_amount = am\<rparr>)" "\<And>d. \<not> sends_to g (vB V) b d"
  | (none) "\<And>d. \<not> sends_to g (vB V) b d" "\<And>src. \<not> receives g (vB V) b src" "P = vP V"
  using assms sends_not_receives unfolding flow_back_def by blast

text \<open>The entries of the new pending table are old ones, or the one given back.\<close>

lemma back_pending:
  assumes inv: "ledger_inv E V C N" and rt: "retractable E V a i b r v" and fb: "flow_back (genesis_account E) V C a (head i) b P"
    and p: "P (Pending_key d k) = Some p"
  obtains (old) "vP V (Pending_key d k) = Some p" "k \<noteq> head i"
  | (given) "receives (genesis_account E) (vB V) b k" "d = a" "amt_of (genesis_account E) (vB V) k (pending_amount p)"
      "k \<in> set (C (pending_source p))" "k \<noteq> head i"
proof -
  note I = ledger_invD[OF inv] note D = retractableD[OF rt]
  have own: "sends_to (genesis_account E) (vB V) b d" if "vP V (Pending_key d (head i)) = Some q" for q
    using pending_okD(1)[OF I(5) that] D(2) by simp
  have nr: "\<not> receives (genesis_account E) (vB V) b (head i)" by (rule retract_unreferenced(2)[OF I(2,1,6) rt D(2)])
  from fb show ?thesis
  proof (cases rule: flow_backE)
    case (send d0)
    then have "vP V (Pending_key d k) = Some p" using p by (simp split: if_splits)
    moreover from this have "k \<noteq> head i" using own send p sends_to_functional by (auto split: if_splits)
    ultimately show ?thesis by (rule old)
  next
    case (receive src am x)
    show ?thesis
    proof (cases "d = a \<and> k = src")
      case True
      then have "p = \<lparr>pending_source = x, pending_amount = am\<rparr>" using p receive(4) by simp
      then show ?thesis using True receive(1-3) nr by (intro given) auto
    next
      case False
      then have "vP V (Pending_key d k) = Some p" using p receive(4) by auto
      then show ?thesis using own receive(5) old by blast
    qed
  next
    case none
    then show ?thesis using own p old by blast
  qed
qed

lemma pending_retract:
  assumes inv: "ledger_inv E V C N" and rt: "retractable E V a i b r v" and fb: "flow_back (genesis_account E) V C a (head i) b P"
  shows "pending_ok (genesis_account E) (v_retract T a i b r v P V) (C(a := tl (C a)))"
  unfolding pending_ok_def v_retract_sel retract_member[OF inv rt]
proof (intro allI impI)
  fix d k p
  note I = ledger_invD[OF inv] note D = retractableD[OF rt]
  let ?g = "genesis_account E" and ?B = "(vB V)(head i := None)"
  assume "P (Pending_key d k) = Some p"
  with inv rt fb have *: "(\<exists>bk. vB V k = Some bk \<and> sends_to ?g (vB V) bk d) \<and> amt_of ?g (vB V) k (pending_amount p)
      \<and> k \<in> set (C (pending_source p)) \<and> k \<noteq> head i"
  proof (cases rule: back_pending)
    case old
    then show ?thesis using pending_okD[OF I(5)] by blast
  next
    case given
    have "head i \<in> set (C a)" by (rule head_in_chain(1)[OF I(2) D(1)])
    then show ?thesis using receipts_okD(1)[OF I(6) _ D(2) given(1)] given by blast
  qed
  then show "(\<exists>bk. ?B k = Some bk \<and> sends_to ?g ?B bk d) \<and> amt_of ?g ?B k (pending_amount p)
      \<and> k \<in> set (C (pending_source p)) \<and> k \<noteq> head i"
    using retract_flows(1)[OF inv rt] retract_walks(2)[OF inv rt] by auto
qed

lemma back_none:
  assumes inv: "ledger_inv E V C N" and rt: "retractable E V a i b r v" and fb: "flow_back (genesis_account E) V C a (head i) b P"
    and k: "k \<noteq> head i" and p: "P (Pending_key d k) = None"
  shows "vP V (Pending_key d k) = None" "\<not> (d = a \<and> receives (genesis_account E) (vB V) b k)"
  using fb k p by (cases rule: flow_backE; auto split: if_splits dest: receives_functional)+

lemma receipts_retract:
  assumes inv: "ledger_inv E V C N" and rt: "retractable E V a i b r v" and fb: "flow_back (genesis_account E) V C a (head i) b P"
  shows "receipts_ok (genesis_account E) (v_retract T a i b r v P V) (C(a := tl (C a)))"
  unfolding receipts_ok_def v_retract_sel retract_member[OF inv rt]
proof (intro conjI allI impI)
  note I = ledger_invD[OF inv] note D = retractableD[OF rt] and un = retract_unreferenced(2)[OF I(2,1,6) rt]
    and fl = retract_flows[OF inv rt]
  let ?g = "genesis_account E" and ?B = "(vB V)(head i := None)"
  have old: "vB V k = Some bk" "k \<noteq> head i" if "?B k = Some bk" for k bk using that by (auto split: if_splits)
  have ha: "head i \<in> set (C a)" by (rule head_in_chain(1)[OF I(2) D(1)])
  {
    fix x k bk src assume k: "k \<in> set (C x) \<and> k \<noteq> head i" and bk: "?B k = Some bk" and r: "receives ?g ?B bk src"
    note bk' = old[OF bk]
    have r': "receives ?g (vB V) bk src" using r fl(2)[OF bk'(1)] by simp
    obtain sb where sb: "vB V src = Some sb" "sends_to ?g (vB V) sb x" using receipts_okD(1)[OF I(6) _ bk'(1) r'] k by blast
    have src: "src \<noteq> head i" using un[OF bk'(1)] r' by blast
    then show "\<exists>sb. ?B src = Some sb \<and> sends_to ?g ?B sb x" using sb fl(1)[OF sb(1)] by auto
    show "P (Pending_key x src) = None"
    proof (rule ccontr)
      assume "P (Pending_key x src) \<noteq> None"
      then obtain p where "P (Pending_key x src) = Some p" by blast
      with inv rt fb show False
      proof (cases rule: back_pending)
        case old
        then show False using receipts_okD(2)[OF I(6) _ bk'(1) r'] k by auto
      next
        case given
        then show False using receipts_okD(3)[OF I(6) bk'(1) D(2) r'] k by blast
      qed
    qed
  }
  {
    fix k k' bk bk' src assume k: "?B k = Some bk" "?B k' = Some bk'" "receives ?g ?B bk src" "receives ?g ?B bk' src"
    show "k = k'" using receipts_okD(3)[OF I(6) old(1)[OF k(1)] old(1)[OF k(2)]] k(3,4) fl(2) old(1) k(1,2) by metis
  }
  {
    fix k bk d assume k: "?B k = Some bk" and s: "sends_to ?g ?B bk d" and p: "P (Pending_key d k) = None"
    note bk = old[OF k] and n = back_none[OF inv rt fb old(2)[OF k] p]
    have "sends_to ?g (vB V) bk d" using s fl(1)[OF bk(1)] by simp
    from receipts_okD(4)[OF I(6) bk(1) this n(1)]
    obtain k' bk' where k': "k' \<in> set (C d)" "vB V k' = Some bk'" "receives ?g (vB V) bk' k" by blast
    have "k' \<noteq> head i"
    proof
      assume "k' = head i"
      then have "bk' = b" "d = a" using k' D(2) ha chains_okD(8)[OF I(2)] by auto
      then show False using n(2) k'(3) by blast
    qed
    then have "k' \<in> set ((C(a := tl (C a))) d)" "?B k' = Some bk'" "receives ?g ?B bk' k"
      using k' retract_member[OF inv rt] fl(2)[OF k'(2)] by simp_all
    then show "\<exists>h'\<in>set ((C(a := tl (C a))) d). \<exists>b'. ?B h' = Some b' \<and> receives ?g ?B b' k" by blast
  }
qed

lemma infos_retract:
  assumes inv: "ledger_inv E V C N" and rt: "retractable E V a i b r v"
  shows "infos_ok E (v_retract T a i b r v P V) (C(a := tl (C a)))"
proof -
  note I = ledger_invD[OF inv] note D = retractableD[OF rt] and c = chains_okD[OF I(2)] and R = retract_chain[OF I(2,1) rt]
    and inf = infos_okD[OF I(8)] and mem = retract_member[OF inv rt] and rb = retract_balance[OF inv rt]
  let ?V = "v_retract T a i b r v P V" and ?C = "C(a := tl (C a))" and ?p = "previous b"
  define every where "every \<longleftrightarrow> ?p \<noteq> 0 \<and> (block_count i - 1) mod block_info_max = 0"
  define I1 where "I1 = (if every then (vI V)(?p \<mapsto> \<lparr>info_account = a, info_balance = v\<rparr>) else vI V)"
  have vI: "vI ?V = (if \<not> is_state b \<and> block_count i mod block_info_max = 0 then I1(head i := None) else I1)"
    by (simp add: v_retract_def Let_def I1_def every_def)
  have cnt: "block_count i = of_nat (Suc (length (tl (C a))))" using c(5)[OF D(1)] R(1) by (metis length_Cons)
  have vk: "vI ?V k = I1 k" if "k \<noteq> head i" for k using that vI by simp
  have pin: "?p \<in> set (C a)" if "?p \<noteq> 0" using R(1) R(5)[OF that] by (metis list.set_intros)
  have "bal_of (genesis_account E) (vB ?V) k (info_balance j) \<and> k \<in> set (?C (info_account j))"
    if j: "vI ?V k = Some j" and bk: "vB ?V k = Some bk" "\<not> is_state bk" for k bk j
  proof -
    have k: "k \<noteq> head i" "vB V k = Some bk" using bk(1) by (auto simp: v_retract_sel split: if_splits)
    have "I1 k = Some j" using j vk[OF k(1)] by simp
    then have "bal_of (genesis_account E) (vB V) k (info_balance j) \<and> k \<in> set (C (info_account j))"
      using inf(1)[OF _ k(2) bk(2)] D(5) pin every_def unfolding I1_def by (auto split: if_splits)
    then show ?thesis unfolding v_retract_sel mem rb using k(1) by blast
  qed
  moreover have "vI ?V k \<noteq> None \<longleftrightarrow> (of_nat (Suc (length ys)) :: u64) mod block_info_max = 0"
    if split: "?C x = xs @ k # ys" and leg: "\<not> state_at (vB ?V) k" for x xs k ys
  proof -
    have "k \<in> set (?C x)" using split by simp
    then have k: "k \<noteq> head i" "k \<in> set (C x)" using mem by blast+
    have leg': "\<not> state_at (vB V) k" using leg k(1) by (simp add: v_retract_sel state_at_def)
    have "C x = (if x = a then head i # xs else xs) @ k # ys"
    proof (cases "x = a")
      case True
      then show ?thesis using split by (subst True, subst R(1)) simp
    qed (use split in simp)
    then obtain zs where zs: "C x = zs @ k # ys" by blast
    have ys: "?p \<noteq> 0 \<Longrightarrow> k = ?p \<Longrightarrow> ys = tl (tl (C a))"
    proof -
      assume pk: "?p \<noteq> 0" "k = ?p"
      then have "x = a" using pin k(2) c(8) by blast
      then have "xs @ k # ys = ?p # tl (tl (C a))" using split R(5)[OF pk(1)] by simp
      moreover have "?p \<notin> set (tl (tl (C a)))" using c(7)[of a] R(5)[OF pk(1)] by (metis distinct.simps(2) distinct_tl)
      ultimately show ?thesis using pk(2) \<open>x = a\<close> by (cases xs) (simp, metis append_Cons in_set_conv_decomp list.inject)
    qed
    have n: "block_count i - 1 = of_nat (Suc (length (tl (tl (C a)))))" if "?p \<noteq> 0"
      using cnt R(5)[OF that] by (metis add_diff_cancel_left' length_Cons of_nat_Suc)
    show ?thesis
    proof (cases "every \<and> k = ?p")
      case True
      then have "(of_nat (Suc (length ys)) :: u64) mod block_info_max = 0" using n ys every_def by metis
      moreover have "I1 k = Some \<lparr>info_account = a, info_balance = v\<rparr>" unfolding I1_def using True by simp
      ultimately show ?thesis using vk[OF k(1)] by (metis option.distinct(1))
    next
      case False
      then have "I1 k = vI V k" unfolding I1_def by simp
      then show ?thesis using inf(2)[OF zs leg'] vk[OF k(1)] by metis
    qed
  qed
  moreover have "\<exists>tb. block_hash E (State tb) = k" if k: "k \<in> dom (vI ?V)" "k \<notin> dom (vB ?V)" for k
  proof (cases "k = head i")
    case True
    have "vI V (head i) \<noteq> None" "is_state b \<or> block_count i mod block_info_max \<noteq> 0"
      using k(1) True R(7) unfolding vI I1_def by (auto split: if_splits)
    moreover have "C a = [] @ head i # tl (C a)" using R(1) by simp
    ultimately have "is_state b" using inf(2)[of a "[]" "head i" "tl (C a)"] D(2) cnt by (auto simp: state_at_def)
    moreover have "block_hash E b = head i" using I(1) D(2) unfolding hashes_ok_def by blast
    ultimately show ?thesis using True by (cases b) auto
  next
    case False
    then have "k \<in> dom I1" "k \<notin> dom (vB V)" using k vk[of k] by (auto simp: v_retract_sel)
    then show ?thesis using inf(3)[of k] R(6) every_def unfolding I1_def by (auto split: if_splits)
  qed
  moreover have "vI ?V 1 = None"
  proof -
    have "?p \<noteq> 1" using R(6) I(1) unfolding hashes_ok_def by (cases "?p = 0") auto
    then show ?thesis using inf(4) unfolding vI I1_def by auto
  qed
  ultimately show ?thesis unfolding infos_ok_def by blast
qed

lemma weights_retract:
  assumes inv: "ledger_inv E V C N" and rt: "retractable E V a i b r v"
  shows "weights_ok (v_retract T a i b r v P V)"
  unfolding weights_ok_def
proof
  fix x
  note I = ledger_invD[OF inv] note D = retractableD[OF rt]
  let ?V = "v_retract T a i b r v P V" and ?B = "(vB V)(head i := None)"
  define f g where "f = (\<lambda>j :: account_info. if rep_account (vB V) (rep_block j) = x then balance j else 0)"
    and "g = (\<lambda>j :: account_info. if rep_account ?B (rep_block j) = x then balance j else 0)"
  have fin: "finite (dom (vA V))" using I(12) unfolding finite_ok_def by blast
  have R: "vR V y = delegated V y" for y using I(9) unfolding weights_ok_def by blast
  have fg: "g j = f j" if "vA ?V y = Some j" for y j
  proof -
    have "rep_of ?B (head j) (rep_block j)" using values_retract[OF inv rt] that unfolding values_ok_def v_retract_sel by blast
    then have "rep_block j \<noteq> head i" using rep_of_dom by fastforce
    then show ?thesis by (simp add: f_def g_def rep_account_def)
  qed
  have "delegated ?V x = msum g (vA ?V)" by (simp add: delegated_def g_def v_retract_sel)
  also have "\<dots> = msum f (vA ?V)" using fg by (intro msum_cong)
  also have "\<dots> = msum f (vA V) - f i + (if previous b = 0 then 0 else if rep_account (vB V) r = x then v else 0)"
  proof (cases "previous b = 0")
    case True
    have "msum f (vA V) = f i + msum f ((vA V)(a := None))" using fin D(1) by (intro msum_remove)
    then show ?thesis using True by (simp add: v_retract_sel)
  next
    case False
    let ?j = "i\<lparr>head := previous b, rep_block := r, balance := v, modified := seconds_since_epoch T, block_count := block_count i - 1\<rparr>"
    have "msum f ((vA V)(a \<mapsto> ?j)) + f i = msum f (vA V) + f ?j" using fin D(1) by (intro msum_replace)
    then have "msum f ((vA V)(a \<mapsto> ?j)) = msum f (vA V) + f ?j - f i" by (simp add: eq_diff_eq)
    then show ?thesis using False by (simp add: v_retract_sel f_def)
  qed
  also have "\<dots> = vR ?V x" using R by (auto simp: v_retract_def Let_def delegated_def f_def)
  finally show "vR ?V x = delegated ?V x" ..
qed

lemma checksum_retract:
  assumes inv: "ledger_inv E V C N" and rt: "retractable E V a i b r v"
  shows "checksum_ok (v_retract T a i b r v P V)"
proof -
  note I = ledger_invD[OF inv] note D = retractableD[OF rt]
  have fin: "finite (dom (vA V))" using I(12) unfolding finite_ok_def by blast
  have k: "vK V = Some (xor_heads (vA V))" using I(11) unfolding checksum_ok_def .
  have rm: "xor_heads (vA V) = xor_heads ((vA V)(a := None)) XOR head i"
    using xor_heads_insert[of "(vA V)(a := None)" a i] fin fun_upd_idem[where f = "vA V", OF D(1)] by simp
  show ?thesis
  proof (cases "previous b = 0")
    case True
    have "(xor_heads (vA V) XOR head i) XOR previous b = xor_heads ((vA V)(a := None))"
      unfolding True by (subst rm) (simp add: xor.assoc)
    then show ?thesis unfolding checksum_ok_def v_retract_sel k using True by simp
  next
    case False
    then show ?thesis unfolding checksum_ok_def v_retract_sel k by (simp add: xor_heads_insert[OF fin] D(1))
  qed
qed

text \<open>The amount of a send is the difference to the balance before it.\<close>

lemma sent_difference:
  assumes b: "B h = Some b" "0 \<notin> dom B" and s: "sends_to g B b d" and am: "amt_of g B h am"
    and u: "bal_of g B h u" and w: "bal_of g B (previous b) w" and le: "u \<le> w"
  shows "unat w = unat u + unat am"
proof -
  have "am = abs_diff u w"
  proof (cases b)
    case (Send sb)
    have at: "B h = Some (Send sb)" using b(1) Send by simp
    obtain x where "bal_of g B (previous b) x" "am = abs_diff (s_balance (send_hashables sb)) x"
      using am Send unfolding amt_of_at(1)[where B = B, OF at] by auto
    then show ?thesis using u bal_of_functional[OF w] unfolding bal_of_at(1)[where B = B, OF at] by blast
  next
    case (State tb)
    have at: "B h = Some (State tb)" using b(1) State by simp
    have "st_previous (state_hashables tb) \<noteq> 0" using bal_of_dom[OF w] b(2) State by auto
    then obtain x where "bal_of g B (previous b) x" "am = abs_diff (st_balance (state_hashables tb)) x"
      using am State unfolding amt_of_at(5)[where B = B, OF at] by auto
    then show ?thesis using u bal_of_functional[OF w] unfolding bal_of_at(5)[where B = B, OF at] by blast
  qed (use s in \<open>simp_all add: sends_to_def\<close>)
  then have "am = w - u" using le by (auto simp: abs_diff_def)
  then show ?thesis using unat_word_sub[OF le] by simp
qed

lemma retract_move:
  assumes inv: "ledger_inv E V C N" and rt: "retractable E V a i b r v"
  shows "sends_to (genesis_account E) (vB V) b d \<Longrightarrow> amt_of (genesis_account E) (vB V) (head i) am \<Longrightarrow>
      previous b \<noteq> 0 \<and> unat v = unat (balance i) + unat am"
    "receives (genesis_account E) (vB V) b src \<Longrightarrow> amt_of (genesis_account E) (vB V) src am \<Longrightarrow>
      unat (balance i) = unat v + unat am"
    "(\<And>d. \<not> sends_to (genesis_account E) (vB V) b d) \<Longrightarrow> (\<And>src. \<not> receives (genesis_account E) (vB V) b src) \<Longrightarrow> balance i = v"
proof -
  note I = ledger_invD[OF inv] note D = retractableD[OF rt]
  let ?g = "genesis_account E"
  have u: "bal_of ?g (vB V) (head i) (balance i)" using I(4) D(1) unfolding values_ok_def by blast
  have w: "if previous b = 0 then v = 0 else bal_of ?g (vB V) (previous b) v" using D(4,5) by simp
  note mv = I(13)[unfolded moves_ok_def, rule_format, OF D(2) u w]
  have z: "0 \<notin> dom (vB V)" using I(1) unfolding hashes_ok_def by auto
  show "receives ?g (vB V) b src \<Longrightarrow> amt_of ?g (vB V) src am \<Longrightarrow> unat (balance i) = unat v + unat am"
    "(\<And>d. \<not> sends_to ?g (vB V) b d) \<Longrightarrow> (\<And>src. \<not> receives ?g (vB V) b src) \<Longrightarrow> balance i = v"
    using mv D(3) by blast+
  assume s: "sends_to ?g (vB V) b d" and am: "amt_of ?g (vB V) (head i) am"
  obtain w' where p: "previous b \<noteq> 0" "bal_of ?g (vB V) (previous b) w'" using sent_amount[OF I(2,1,4) D(2) s] by blast
  have "unat v = unat (balance i) + unat am"
    using sent_difference[OF D(2) z s am u] D(5)[OF p(1)] mv s by blast
  then show "previous b \<noteq> 0 \<and> unat v = unat (balance i) + unat am" using p(1) by blast
qed

lemma supply_retract:
  assumes inv: "ledger_inv E V C N" and rt: "retractable E V a i b r v" and fb: "flow_back (genesis_account E) V C a (head i) b P"
  shows "supply_ok (v_retract T a i b r v P V)"
proof -
  note I = ledger_invD[OF inv] note D = retractableD[OF rt] and mv = retract_move[OF inv rt]
  let ?V = "v_retract T a i b r v P V" and ?f = "\<lambda>i :: account_info. unat (balance i)" and ?p = "\<lambda>p :: pending_info. unat (pending_amount p)"
  have fin: "finite (dom (vA V))" "finite (dom (vP V))" using I(12) unfolding finite_ok_def by blast+
  have A: "msum ?f (vA ?V) + unat (balance i) = msum ?f (vA V) + unat v"
  proof (cases "previous b = 0")
    case True
    have "msum ?f (vA V) = ?f i + msum ?f ((vA V)(a := None))" using fin D(1) by (intro msum_remove)
    then show ?thesis using True D(4) by (simp add: v_retract_sel)
  next
    case False
    let ?j = "i\<lparr>head := previous b, rep_block := r, balance := v, modified := seconds_since_epoch T, block_count := block_count i - 1\<rparr>"
    have "msum ?f ((vA V)(a \<mapsto> ?j)) + ?f i = msum ?f (vA V) + ?f ?j" using fin D(1) by (intro msum_replace)
    then show ?thesis using False by (simp add: v_retract_sel)
  qed
  from fb have "msum ?p P + unat v = msum ?p (vP V) + unat (balance i)"
  proof (cases rule: flow_backE)
    case (send d)
    then obtain q where q: "vP V (Pending_key d (head i)) = Some q" using D(7) by blast
    have "msum ?p (vP V) = ?p q + msum ?p P" unfolding send(2) using fin(2) q by (intro msum_remove)
    then show ?thesis using mv(1)[OF send(1) pending_okD(2)[OF I(5) q]] by simp
  next
    case (receive src am x)
    have "vP V (Pending_key a src) = None"
      using receipts_okD(2)[OF I(6) head_in_chain(1)[OF I(2) D(1)] D(2) receive(1)] .
    then have "msum ?p P = am0 + msum ?p (vP V)" if "am0 = unat am" for am0
      unfolding receive(4) using fin(2) that by (subst msum_insert) auto
    then show ?thesis using mv(2)[OF receive(1,2)] by simp
  next
    case none
    then show ?thesis using mv(3) by simp
  qed
  then show ?thesis using A I(10) unfolding supply_ok_def total_supply_def v_retract_sel(4) by linarith
qed

theorem ledger_inv_retract:
  assumes inv: "ledger_inv E V C N" and rt: "retractable E V a i b r v" and fb: "flow_back (genesis_account E) V C a (head i) b P"
  shows "ledger_inv E (v_retract T a i b r v P V) (C(a := tl (C a))) N"
proof -
  note I = ledger_invD[OF inv]
  have hs: "hashes_ok E (v_retract T a i b r v P V)" using I(1) unfolding hashes_ok_def v_retract_sel by (auto split: if_splits)
  have "finite (dom P)" using fb by (cases rule: flow_backE) (use I(12) in \<open>auto simp: finite_ok_def\<close>)
  then have "finite_ok (v_retract T a i b r v P V)" using I(12) by (auto simp: finite_ok_def v_retract_def Let_def)
  then show ?thesis
    unfolding ledger_inv_def
    using hs chains_retract[OF inv rt] frontiers_retract[OF inv rt] values_retract[OF inv rt] pending_retract[OF inv rt fb]
      receipts_retract[OF inv rt fb] order_retract[OF inv rt] infos_retract[OF inv rt] weights_retract[OF inv rt]
      supply_retract[OF inv rt fb] checksum_retract[OF inv rt] moves_retract[OF inv rt] by blast
qed

end
