(* ===== verification/Rai_Rollback.thy ===== *)
theory Rai_Rollback
  imports Rai_Ledger_Undo
begin

text \<open>
  Rolling back: every handler of \<open>rollback_visitor\<close> takes exactly the newest block of an account
  off its chain, the account of a block is found by \<open>account\<close>, and \<open>rollback\<close> ends, removes
  the block it is asked to remove and keeps the invariant of the ledger.
\<close>


section \<open>The account of a block\<close>

text \<open>
  The weights may be off by a given amount while a handler runs: a state block gives its weight
  back before the blocks that depend on it are rolled back.
\<close>

definition shift :: "(u256 \<Rightarrow> u128) \<Rightarrow> block_store \<Rightarrow> block_store" where
  "shift W s = s\<lparr>representation := (\<lambda>x. Some (representation_get s x - W x))\<rparr>"

lemma shift_sel [simp]:
  "dbs (shift W s) = dbs s" "accounts (shift W s) = accounts s" "frontiers (shift W s) = frontiers s"
  "pending (shift W s) = pending s" "blocks_info (shift W s) = blocks_info s" "checksum (shift W s) = checksum s"
  "representation_get (shift W s) = (\<lambda>x. representation_get s x - W x)"
  by (simp_all add: shift_def representation_get_def fun_eq_iff)

lemma frontier_get_shift [simp]: "frontier_get (shift W s) h = frontier_get s h"
  by (simp add: frontier_get_def)

lemma shift_0: "view_of (shift (\<lambda>_. 0) s) = view_of s"
  by (intro view_eqI) simp_all

lemma linked_at:
  "linked B S n (zs @ h # ys) \<Longrightarrow> S h = Some (if zs = [] then n else last zs)"
  by (induction zs arbitrary: n) auto

text \<open>
  \<open>account\<close> walks up the chain and ends at a state block, at a block with a \<open>block_info\<close> or at
  the head; each names the account.
\<close>

lemma account_loop_correct:
  assumes wf: "dbs_wf (dbs s)" and inv: "ledger_inv E (view_of (shift W s)) C N"
  shows "C a = zs @ h # ys \<Longrightarrow> blk (dbs s) h = Some b \<Longrightarrow> succ_a = 1 \<or> succ_a = h \<Longrightarrow>
    \<exists>h' succ' b' info'. account_loop s h succ_a b = Some (h', succ', b', info') \<and>
      (case b' of State tb \<Rightarrow> st_account (state_hashables tb) = a
       | _ \<Rightarrow> if succ' = 0 then frontier_get s h' = a else map_option info_account info' = Some a)"
proof (induction zs arbitrary: h ys b succ_a rule: rev_induct)
  note I = ledger_invD[OF inv] note c = chains_okD[OF ledger_invD(2)[OF inv]] and inf = infos_okD[OF ledger_invD(8)[OF inv]]
  {
    fix h b and succ_a :: u256 and rest
    assume h: "h \<in> set (C a)" "blk (dbs s) h = Some b" "succ_a = 1 \<or> succ_a = h"
    have nz: "succ_a \<noteq> 0" using h(2,3) I(1) unfolding hashes_ok_def by auto
    have "account_loop s h succ_a b = Some (h, succ_a, b, if succ_a \<noteq> 0 \<and> type_of b \<noteq> Bt_state then block_info_get s succ_a else None)
        \<and> (case b of State tb \<Rightarrow> st_account (state_hashables tb) = a
           | _ \<Rightarrow> map_option info_account (block_info_get s succ_a) = Some a)"
      if st: "is_state b \<or> block_info_get s succ_a \<noteq> None"
    proof (cases "is_state b")
      case True
      have "owner_ok a b" using c(11)[OF h(1)] h(2) by simp
      with True show ?thesis by (subst account_loop.simps) (cases b; simp add: owner_ok_def)
    next
      case False
      then obtain j where j: "blocks_info s succ_a = Some j" using st by (auto simp: block_info_get_def)
      have "succ_a = h" using h(3) j inf(4) by auto
      then have "h \<in> set (C (info_account j))" using inf(1)[of h j b] j h(2) False by simp
      then have "info_account j = a" using c(8) h(1) by blast
      then show ?thesis using False j nz by (subst account_loop.simps) (cases b; simp add: block_info_get_def)
    qed
    note stop = this
    have "\<exists>h' succ' b' info'. account_loop s h succ_a b = Some (h', succ', b', info') \<and>
      (case b' of State tb \<Rightarrow> st_account (state_hashables tb) = a
       | _ \<Rightarrow> if succ' = 0 then frontier_get s h' = a else map_option info_account info' = Some a)"
      if "is_state b \<or> block_info_get s succ_a \<noteq> None"
      using stop[OF that] nz by (cases b) auto
  }
  note stop = this
  {
    case Nil
    then have h: "h \<in> set (C a)" by simp
    show ?case
    proof (cases "is_state b \<or> block_info_get s succ_a \<noteq> None")
      case True
      then show ?thesis using stop[OF h Nil(2,3)] by blast
    next
      case False
      have nz: "succ_a \<noteq> 0" using Nil(2,3) I(1) unfolding hashes_ok_def by auto
      have "suc (dbs s) h = Some 0" using linked_at[of "blk (dbs s)" "suc (dbs s)" 0 "[]" h ys] c(10)[of a] Nil(1) by simp
      then have "block_successor s h = Some 0" using block_successor_suc[OF wf] by simp
      then have "account_loop s h succ_a b = account_loop s h 0 b"
        using False nz by (subst account_loop.simps) (simp add: is_state_def)
      also have "\<dots> = Some (h, 0, b, None)" by (subst account_loop.simps) simp
      finally have r: "account_loop s h succ_a b = Some (h, 0, b, None)" .
      obtain i where i: "accounts s a = Some i" using c(1)[of a] Nil(1) by (cases "accounts s a") auto
      have "head i = h" using c(3)[of a i] i Nil(1) by simp
      moreover have "\<not> state_at (blk (dbs s)) h" using False Nil(2) by (simp add: state_at_def)
      ultimately have "frontier_get s h = a" using head_frontier(2)[OF inv, of a i] i by simp
      then show ?thesis using r False by (cases b) auto
    qed
  next
    case (snoc k zs)
    then have h: "h \<in> set (C a)" by simp
    show ?case
    proof (cases "is_state b \<or> block_info_get s succ_a \<noteq> None")
      case True
      then show ?thesis using stop[OF h snoc(3,4)] by blast
    next
      case False
      have nz: "succ_a \<noteq> 0" using snoc(3,4) I(1) unfolding hashes_ok_def by auto
      have "suc (dbs s) h = Some k" using linked_at[of "blk (dbs s)" "suc (dbs s)" 0 "zs @ [k]" h ys] c(10)[of a] snoc(2) by simp
      then have sk: "block_successor s h = Some k" using block_successor_suc[OF wf] by simp
      have "k \<in> set (C a)" using snoc(2) by simp
      then have "k \<in> dom (blk (dbs s))" using c(9)[of k] by auto
      then obtain bk where bk: "blk (dbs s) k = Some bk" by blast
      then have "k \<noteq> 0" using I(1) unfolding hashes_ok_def by auto
      then have "account_loop s h succ_a b = account_loop s k k bk"
        using False nz sk bk by (subst account_loop.simps) (simp add: is_state_def block_get_blk[OF wf])
      then show ?thesis using snoc(1)[of k "h # ys" bk k] snoc(2) bk by simp
    qed
  }
qed

lemma ledger_account_shift:
  assumes wf: "dbs_wf (dbs s)" and inv: "ledger_inv E (view_of (shift W s)) C N" and h: "h \<in> set (C a)"
  shows "ledger_account s h = Some a"
proof -
  note c = chains_okD[OF ledger_invD(2)[OF inv]]
  obtain zs ys where ca: "C a = zs @ h # ys" using h by (meson split_list)
  have "h \<in> dom (blk (dbs s))" using c(9)[of h] h by auto
  then obtain b where b: "blk (dbs s) h = Some b" by blast
  have "C a \<noteq> []" using ca by simp
  then have "a \<noteq> 0" using c(1,2)[of a] by fastforce
  moreover obtain h' succ' b' info' where "account_loop s h 1 b = Some (h', succ', b', info')"
      "case b' of State tb \<Rightarrow> st_account (state_hashables tb) = a
       | _ \<Rightarrow> if succ' = 0 then frontier_get s h' = a else map_option info_account info' = Some a"
    using account_loop_correct[OF wf inv ca b, of 1] by blast
  ultimately show ?thesis
    using b by (cases b') (simp_all add: ledger_account_def block_get_blk[OF wf] split: if_splits)
qed

lemma ledger_account_correct:
  assumes "dbs_wf (dbs s)" "ledger_inv E (view_of s) C N" "h \<in> set (C a)"
  shows "ledger_account s h = Some a"
  using ledger_account_shift[of s E "\<lambda>_. 0"] assms by (simp add: shift_0)

section \<open>What a handler has to do\<close>

lemma linked_rep:
  "linked B S n xs \<Longrightarrow> h \<in> set xs \<Longrightarrow> \<exists>r. rep_of B h r"
proof (induction xs arbitrary: n h)
  case (Cons x xs)
  then obtain b where b: "B x = Some b" "position_ok B b xs" by auto
  show ?case
  proof (cases "h = x")
    case True
    show ?thesis
    proof (cases xs)
      case Nil
      then show ?thesis using b True rep_open[of B x] rep_state[of B x] by (cases b) (auto simp: position_ok_def)
    next
      case (Cons p ps)
      have "linked B S x xs" "p \<in> set xs" using Cons.prems(1) Cons by auto
      then obtain r where "rep_of B p r" using Cons.IH by blast
      then show ?thesis
        using b True Cons rep_send[of B x] rep_receive[of B x] rep_change[of B x] rep_state[of B x]
        by (cases b) (auto simp: position_ok_def)
    qed
  next
    case False
    then show ?thesis using Cons by auto
  qed
qed simp

lemma head_retractable:
  assumes inv: "ledger_inv E V C N" and i: "vA V a = Some i" and b: "vB V (head i) = Some b" and ng: "\<not> is_genesis (genesis_account E) b"
    and snd: "\<And>d. sends_to (genesis_account E) (vB V) b d \<Longrightarrow> vP V (Pending_key d (head i)) \<noteq> None"
  obtains r v where "retractable E V a i b r v" "previous b = 0 \<Longrightarrow> r = 0"
proof (cases "previous b = 0")
  case True
  then have "retractable E V a i b 0 0" using assms by (simp add: retractable_def)
  then show ?thesis using that by blast
next
  case False
  note I = ledger_invD[OF inv] note c = chains_okD[OF ledger_invD(2)[OF inv]]
  have p: "previous b \<in> dom (vB V)" using previous_closed[OF I(2) b] False by blast
  then obtain v where v: "bal_of (genesis_account E) (vB V) (previous b) v" using I(4) unfolding values_ok_def by blast
  obtain x where "previous b \<in> set (C x)" using c(9)[of "previous b"] p by blast
  then obtain r where "rep_of (vB V) (previous b) r" using linked_rep[OF c(10)] by blast
  then have "retractable E V a i b r v" using assms v False by (simp add: retractable_def)
  then show ?thesis using that False by blast
qed

lemma retractable_shift: "retractable E (view_of (shift W s)) a i b r v \<longleftrightarrow> retractable E (view_of s) a i b r v"
  by (simp add: retractable_def)

lemma flow_back_shift: "flow_back g (view_of (shift W s)) C a h b P \<longleftrightarrow> flow_back g (view_of s) C a h b P"
  by (simp add: flow_back_def)

lemma v_retract_shift:
  assumes "view_of s' = v_retract T a i b r v P (view_of s)"
  shows "view_of (shift W s') = v_retract T a i b r v P (view_of (shift W s))"
proof (rule view_eqI)
  have R: "representation_get s' = vR (v_retract T a i b r v P (view_of s))" using assms by (metis view_of_sel(6))
  show "vR (view_of (shift W s')) = vR (v_retract T a i b r v P (view_of (shift W s)))"
    using R by (simp add: v_retract_def Let_def fun_eq_iff)
qed (use arg_cong[OF assms, of vB] arg_cong[OF assms, of vS] arg_cong[OF assms, of vA] arg_cong[OF assms, of vP]
    arg_cong[OF assms, of vF] arg_cong[OF assms, of vI] arg_cong[OF assms, of vK] in \<open>simp_all add: v_retract_def Let_def\<close>)

definition retracted :: "rai_env \<Rightarrow> rai_clock \<Rightarrow> block_store \<Rightarrow> (u256 \<Rightarrow> u256 list) \<Rightarrow> u256 \<Rightarrow> account_info \<Rightarrow> block \<Rightarrow> block_store \<Rightarrow> bool" where
  "retracted E T s C a i b s' \<longleftrightarrow> dbs_wf (dbs s') \<and> (\<exists>r v P. retractable E (view_of s) a i b r v
     \<and> flow_back (genesis_account E) (view_of s) C a (head i) b P \<and> view_of s' = v_retract T a i b r v P (view_of s))"

lemma retracted_inv:
  assumes "ledger_inv E (view_of (shift W s)) C N" "retracted E T s C a i b s'"
  shows "ledger_inv E (view_of (shift W s')) (C(a := tl (C a))) N"
proof -
  obtain r v P where "retractable E (view_of s) a i b r v" "flow_back (genesis_account E) (view_of s) C a (head i) b P"
    "view_of s' = v_retract T a i b r v P (view_of s)" using assms(2) unfolding retracted_def by blast
  then show ?thesis
    using ledger_inv_retract[OF assms(1)] v_retract_shift by (simp add: retractable_shift flow_back_shift)
qed

lemma walkable_shift: "ledger_inv E (view_of (shift W s)) C N \<Longrightarrow> dbs_wf (dbs s) \<Longrightarrow> walkable E s"
  using inv_walkable[of "shift W s"] by (simp add: walkable_def)

lemma walkable_cong: "walkable E s \<Longrightarrow> dbs s' = dbs s \<Longrightarrow> blocks_info s' = blocks_info s \<Longrightarrow> walkable E s'"
  by (simp add: walkable_def)

text \<open>The queries the handlers make, on any store with these blocks.\<close>

lemma queries:
  assumes w: "walkable E s" and "dbs s' = dbs s" "blocks_info s' = blocks_info s"
  shows "bal_of (genesis_account E) (blk (dbs s)) h v \<Longrightarrow> ledger_balance E s' h = Some v"
    "amt_of (genesis_account E) (blk (dbs s)) h v \<Longrightarrow> ledger_amount E s' h = Some v"
    "rep_of (blk (dbs s)) h r \<Longrightarrow> ledger_representative E s' h = Some r"
proof -
  note w' = walkable_cong[OF assms]
  show "bal_of (genesis_account E) (blk (dbs s)) h v \<Longrightarrow> ledger_balance E s' h = Some v"
    using block_balance_correct[OF w'] assms(2) by (simp add: ledger_balance_def block_balance_def)
  show "amt_of (genesis_account E) (blk (dbs s)) h v \<Longrightarrow> ledger_amount E s' h = Some v"
    using block_amount_correct[OF w'] assms(2) by (simp add: ledger_amount_def block_amount_def)
  assume r: "rep_of (blk (dbs s)) h r"
  then have "block_exists s' r" using rep_of_dom block_exists_iff[of s'] walkableD(1)[OF w'] assms(2) by simp
  then show "ledger_representative E s' h = Some r"
    using representative_compute_correct[OF w'] r assms(2) by (simp add: ledger_representative_def representative_calculated_def)
qed


section \<open>The handlers of legacy blocks\<close>

lemma word_add_of_unat:
  fixes v x y :: "'a::len word"
  assumes "unat v = unat x + unat y"
  shows "v = x + y"
proof -
  have "v = word_of_nat (unat v)" by simp
  also have "\<dots> = word_of_nat (unat x + unat y)" by (simp only: assms)
  finally show ?thesis by simp
qed

text \<open>What the invariant says about the newest block of an account and the block before it.\<close>

lemma head_facts:
  assumes wf: "dbs_wf (dbs s)" and inv: "ledger_inv E (view_of (shift W s)) C N" and rt: "retractable E (view_of s) a i b r v"
  shows "accounts s a = Some i" "blk (dbs s) (head i) = Some b" "block_hash E b = head i" "head i \<noteq> 0" "a \<noteq> 0"
    "head i \<in> set (C a)" "previous b \<noteq> head i" "rep_block i \<in> dom (blk (dbs s))" "\<exists>k. checksum s 0 = Some k"
    "rep_of (blk (dbs s)) (head i) (rep_block i)" "bal_of (genesis_account E) (blk (dbs s)) (head i) (balance i)"
    "suc (dbs s) (head i) = Some 0" "\<not> is_state b \<Longrightarrow> frontiers s (head i) = Some a"
    "\<not> is_state b \<Longrightarrow> (blocks_info s (head i) \<noteq> None \<longleftrightarrow> block_count i mod block_info_max = 0)"
    "is_state b \<Longrightarrow> frontiers s (head i) = None"
proof -
  note I = ledger_invD[OF inv] note rt' = iffD2[OF retractable_shift rt, of W]
  note D = retractableD[OF rt] and R = retract_chain[OF I(2,1) rt'] and c = chains_okD[OF I(2)]
  show i: "accounts s a = Some i" and b: "blk (dbs s) (head i) = Some b" using D(1,2) by simp_all
  note A = account_blocks[OF inv, of a i, simplified, OF i]
  show "block_hash E b = head i" using I(1) b unfolding hashes_ok_def by simp
  show "head i \<noteq> 0" "a \<noteq> 0" "rep_block i \<in> dom (blk (dbs s))" "rep_of (blk (dbs s)) (head i) (rep_block i)"
    "bal_of (genesis_account E) (blk (dbs s)) (head i) (balance i)" using A by blast+
  show "head i \<in> set (C a)" "previous b \<noteq> head i" using R(1,7) by (metis list.set_intros(1), blast)
  show "\<exists>k. checksum s 0 = Some k" using checksum_some[OF inv] by simp
  have ca: "C a = [] @ head i # tl (C a)" using R(1) by simp
  then have "linked (blk (dbs s)) (suc (dbs s)) 0 ([] @ head i # tl (C a))" using c(10)[of a] by (metis shift_sel(1) view_of_sel(1,2))
  from linked_at[OF this] show "suc (dbs s) (head i) = Some 0" by simp
  {
    assume leg: "\<not> is_state b"
    then have st: "\<not> state_at (blk (dbs s)) (head i)" using b by (simp add: state_at_def)
    then show "frontiers s (head i) = Some a" using head_frontier(1)[OF inv, of a i] i by simp
    have "block_count i = of_nat (Suc (length (tl (C a))))" using c(5)[of a i] i R(1) by (metis length_Cons shift_sel(2) view_of_sel(3))
    then show "blocks_info s (head i) \<noteq> None \<longleftrightarrow> block_count i mod block_info_max = 0"
      using infos_okD(2)[OF I(8) ca] st by simp
  }
  assume "is_state b"
  then have "state_at (blk (dbs s)) (head i)" using b by (simp add: state_at_def)
  then show "frontiers s (head i) = None" using I(3) unfolding frontiers_ok_def by (cases "frontiers s (head i)") auto
qed

lemma previous_facts:
  assumes wf: "dbs_wf (dbs s)" and inv: "ledger_inv E (view_of (shift W s)) C N" and rt: "retractable E (view_of s) a i b r v"
    and p: "previous b \<noteq> 0" and pb: "blk (dbs s) (previous b) = Some pb"
  shows "block_hash E pb = previous b" "is_state b \<or> \<not> is_state pb"
    "previous pb \<noteq> 0 \<Longrightarrow> previous pb \<in> dom (blk (dbs s)) \<and> previous pb \<noteq> head i \<and> suc (dbs s) (previous pb) = Some (previous b)"
    "previous pb = 0 \<Longrightarrow> type_of pb \<in> {Bt_open, Bt_state}" "previous pb \<noteq> previous b"
    "bal_of (genesis_account E) (blk (dbs s)) (previous b) v" "rep_of (blk (dbs s)) (previous b) r"
    "r \<in> dom (blk (dbs s))" "r \<noteq> head i" "previous b \<in> set (C a)"
proof -
  note I = ledger_invD[OF inv] note rt' = iffD2[OF retractable_shift rt, of W]
  note D = retractableD[OF rt] and R = retract_chain[OF I(2,1) rt'] and c = chains_okD[OF I(2)]
  define ys where "ys = tl (tl (C a))"
  have ca: "C a = head i # previous b # ys" using R(1) R(5)[OF p] unfolding ys_def by simp
  have l: "linked (blk (dbs s)) (suc (dbs s)) 0 (head i # previous b # ys)" using c(10)[of a] unfolding ca by simp
  have ds: "distinct (head i # previous b # ys)" using c(7)[of a] unfolding ca .
  have pos: "position_ok (blk (dbs s)) pb ys" "position_ok (blk (dbs s)) b (previous b # ys)" using l pb D(2) by auto
  have dm: "x \<in> dom (blk (dbs s)) \<and> x \<noteq> 0" if "x \<in> set (C a)" for x
    using c(9)[of x] that I(1) unfolding hashes_ok_def by auto
  have nx: "previous pb = (case ys of [] \<Rightarrow> 0 | q # _ \<Rightarrow> q)" using pos(1) by (cases ys) (auto simp: position_ok_def)
  show "block_hash E pb = previous b" using I(1) pb unfolding hashes_ok_def by simp
  show "is_state b \<or> \<not> is_state pb" using pos(2) pb by (auto simp: position_ok_def state_at_def)
  show "previous pb \<noteq> 0 \<Longrightarrow> previous pb \<in> dom (blk (dbs s)) \<and> previous pb \<noteq> head i
      \<and> suc (dbs s) (previous pb) = Some (previous b)"
    using nx l ds dm[of "previous pb"] ca by (cases ys) auto
  show "previous pb = 0 \<Longrightarrow> type_of pb \<in> {Bt_open, Bt_state}"
    using pos(1) nx dm ca by (cases ys) (auto simp: position_ok_def)
  show "previous pb \<noteq> previous b" using nx ds p by (cases ys) auto
  show "bal_of (genesis_account E) (blk (dbs s)) (previous b) v" and rp: "rep_of (blk (dbs s)) (previous b) r"
    using D(5,6)[OF p] by simp_all
  show "r \<in> dom (blk (dbs s))" using rep_of_dom[OF rp] by blast
  show "r \<noteq> head i" using retract_walks(3)[OF inv rt', of "previous b" r] rp R(7) rep_of_dom by fastforce
  show "previous b \<in> set (C a)" using ca by simp
qed

lemma previous_exists:
  assumes "ledger_inv E (view_of (shift W s)) C N" "blk (dbs s) h = Some b" "previous b \<noteq> 0"
  obtains pb where "blk (dbs s) (previous b) = Some pb"
  using previous_closed[OF ledger_invD(2)[OF assms(1)], of h b] assms(2,3) by auto

lemma store_head_retractable:
  assumes inv: "ledger_inv E (view_of (shift W s)) C N" and i: "accounts s a = Some i" and b: "blk (dbs s) (head i) = Some b"
    and ng: "\<not> is_genesis (genesis_account E) b"
    and snd: "\<And>d. sends_to (genesis_account E) (blk (dbs s)) b d \<Longrightarrow> pending s (Pending_key d (head i)) \<noteq> None"
  obtains r v where "retractable E (view_of s) a i b r v" "previous b = 0 \<Longrightarrow> r = 0"
proof (rule head_retractable[OF inv])
  show "vA (view_of (shift W s)) a = Some i" "vB (view_of (shift W s)) (head i) = Some b" using i b by simp_all
  show "\<not> is_genesis (genesis_account E) b" by (rule ng)
  show "\<And>d. sends_to (genesis_account E) (vB (view_of (shift W s))) b d \<Longrightarrow> vP (view_of (shift W s)) (Pending_key d (head i)) \<noteq> None"
    using snd by simp
qed (use that in \<open>simp add: retractable_shift\<close>)

text \<open>Deleting the newest block and clearing the successor of the block before it.\<close>

lemma drop_block:
  assumes wf: "dbs_wf (dbs s)" and inv: "ledger_inv E (view_of (shift W s)) C N" and rt: "retractable E (view_of s) a i b r v"
    and p: "previous b \<noteq> 0" and s1: "dbs s1 = dbs s"
  obtains d1 d2 where "block_del s1 (head i) = Some (s1\<lparr>dbs := d1\<rparr>)" "dbs_wf d1" "blk d1 = (blk (dbs s))(head i := None)"
    "\<And>s2. dbs s2 = d1 \<Longrightarrow> \<exists>d2. block_successor_clear E s2 (previous b) = Some (s2\<lparr>dbs := d2\<rparr>) \<and> dbs_wf d2
       \<and> blk d2 = (blk (dbs s))(head i := None) \<and> suc d2 = (suc (dbs s))(previous b \<mapsto> 0, head i := None)"
proof -
  note H = head_facts[OF wf inv rt]
  obtain pb where pb: "blk (dbs s) (previous b) = Some pb" by (rule previous_exists[OF inv H(2) p])
  note P = previous_facts[OF wf inv rt p pb]
  obtain d1 where d1: "block_del s1 (head i) = Some (s1\<lparr>dbs := d1\<rparr>)" "dbs_wf d1" "blk d1 = (blk (dbs s1))(head i := None)"
    "suc d1 = (suc (dbs s1))(head i := None)"
    by (rule block_del_views[of s1 "head i"]) (use wf H(2) s1 in auto)
  have "\<exists>d2. block_successor_clear E s2 (previous b) = Some (s2\<lparr>dbs := d2\<rparr>) \<and> dbs_wf d2
       \<and> blk d2 = (blk (dbs s))(head i := None) \<and> suc d2 = (suc (dbs s))(previous b \<mapsto> 0, head i := None)" if s2: "dbs s2 = d1" for s2
  proof -
    obtain d2 where d2: "block_successor_clear E s2 (previous b) = Some (s2\<lparr>dbs := d2\<rparr>)" "dbs_wf d2" "blk d2 = blk (dbs s2)"
      "suc d2 = (if previous pb = 0 then (suc (dbs s2))(previous b \<mapsto> 0) else (suc (dbs s2))(previous b \<mapsto> 0, previous pb \<mapsto> previous b))"
      by (rule block_successor_clear_views[of s2 "previous b" pb E]) (use s2 d1 s1 pb P H(7) in auto)
    moreover have "suc d2 = (suc (dbs s))(previous b \<mapsto> 0, head i := None)"
      using d2(4) s2 d1(4) s1 P(3,5) H(7) by (auto simp: fun_eq_iff)
    ultimately show ?thesis using s2 d1(3) s1 by auto
  qed
  then show ?thesis using that d1 s1 by simp
qed

lemma info_drop:
  assumes "\<not> is_state b" "blocks_info s' h \<noteq> None \<longleftrightarrow> n mod block_info_max = 0"
  shows "(if n mod block_info_max = 0 then block_info_del s' h else Some s') =
    Some (s'\<lparr>blocks_info := (if n mod block_info_max = 0 then (blocks_info s')(h := None) else blocks_info s')\<rparr>)"
  using assms by (auto simp: block_info_del_def)

lemma rollback_send_retracts:
  assumes wf: "dbs_wf (dbs (store L))" and inv: "ledger_inv E (view_of (shift W (store L))) C N"
    and i: "accounts (store L) a = Some i" and b: "blk (dbs (store L)) (head i) = Some (Send sb)"
    and q: "pending (store L) (Pending_key (s_destination (send_hashables sb)) (head i)) = Some q"
  obtains L' where "rollback_send E T L sb = Some L'" "retracted E T (store L) C a i (Send sb) (store L')"
proof -
  define s where "s = store L"
  note I = ledger_invD[OF inv] note wf = wf[folded s_def] and inv = inv[folded s_def] and i = i[folded s_def]
    and b = b[folded s_def] and q = q[folded s_def]
  let ?b = "Send sb" and ?p = "s_previous (send_hashables sb)" and ?d = "s_destination (send_hashables sb)" and ?h = "head i"
  let ?am = "pending_amount q"
  obtain r v where rt: "retractable E (view_of s) a i ?b r v"
    by (rule store_head_retractable[OF inv i b]) (use q in \<open>auto simp: is_genesis_def sends_to_def\<close>)
  note H = head_facts[OF wf inv rt] and w = walkable_shift[OF inv wf]
  have sd: "sends_to (genesis_account E) (blk (dbs s)) ?b ?d" by (simp add: sends_to_def)
  note Q = pending_okD[OF ledger_invD(5)[OF inv], of ?d ?h q, simplified, OF q]
  have src: "pending_source q = a" using Q(3) H(6) chains_okD(8)[OF ledger_invD(2)[OF inv]] by blast
  have mv: "?p \<noteq> 0" "unat v = unat (balance i) + unat ?am"
    using retract_move(1)[OF inv iffD2[OF retractable_shift rt], of ?d ?am] sd Q(2) by simp_all
  obtain pb where pb: "blk (dbs s) ?p = Some pb" using previous_exists[OF inv b] mv(1) by auto
  note P = previous_facts[OF wf inv rt, simplified, OF mv(1) pb]
  have r: "r = rep_block i" using H(10) P(7) rep_of_functional rep_send[where B = "blk (dbs s)", OF b] by metis
  obtain k where k: "checksum s 0 = Some k" using H(9) ..
  let ?s1 = "weight_add (rep_account (blk (dbs s)) (rep_block i)) ?am (s\<lparr>pending := (pending s)(Pending_key ?d ?h := None)\<rparr>)"
  let ?s2 = "latest_set a ?p (i\<lparr>head := ?p, rep_block := rep_block i, balance := v, modified := seconds_since_epoch T,
      block_count := block_count i - 1\<rparr>) False ((k XOR ?h) XOR ?p) ?s1"
  obtain d1 where d1: "block_del ?s2 ?h = Some (?s2\<lparr>dbs := d1\<rparr>)" "dbs_wf d1" "blk d1 = (blk (dbs s))(head i := None)" and
    clear: "\<And>s2. dbs s2 = d1 \<Longrightarrow> \<exists>d2. block_successor_clear E s2 (previous ?b) = Some (s2\<lparr>dbs := d2\<rparr>) \<and> dbs_wf d2
       \<and> blk d2 = (blk (dbs s))(head i := None) \<and> suc d2 = (suc (dbs s))(previous ?b \<mapsto> 0, head i := None)"
    by (rule drop_block[OF wf inv rt, of ?s2]) (use mv(1) in simp_all)
  let ?s3 = "?s2\<lparr>dbs := d1, frontiers := (frontiers s)(?h := None, ?p \<mapsto> a)\<rparr>"
  obtain d2 where d2: "block_successor_clear E ?s3 ?p = Some (?s3\<lparr>dbs := d2\<rparr>)" "dbs_wf d2" "blk d2 = (blk (dbs s))(head i := None)"
    "suc d2 = (suc (dbs s))(?p \<mapsto> 0, head i := None)" using clear[of ?s3] by auto
  let ?s4 = "?s3\<lparr>dbs := d2, blocks_info := (if block_count i mod block_info_max = 0
      then (blocks_info ?s3)(?h := None) else blocks_info ?s3)\<rparr>"
  have run: "rollback_send E T L sb = Some (L\<lparr>store := ?s4, stats := stat_inc T (stats L) St_rollback Sd_send\<rparr>)"
    using q i src H k wf mv(1) d1(1) d2(1) queries(3)[OF w _ _ H(10)] queries(1)[OF w _ _ P(6)] info_drop[of ?b]
    by (simp add: rollback_send_def Let_def s_def[symmetric] pending_del_eq representation_add_eq change_latest_eq
        frontier_del_eq table_defs)
  have fb: "flow_back (genesis_account E) (view_of s) C a ?h ?b ((pending s)(Pending_key ?d ?h := None))"
    using sd by (auto simp: flow_back_def)
  have "view_of ?s4 = v_retract T a i ?b r v ((pending s)(Pending_key ?d ?h := None)) (view_of s)"
    by (rule view_eqI) (use mv(1) d2 P(2) pb r k word_add_of_unat[OF mv(2)] in
        \<open>simp_all add: v_retract_def Let_def state_at_def fun_eq_iff\<close>)
  then have "retracted E T s C a i ?b ?s4" using rt fb d2(2) unfolding retracted_def by auto
  then show ?thesis using that[OF run] by (simp add: s_def)
qed


text \<open>The source of a receipt is a block of some account, with an amount.\<close>

lemma received_source:
  assumes inv: "ledger_inv E (view_of (shift W s)) C N" and h: "h \<in> set (C a)" "blk (dbs s) h = Some b"
    and rc: "receives (genesis_account E) (blk (dbs s)) b src"
  obtains am x where "amt_of (genesis_account E) (blk (dbs s)) src am" "src \<in> set (C x)" "src \<in> dom (blk (dbs s))"
proof -
  note I = ledger_invD[OF inv]
  obtain sb where sb: "blk (dbs s) src = Some sb" "sends_to (genesis_account E) (blk (dbs s)) sb a"
    using receipts_okD(1)[OF I(6) h(1), of b src] h(2) rc by auto
  obtain am where "amt_of (genesis_account E) (blk (dbs s)) src am"
    using sent_amount[OF I(2,1,4), of src sb a] sb by auto
  moreover obtain x where "src \<in> set (C x)" using chains_okD(9)[OF I(2), of src] sb(1) by auto
  ultimately show ?thesis using that sb(1) by blast
qed

lemma rollback_receive_retracts:
  assumes wf: "dbs_wf (dbs (store L))" and inv: "ledger_inv E (view_of (shift W (store L))) C N"
    and i: "accounts (store L) a = Some i" and b: "blk (dbs (store L)) (head i) = Some (Receive rb)"
  obtains L' where "rollback_receive E T L rb = Some L'" "retracted E T (store L) C a i (Receive rb) (store L')"
proof -
  define s where "s = store L"
  note wf = wf[folded s_def] and inv = inv[folded s_def] and i = i[folded s_def] and b = b[folded s_def]
  note I = ledger_invD[OF inv]
  let ?b = "Receive rb" and ?p = "r_previous (receive_hashables rb)" and ?src = "r_source (receive_hashables rb)" and ?h = "head i"
  obtain r v where rt: "retractable E (view_of s) a i ?b r v"
    by (rule store_head_retractable[OF inv i b]) (auto simp: is_genesis_def sends_to_def)
  note H = head_facts[OF wf inv rt] and w = walkable_shift[OF inv wf]
  have rc: "receives (genesis_account E) (blk (dbs s)) ?b ?src" by (simp add: receives_def)
  obtain am x where am: "amt_of (genesis_account E) (blk (dbs s)) ?src am" "?src \<in> set (C x)"
    by (rule received_source[OF inv H(6,2) rc])
  have mv: "unat (balance i) = unat v + unat am"
    using retract_move(2)[OF inv iffD2[OF retractable_shift rt], of ?src am] rc am(1) by simp
  have p: "?p \<noteq> 0"
    using linked_first[OF chains_okD(10)[OF I(2), of a], of ?h ?b] H(2,6) chains_okD(9)[OF I(2)] I(1) unfolding hashes_ok_def by fastforce
  obtain pb where pb: "blk (dbs s) ?p = Some pb" using previous_exists[OF inv b] p by auto
  note P = previous_facts[OF wf inv rt, simplified, OF p pb]
  have r: "r = rep_block i" using H(10) P(7) rep_of_functional rep_receive[where B = "blk (dbs s)", OF b] by metis
  obtain k where k: "checksum s 0 = Some k" using H(9) ..
  note acc = ledger_account_shift[OF wf inv H(6)] ledger_account_shift[OF wf inv am(2)]
  let ?s1 = "weight_add (rep_account (blk (dbs s)) (rep_block i)) (0 - am) s"
  let ?s2 = "latest_set a ?p (i\<lparr>head := ?p, rep_block := r, balance := v, modified := seconds_since_epoch T,
      block_count := block_count i - 1\<rparr>) False ((k XOR ?h) XOR ?p) ?s1"
  obtain d1 where d1: "block_del ?s2 ?h = Some (?s2\<lparr>dbs := d1\<rparr>)" "dbs_wf d1" "blk d1 = (blk (dbs s))(head i := None)" and
    clear: "\<And>s2. dbs s2 = d1 \<Longrightarrow> \<exists>d2. block_successor_clear E s2 (previous ?b) = Some (s2\<lparr>dbs := d2\<rparr>) \<and> dbs_wf d2
       \<and> blk d2 = (blk (dbs s))(head i := None) \<and> suc d2 = (suc (dbs s))(previous ?b \<mapsto> 0, head i := None)"
    by (rule drop_block[OF wf inv rt, of ?s2]) (use p in simp_all)
  let ?P = "(pending s)(Pending_key a ?src \<mapsto> \<lparr>pending_source = x, pending_amount = am\<rparr>)"
  let ?s3 = "?s2\<lparr>dbs := d1, pending := ?P, frontiers := (frontiers s)(?h := None, ?p \<mapsto> a)\<rparr>"
  obtain d2 where d2: "block_successor_clear E ?s3 ?p = Some (?s3\<lparr>dbs := d2\<rparr>)" "dbs_wf d2" "blk d2 = (blk (dbs s))(head i := None)"
    "suc d2 = (suc (dbs s))(?p \<mapsto> 0, head i := None)" using clear[of ?s3] by auto
  let ?s4 = "?s3\<lparr>dbs := d2, blocks_info := (if block_count i mod block_info_max = 0
      then (blocks_info ?s3)(?h := None) else blocks_info ?s3)\<rparr>"
  have run: "rollback_receive E T L rb = Some (L\<lparr>store := ?s4, stats := stat_inc T (stats L) St_rollback Sd_receive\<rparr>)"
    using i H k wf p d1(1) d2(1) acc queries(3)[OF w _ _ H(10)] queries(3)[OF w _ _ P(7)] queries(1)[OF w _ _ P(6)]
      queries(2)[OF w _ _ am(1)] info_drop[of ?b]
    by (simp add: rollback_receive_def Let_def s_def[symmetric] representation_add_eq change_latest_eq frontier_del_eq table_defs)
  have fb: "flow_back (genesis_account E) (view_of s) C a ?h ?b ?P" using rc am by (auto simp: flow_back_def)
  have "view_of ?s4 = v_retract T a i ?b r v ?P (view_of s)"
    by (rule view_eqI) (use p d2 P(2) pb r k word_add_of_unat[OF mv] in
        \<open>simp_all add: v_retract_def Let_def state_at_def fun_eq_iff\<close>)
  then have "retracted E T s C a i ?b ?s4" using rt fb d2(2) unfolding retracted_def by auto
  then show ?thesis using that[OF run] by (simp add: s_def)
qed

lemma rollback_change_retracts:
  assumes wf: "dbs_wf (dbs (store L))" and inv: "ledger_inv E (view_of (shift W (store L))) C N"
    and i: "accounts (store L) a = Some i" and b: "blk (dbs (store L)) (head i) = Some (Change cb)"
  obtains L' where "rollback_change E T L cb = Some L'" "retracted E T (store L) C a i (Change cb) (store L')"
proof -
  define s where "s = store L"
  note wf = wf[folded s_def] and inv = inv[folded s_def] and i = i[folded s_def] and b = b[folded s_def]
  note I = ledger_invD[OF inv]
  let ?b = "Change cb" and ?p = "c_previous (change_hashables cb)" and ?h = "head i"
  obtain r v where rt: "retractable E (view_of s) a i ?b r v"
    by (rule store_head_retractable[OF inv i b]) (auto simp: is_genesis_def sends_to_def)
  note H = head_facts[OF wf inv rt] and w = walkable_shift[OF inv wf]
  have mv: "balance i = v"
    using retract_move(3)[OF inv iffD2[OF retractable_shift rt]] by (simp add: sends_to_def receives_def)
  have p: "?p \<noteq> 0"
    using linked_first[OF chains_okD(10)[OF I(2), of a], of ?h ?b] H(2,6) chains_okD(9)[OF I(2)] I(1) unfolding hashes_ok_def by fastforce
  obtain pb where pb: "blk (dbs s) ?p = Some pb" using previous_exists[OF inv b] p by auto
  note P = previous_facts[OF wf inv rt, simplified, OF p pb]
  have rb: "rep_block i = ?h" using H(10) rep_of_functional rep_change[where B = "blk (dbs s)", OF b] by metis
  obtain k where k: "checksum s 0 = Some k" using H(9) ..
  note acc = ledger_account_shift[OF wf inv P(10)]
  let ?s1 = "weight_add (rep_account (blk (dbs s)) ?h) (0 - v) (weight_add (rep_account (blk (dbs s)) r) v s)"
  obtain d1 where d1: "block_del ?s1 ?h = Some (?s1\<lparr>dbs := d1\<rparr>)" "dbs_wf d1" "blk d1 = (blk (dbs s))(head i := None)" and
    clear: "\<And>s2. dbs s2 = d1 \<Longrightarrow> \<exists>d2. block_successor_clear E s2 (previous ?b) = Some (s2\<lparr>dbs := d2\<rparr>) \<and> dbs_wf d2
       \<and> blk d2 = (blk (dbs s))(head i := None) \<and> suc d2 = (suc (dbs s))(previous ?b \<mapsto> 0, head i := None)"
    by (rule drop_block[OF wf inv rt, of ?s1]) (use p in simp_all)
  let ?s2 = "latest_set a ?p (i\<lparr>head := ?p, rep_block := r, balance := balance i, modified := seconds_since_epoch T,
      block_count := block_count i - 1\<rparr>) False ((k XOR ?h) XOR ?p) (?s1\<lparr>dbs := d1\<rparr>)"
  let ?s3 = "?s2\<lparr>frontiers := (frontiers s)(?h := None, ?p \<mapsto> a)\<rparr>"
  obtain d2 where d2: "block_successor_clear E ?s3 ?p = Some (?s3\<lparr>dbs := d2\<rparr>)" "dbs_wf d2" "blk d2 = (blk (dbs s))(head i := None)"
    "suc d2 = (suc (dbs s))(?p \<mapsto> 0, head i := None)" using clear[of ?s3] by auto
  let ?s4 = "?s3\<lparr>dbs := d2, blocks_info := (if block_count i mod block_info_max = 0
      then (blocks_info ?s3)(?h := None) else blocks_info ?s3)\<rparr>"
  have run: "rollback_change E T L cb = Some (L\<lparr>store := ?s4, stats := stat_inc T (stats L) St_rollback Sd_change\<rparr>)"
    using i domI[of "blk (dbs s)", OF b] H k wf p P(8) d1(1) d2(1) acc queries(3)[OF w _ _ P(7)] queries(1)[OF w _ _ P(6)] info_drop[of ?b]
    by (simp add: rollback_change_def Let_def s_def[symmetric] representation_add_eq change_latest_eq frontier_del_eq table_defs)
  have fb: "flow_back (genesis_account E) (view_of s) C a ?h ?b (pending s)" by (auto simp: flow_back_def sends_to_def receives_def)
  have "view_of ?s4 = v_retract T a i ?b r v (pending s) (view_of s)"
    by (rule view_eqI) (use p d2 P(2) pb rb k mv in \<open>simp_all add: v_retract_def Let_def state_at_def fun_eq_iff\<close>)
  then have "retracted E T s C a i ?b ?s4" using rt fb d2(2) unfolding retracted_def by auto
  then show ?thesis using that[OF run] by (simp add: s_def)
qed

lemma one_not_info: "(1 :: u64) mod block_info_max \<noteq> 0"
  by code_simp

lemma rollback_open_retracts:
  assumes wf: "dbs_wf (dbs (store L))" and inv: "ledger_inv E (view_of (shift W (store L))) C N"
    and i: "accounts (store L) a = Some i" and b: "blk (dbs (store L)) (head i) = Some (Open ob)"
    and ng: "o_source (open_hashables ob) \<noteq> genesis_account E"
  obtains L' where "rollback_open E T L ob = Some L'" "retracted E T (store L) C a i (Open ob) (store L')"
proof -
  define s where "s = store L"
  note wf = wf[folded s_def] and inv = inv[folded s_def] and i = i[folded s_def] and b = b[folded s_def]
  note I = ledger_invD[OF inv]
  let ?b = "Open ob" and ?src = "o_source (open_hashables ob)" and ?h = "head i"
  obtain r v where rt: "retractable E (view_of s) a i ?b r v"
    by (rule store_head_retractable[OF inv i b]) (use ng in \<open>auto simp: is_genesis_def sends_to_def\<close>)
  note H = head_facts[OF wf inv rt] and w = walkable_shift[OF inv wf] and R = retract_chain[OF I(2,1) iffD2[OF retractable_shift rt]]
  have rc: "receives (genesis_account E) (blk (dbs s)) ?b ?src" using ng by (simp add: receives_def)
  obtain am x where am: "amt_of (genesis_account E) (blk (dbs s)) ?src am" "?src \<in> set (C x)"
    by (rule received_source[OF inv H(6,2) rc])
  have v: "v = 0" using retractableD(4)[OF rt] by simp
  have mv: "balance i = am"
    using retract_move(2)[OF inv iffD2[OF retractable_shift rt], of ?src am] rc am(1) v by (simp add: word_unat_eq_iff)
  have "C a = [?h]" using R(1,2) by simp
  then have cnt: "block_count i = 1" using chains_okD(5)[OF I(2), of a i] i by simp
  have rb: "rep_block i = ?h" using H(10) rep_of_functional rep_open[where B = "blk (dbs s)", OF b] by metis
  obtain k where k: "checksum s 0 = Some k" using H(9) ..
  note acc = ledger_account_shift[OF wf inv H(6)] ledger_account_shift[OF wf inv am(2)]
  let ?s1 = "weight_add (rep_account (blk (dbs s)) ?h) (0 - am) s"
  let ?s2 = "?s1\<lparr>accounts := (accounts s)(a := None), checksum := (checksum s)(0 \<mapsto> k XOR ?h)\<rparr>"
  obtain d1 where d1: "block_del ?s2 ?h = Some (?s2\<lparr>dbs := d1\<rparr>)" "dbs_wf d1" "blk d1 = (blk (dbs ?s2))(?h := None)"
    "suc d1 = (suc (dbs ?s2))(?h := None)"
    by (rule block_del_views[of ?s2 ?h]) (use wf H(2) in auto)
  let ?P = "(pending s)(Pending_key a ?src \<mapsto> \<lparr>pending_source = x, pending_amount = am\<rparr>)"
  let ?s4 = "?s2\<lparr>dbs := d1, pending := ?P, frontiers := (frontiers s)(?h := None)\<rparr>"
  have run: "rollback_open E T L ob = Some (L\<lparr>store := ?s4, stats := stat_inc T (stats L) St_rollback Sd_open\<rparr>)"
    using i domI[of "blk (dbs s)", OF b] H k wf d1(1) acc rb queries(3)[OF w _ _ H(10)] queries(2)[OF w _ _ am(1)]
    by (simp add: rollback_open_def Let_def s_def[symmetric] representation_add_eq change_latest_zero frontier_del_eq table_defs)
  have fb: "flow_back (genesis_account E) (view_of s) C a ?h ?b ?P" using rc am by (auto simp: flow_back_def)
  have "view_of ?s4 = v_retract T a i ?b r v ?P (view_of s)"
    by (rule view_eqI) (use d1 rb k v mv cnt one_not_info in \<open>simp_all add: v_retract_def Let_def fun_eq_iff\<close>)
  then have "retracted E T s C a i ?b ?s4" using rt fb d1(2) unfolding retracted_def by auto
  then show ?thesis using that[OF run] by (simp add: s_def)
qed

section \<open>The handler of state blocks\<close>

text \<open>How far the weights are off between the two parts of the handler.\<close>

definition state_offset :: "(u256 \<rightharpoonup> block) \<Rightarrow> u256 \<Rightarrow> u128 \<Rightarrow> u256 \<Rightarrow> u128 \<Rightarrow> u256 \<Rightarrow> u128" where
  "state_offset B h u r v x = (if r \<noteq> 0 \<and> rep_account B r = x then v else 0) - (if rep_account B h = x then u else 0)"

lemma rollback_state_begin_eq:
  assumes wf: "dbs_wf (dbs (store L))" and inv: "ledger_inv E (view_of (shift W (store L))) C N"
    and b: "blk (dbs (store L)) (head i) = Some (State tb)"
    and first: "st_previous (state_hashables tb) = 0 \<Longrightarrow> v = 0 \<and> r = 0"
    and later: "st_previous (state_hashables tb) \<noteq> 0 \<Longrightarrow>
      bal_of (genesis_account E) (blk (dbs (store L))) (st_previous (state_hashables tb)) v
      \<and> rep_of (blk (dbs (store L))) (st_previous (state_hashables tb)) r"
  obtains L1 where "rollback_state_begin E L tb = Some (r, v, st_balance (state_hashables tb) < v, L1)"
    "dbs (store L1) = dbs (store L)" "pending (store L1) = pending (store L)" "accounts (store L1) = accounts (store L)"
    "view_of (shift (\<lambda>x. W x + state_offset (blk (dbs (store L))) (head i) (st_balance (state_hashables tb)) r v x) (store L1))
       = view_of (shift W (store L))"
proof -
  define s where "s = store L"
  note wf = wf[folded s_def] and inv = inv[folded s_def] and b = b[folded s_def] and later = later[folded s_def]
  note w = walkable_shift[OF inv wf]
  let ?p = "st_previous (state_hashables tb)" and ?h = "head i" and ?u = "st_balance (state_hashables tb)"
  have bh: "block_hash E (State tb) = ?h" using ledger_invD(1)[OF inv] b unfolding hashes_ok_def by simp
  let ?s1 = "weight_add (rep_account (blk (dbs s)) ?h) (0 - ?u) s"
  let ?s2 = "if r = 0 then ?s1 else weight_add (rep_account (blk (dbs s)) r) v ?s1"
  have hd: "?h \<in> dom (blk (dbs s))" using b by blast
  have "rollback_state_begin E L tb = Some (r, v, ?u < v, L\<lparr>store := ?s2\<rparr>)"
  proof (cases "?p = 0")
    case True
    have "ledger_balance E s 0 = Some 0" using block_balance_zero by (simp add: ledger_balance_def block_balance_def)
    then show ?thesis
      using True first bh hd wf by (simp add: rollback_state_begin_def Let_def s_def[symmetric] representation_add_eq)
  next
    case False
    then have P: "bal_of (genesis_account E) (blk (dbs s)) ?p v" "rep_of (blk (dbs s)) ?p r" using later by simp_all
    then have rd: "r \<in> dom (blk (dbs s))" using rep_of_dom by blast
    then have "r \<noteq> 0" using ledger_invD(1)[OF inv] unfolding hashes_ok_def by auto
    then show ?thesis
      using False bh hd rd wf queries(3)[OF w refl refl P(2)] queries(1)[OF w refl refl P(1)]
      by (simp add: rollback_state_begin_def Let_def s_def[symmetric] representation_add_eq)
  qed
  moreover have "view_of (shift (\<lambda>x. W x + state_offset (blk (dbs s)) ?h ?u r v x) ?s2) = view_of (shift W s)"
    by (rule view_eqI) (simp_all add: state_offset_def fun_eq_iff)
  ultimately show ?thesis using that[of "L\<lparr>store := ?s2\<rparr>"] by (simp add: s_def)
qed

lemma drop_state_block:
  assumes wf: "dbs_wf (dbs s)" and inv: "ledger_inv E (view_of (shift W s)) C N" and rt: "retractable E (view_of s) a i b r v"
    and p: "previous b \<noteq> 0" and s1: "dbs s1 = dbs s"
  obtains d1 where "block_successor_clear E s1 (previous b) = Some (s1\<lparr>dbs := d1\<rparr>)"
    "\<And>s2. dbs s2 = d1 \<Longrightarrow> \<exists>d2. block_del s2 (head i) = Some (s2\<lparr>dbs := d2\<rparr>) \<and> dbs_wf d2
       \<and> blk d2 = (blk (dbs s))(head i := None) \<and> suc d2 = (suc (dbs s))(previous b \<mapsto> 0, head i := None)"
proof -
  note H = head_facts[OF wf inv rt]
  obtain pb where pb: "blk (dbs s) (previous b) = Some pb" by (rule previous_exists[OF inv H(2) p])
  note P = previous_facts[OF wf inv rt p pb]
  obtain d1 where d1: "block_successor_clear E s1 (previous b) = Some (s1\<lparr>dbs := d1\<rparr>)" "dbs_wf d1" "blk d1 = blk (dbs s1)"
    "suc d1 = (if previous pb = 0 then (suc (dbs s1))(previous b \<mapsto> 0) else (suc (dbs s1))(previous b \<mapsto> 0, previous pb \<mapsto> previous b))"
    by (rule block_successor_clear_views[of s1 "previous b" pb E]) (use s1 wf pb P in auto)
  have "\<exists>d2. block_del s2 (head i) = Some (s2\<lparr>dbs := d2\<rparr>) \<and> dbs_wf d2
       \<and> blk d2 = (blk (dbs s))(head i := None) \<and> suc d2 = (suc (dbs s))(previous b \<mapsto> 0, head i := None)" if s2: "dbs s2 = d1" for s2
  proof -
    obtain d2 where d2: "block_del s2 (head i) = Some (s2\<lparr>dbs := d2\<rparr>)" "dbs_wf d2" "blk d2 = (blk (dbs s2))(head i := None)"
      "suc d2 = (suc (dbs s2))(head i := None)"
      by (rule block_del_views[of s2 "head i"]) (use s2 d1 s1 H(2) in auto)
    moreover have "suc d2 = (suc (dbs s))(previous b \<mapsto> 0, head i := None)"
      using d2(4) s2 d1(4) s1 P(3,5) H(7) by (auto simp: fun_eq_iff)
    ultimately show ?thesis using s2 d1(3) s1 by auto
  qed
  then show ?thesis using that d1(1) by blast
qed

text \<open>The part of the handler that gives the amount back.\<close>

lemma state_gives_back:
  assumes wf: "dbs_wf (dbs s)" and inv: "ledger_inv E (view_of (shift W s)) C N" and rt: "retractable E (view_of s) a i (State tb) r v"
  obtains P c' where "(if st_balance (state_hashables tb) < v then do {
        s \<leftarrow> pending_del s (Pending_key (st_link (state_hashables tb)) (head i));
        Some (s, stat_inc T c St_rollback Sd_send) }
      else if \<not> uint256_is_zero (st_link (state_hashables tb)) then do {
        source_account \<leftarrow> ledger_account s (st_link (state_hashables tb));
        Some (pending_put s (Pending_key (st_account (state_hashables tb)) (st_link (state_hashables tb)))
          \<lparr>pending_source = source_account, pending_amount = st_balance (state_hashables tb) - v\<rparr>,
          stat_inc T c St_rollback Sd_receive) }
      else Some (s, c)) = Some (s\<lparr>pending := P\<rparr>, c')" "flow_back (genesis_account E) (view_of s) C a (head i) (State tb) P"
proof -
  note I = ledger_invD[OF inv] note H = head_facts[OF wf inv rt] and D = retractableD[OF rt]
  let ?g = "genesis_account E" and ?p = "st_previous (state_hashables tb)" and ?u = "st_balance (state_hashables tb)"
    and ?l = "st_link (state_hashables tb)" and ?B = "blk (dbs s)"
  have a: "st_account (state_hashables tb) = a" using chains_okD(11)[OF I(2), of "head i" a "State tb"] H(2,6) by (simp add: owner_ok_def)
  have z: "0 \<notin> dom ?B" using I(1) unfolding hashes_ok_def by auto
  have ss: "state_sends ?g ?B tb \<longleftrightarrow> ?u < v"
  proof (cases "?p = 0")
    case True
    then show ?thesis using D(4) z bal_of_dom[of ?g ?B 0] by (auto simp: state_sends_def)
  next
    case False
    then have "bal_of ?g ?B ?p v" using D(5) by simp
    then show ?thesis unfolding state_sends_def using bal_of_functional by metis
  qed
  consider (send) "?u < v" | (receive) "\<not> ?u < v" "?l \<noteq> 0" | (none) "\<not> ?u < v" "?l = 0" by blast
  then show ?thesis
  proof cases
    case send
    then have sd: "sends_to ?g ?B (State tb) ?l" using ss by (simp add: sends_to_def)
    then have "pending s (Pending_key ?l (head i)) \<noteq> None" using D(7) by simp
    then show ?thesis
      using send sd by (intro that[of "(pending s)(Pending_key ?l (head i) := None)"]) (auto simp: pending_del_eq flow_back_def)
  next
    case receive
    then have rc: "receives ?g ?B (State tb) ?l" using ss by (simp add: receives_def)
    obtain am x where am: "amt_of ?g ?B ?l am" "?l \<in> set (C x)" by (rule received_source[OF inv H(6,2) rc])
    have "balance i = ?u"
      using H(11) bal_of_at(5)[where B = ?B, OF H(2)] by blast
    moreover have "unat (balance i) = unat v + unat am"
      using retract_move(2)[OF inv iffD2[OF retractable_shift rt], of ?l am] rc am(1) by simp
    ultimately have "?u - v = am" using word_add_of_unat[of ?u v am] by simp
    then show ?thesis
      using receive rc am a ledger_account_shift[OF wf inv am(2)]
      by (intro that[of "(pending s)(Pending_key a ?l \<mapsto> \<lparr>pending_source = x, pending_amount = am\<rparr>)"])
        (auto simp: pending_put_def flow_back_def)
  next
    case none
    then show ?thesis
      using ss by (intro that[of "pending s"]) (auto simp: flow_back_def sends_to_def receives_def)
  qed
qed

lemma rollback_state_end_retracts:
  fixes tb W L i r v
  defines "u \<equiv> st_balance (state_hashables tb)"
  defines "W' \<equiv> \<lambda>x. W x + state_offset (blk (dbs (store L))) (head i) u r v x"
  assumes wf: "dbs_wf (dbs (store L))" and inv: "ledger_inv E (view_of (shift W' (store L))) C N"
    and rt: "retractable E (view_of (store L)) a i (State tb) r v" and r0: "st_previous (state_hashables tb) = 0 \<Longrightarrow> r = 0"
  obtains L' P where "rollback_state_end E T L tb r v (u < v) = Some L'" "dbs_wf (dbs (store L'))"
    "flow_back (genesis_account E) (view_of (shift W' (store L))) C a (head i) (State tb) P"
    "view_of (shift W (store L')) = v_retract T a i (State tb) r v P (view_of (shift W' (store L)))"
proof -
  define s where "s = store L"
  note wf = wf[folded s_def] and inv = inv[folded s_def] and rt = rt[folded s_def]
  note I = ledger_invD[OF inv] note H = head_facts[OF wf inv rt] and D = retractableD[OF rt]
  let ?p = "st_previous (state_hashables tb)" and ?h = "head i" and ?b = "State tb"
  have W': "W' = (\<lambda>x. W x + state_offset (blk (dbs s)) ?h u r v x)" by (simp add: W'_def s_def)
  have a: "st_account (state_hashables tb) = a" using chains_okD(11)[OF I(2), of ?h a ?b] H(2,6) by (simp add: owner_ok_def)
  have rb: "rep_block i = ?h" using H(10) rep_of_functional rep_state[where B = "blk (dbs s)", OF H(2)] by metis
  have bu: "balance i = u" using H(11) bal_of_at(5)[where B = "blk (dbs s)", OF H(2)] unfolding u_def by blast
  obtain P c' where gb: "(if u < v then do {
        s \<leftarrow> pending_del s (Pending_key (st_link (state_hashables tb)) ?h);
        Some (s, stat_inc T (stats L) St_rollback Sd_send) }
      else if \<not> uint256_is_zero (st_link (state_hashables tb)) then do {
        source_account \<leftarrow> ledger_account s (st_link (state_hashables tb));
        Some (pending_put s (Pending_key (st_account (state_hashables tb)) (st_link (state_hashables tb)))
          \<lparr>pending_source = source_account, pending_amount = u - v\<rparr>, stat_inc T (stats L) St_rollback Sd_receive) }
      else Some (s, stats L)) = Some (s\<lparr>pending := P\<rparr>, c')" and fb: "flow_back (genesis_account E) (view_of s) C a ?h ?b P"
    unfolding u_def by (rule state_gives_back[OF wf inv rt])
  obtain k where k: "checksum s 0 = Some k" using H(9) ..
  have F: "(frontiers s)(?h := None) = frontiers s" using H(15) by auto
  have body: "rollback_state_end E T L tb r v (u < v) = do {
       s \<leftarrow> change_latest T (s\<lparr>pending := P\<rparr>) a ?p r v (block_count i - 1) False;
       prev \<leftarrow> block_get s ?p;
       (s, c) \<leftarrow> (case prev of
           Some p \<Rightarrow> do { s \<leftarrow> block_successor_clear E s ?p; Some (if \<not> is_state p then frontier_put s ?p a else s, c') }
         | None \<Rightarrow> Some (s, stat_inc T c' St_rollback Sd_open));
       s \<leftarrow> block_del s ?h;
       Some (L\<lparr>store := s, stats := c\<rparr>) }"
    unfolding rollback_state_end_def Let_def u_def H(3) s_def[symmetric] gb[unfolded u_def a] a using H(1) by (simp add: account_get_def)
  show ?thesis
  proof (cases "?p = 0")
    case True
    let ?s2 = "s\<lparr>pending := P, accounts := (accounts s)(a := None), checksum := (checksum s)(0 \<mapsto> k XOR ?h)\<rparr>"
    obtain d1 where d1: "block_del ?s2 ?h = Some (?s2\<lparr>dbs := d1\<rparr>)" "dbs_wf d1" "blk d1 = (blk (dbs ?s2))(?h := None)"
      "suc d1 = (suc (dbs ?s2))(?h := None)" by (rule block_del_views[of ?s2 ?h]) (use wf H(2) in auto)
    have "blk (dbs s) 0 = None" using I(1) unfolding hashes_ok_def by (metis insertI1 not_None_eq shift_sel(1) view_of_sel(1))
    then have run: "rollback_state_end E T L tb r v (u < v) = Some (L\<lparr>store := ?s2\<lparr>dbs := d1\<rparr>, stats := stat_inc T c' St_rollback Sd_open\<rparr>)"
      using body True H(1) k d1(1) wf by (simp add: change_latest_zero block_get_blk)
    have "view_of (shift W (?s2\<lparr>dbs := d1\<rparr>)) = v_retract T a i ?b r v P (view_of (shift W' s))"
      by (rule view_eqI) (use d1 rb bu k True r0 F in \<open>simp_all add: v_retract_def Let_def fun_eq_iff W' state_offset_def\<close>)
    then show ?thesis using that[OF run] d1(2) fb by (simp add: flow_back_shift s_def)
  next
    case False
    obtain pb where pb: "blk (dbs s) ?p = Some pb" using previous_exists[OF inv H(2)] False by auto
    have rn: "r \<noteq> 0" "r \<noteq> ?h" using previous_facts(8,9)[OF wf inv rt, of pb] False pb I(1) unfolding hashes_ok_def by auto
    let ?s2 = "latest_set a ?p (i\<lparr>head := ?p, rep_block := r, balance := v, modified := seconds_since_epoch T,
      block_count := block_count i - 1\<rparr>) False ((k XOR ?h) XOR ?p) (s\<lparr>pending := P\<rparr>)"
    obtain d1 where d1: "block_successor_clear E ?s2 ?p = Some (?s2\<lparr>dbs := d1\<rparr>)" and
      del: "\<And>s2. dbs s2 = d1 \<Longrightarrow> \<exists>d2. block_del s2 ?h = Some (s2\<lparr>dbs := d2\<rparr>) \<and> dbs_wf d2
         \<and> blk d2 = (blk (dbs s))(?h := None) \<and> suc d2 = (suc (dbs s))(?p \<mapsto> 0, ?h := None)"
      using drop_state_block[OF wf inv rt, of ?s2] False by auto
    let ?s3 = "if is_state pb then ?s2\<lparr>dbs := d1\<rparr> else ?s2\<lparr>dbs := d1, frontiers := (frontiers s)(?p \<mapsto> a)\<rparr>"
    obtain d2 where d2: "block_del ?s3 ?h = Some (?s3\<lparr>dbs := d2\<rparr>)" "dbs_wf d2" "blk d2 = (blk (dbs s))(?h := None)"
      "suc d2 = (suc (dbs s))(?p \<mapsto> 0, ?h := None)" using del[of ?s3] by (auto split: if_splits)
    have run: "rollback_state_end E T L tb r v (u < v) = Some (L\<lparr>store := ?s3\<lparr>dbs := d2\<rparr>, stats := c'\<rparr>)"
      using body False H(1) k d1 d2(1) wf pb by (simp add: change_latest_eq block_get_blk frontier_put_def split: if_splits)
    have "view_of (shift W (?s3\<lparr>dbs := d2\<rparr>)) = v_retract T a i ?b r v P (view_of (shift W' s))"
      by (rule view_eqI) (use d2 rb bu k False rn F pb in
          \<open>simp_all add: v_retract_def Let_def fun_eq_iff W' state_offset_def state_at_def\<close>)
    then show ?thesis using that[OF run] d2(2) fb by (simp add: flow_back_shift s_def)
  qed
qed

end
