(* ===== verification/Rai_Rollback_Run.thy ===== *)
theory Rai_Rollback_Run
  imports Rai_Rollback
begin

text \<open>
  The whole of \<open>rai::ledger::rollback\<close>: the mutual recursion of the rollback of a block and of
  the wait for a pending entry ends on every reachable ledger, keeps the ledger invariant and
  removes the block, together with newer blocks only.
\<close>


section \<open>Rolling a ledger back\<close>

text \<open>
  \<open>s'\<close> is \<open>s\<close> without some blocks, all of them accepted no earlier than \<open>n\<close>; every chain
  has lost blocks at its newer end only.
\<close>

definition rolls :: "rai_env \<Rightarrow> (u256 \<Rightarrow> nat) \<Rightarrow> (u256 \<Rightarrow> u128) \<Rightarrow> nat \<Rightarrow> block_store \<Rightarrow> (u256 \<Rightarrow> u256 list)
    \<Rightarrow> block_store \<Rightarrow> (u256 \<Rightarrow> u256 list) \<Rightarrow> bool" where
  "rolls E N W n s C s' C' \<longleftrightarrow> dbs_wf (dbs s') \<and> ledger_inv E (view_of (shift W s')) C' N
     \<and> blk (dbs s') \<subseteq>\<^sub>m blk (dbs s) \<and> (\<forall>y. \<exists>zs. C y = zs @ C' y)
     \<and> (\<forall>x. x \<in> dom (blk (dbs s)) \<longrightarrow> x \<notin> dom (blk (dbs s')) \<longrightarrow> n \<le> N x)"

lemma rollsD:
  assumes "rolls E N W n s C s' C'"
  shows "dbs_wf (dbs s')" "ledger_inv E (view_of (shift W s')) C' N" "blk (dbs s') \<subseteq>\<^sub>m blk (dbs s)" "\<exists>zs. C y = zs @ C' y"
    "x \<in> dom (blk (dbs s)) \<Longrightarrow> x \<notin> dom (blk (dbs s')) \<Longrightarrow> n \<le> N x"
  using assms unfolding rolls_def by blast+

lemma rolls_refl: "dbs_wf (dbs s) \<Longrightarrow> ledger_inv E (view_of (shift W s)) C N \<Longrightarrow> rolls E N W n s C s C"
  unfolding rolls_def by auto

lemma rolls_trans:
  assumes "rolls E N W' n s C s1 C1" "rolls E N W m s1 C1 s2 C2" "k \<le> n" "k \<le> m"
  shows "rolls E N W k s C s2 C2"
proof -
  have "\<exists>zs. C y = zs @ C2 y" for y
    using rollsD(4)[OF assms(1), of y] rollsD(4)[OF assms(2), of y] by (metis append_assoc)
  moreover have "k \<le> N x" if "x \<in> dom (blk (dbs s))" "x \<notin> dom (blk (dbs s2))" for x
    using rollsD(5)[OF assms(1) that(1)] rollsD(5)[OF assms(2) _ that(2)] assms(3,4) by (meson le_trans)
  ultimately show ?thesis
    using rollsD(1,2,3)[OF assms(2)] rollsD(3)[OF assms(1)] map_le_trans unfolding rolls_def by blast
qed

lemma retract_rolls:
  assumes wf: "dbs_wf (dbs s')" and inv: "ledger_inv E (view_of (shift W' s)) C N"
    and rt: "retractable E (view_of (shift W' s)) a i b r v"
    and fb: "flow_back (genesis_account E) (view_of (shift W' s)) C a (head i) b P"
    and v: "view_of (shift W s') = v_retract T a i b r v P (view_of (shift W' s))"
  shows "rolls E N W (N (head i)) s C s' (C(a := tl (C a)))" "head i \<notin> dom (blk (dbs s'))"
proof -
  have B: "blk (dbs s') = (blk (dbs s))(head i := None)" using arg_cong[OF v, of vB] by (simp add: v_retract_sel)
  have "\<exists>zs. C y = zs @ (C(a := tl (C a))) y" for y
    using retract_chain(1)[OF ledger_invD(2,1)[OF inv] rt] by (cases "y = a") (auto intro: exI[of _ "[head i]"])
  then show "rolls E N W (N (head i)) s C s' (C(a := tl (C a)))"
    using wf ledger_inv_retract[OF inv rt fb, of T] v unfolding rolls_def B by (auto simp: map_le_def)
  show "head i \<notin> dom (blk (dbs s'))" by (simp add: B)
qed

lemma retracted_rolls:
  assumes inv: "ledger_inv E (view_of (shift W s)) C N" and rt: "retracted E T s C a i b s'"
  shows "rolls E N W (N (head i)) s C s' (C(a := tl (C a)))" "head i \<notin> dom (blk (dbs s'))"
proof -
  obtain r v P where "dbs_wf (dbs s')" "retractable E (view_of (shift W s)) a i b r v"
    "flow_back (genesis_account E) (view_of (shift W s)) C a (head i) b P"
    "view_of (shift W s') = v_retract T a i b r v P (view_of (shift W s))"
    using rt v_retract_shift unfolding retracted_def retractable_shift flow_back_shift by blast
  from retract_rolls[OF this(1) inv this(2-4)]
  show "rolls E N W (N (head i)) s C s' (C(a := tl (C a)))" "head i \<notin> dom (blk (dbs s'))" by blast+
qed

text \<open>A head stays the head while only newer blocks of other accounts are removed.\<close>

lemma head_survives:
  assumes inv: "ledger_inv E (view_of (shift W s)) C N" and i: "accounts s a = Some i"
    and rl: "rolls E N W' (Suc (N (head i))) s C s' C'"
  obtains i' where "accounts s' a = Some i'" "head i' = head i" "blk (dbs s') (head i) = blk (dbs s) (head i)"
proof -
  note c = chains_okD[OF ledger_invD(2)[OF inv]] and c' = chains_okD[OF ledger_invD(2)[OF rollsD(2)[OF rl]]]
  have h: "head i \<in> set (C a)" "head i \<in> dom (blk (dbs s))" using head_in_chain[OF ledger_invD(2)[OF inv], of a i] i by simp_all
  then have h': "head i \<in> dom (blk (dbs s'))" using rollsD(5)[OF rl, of "head i"] by fastforce
  then obtain y where y: "head i \<in> set (C' y)" using c'(9)[of "head i"] by auto
  obtain zs where zs: "C y = zs @ C' y" using rollsD(4)[OF rl] by blast
  then have ya: "y = a" using y c(8)[OF _ h(1)] by auto
  have "hd (C a) = head i" "C a \<noteq> []" using c(3,6)[of a i] i by auto
  then have "zs = []" using zs ya y c(7)[of a] by (cases zs) auto
  then have CC: "C' a = C a" using zs ya by simp
  obtain i' where i': "accounts s' a = Some i'" using c'(1)[of a] CC \<open>C a \<noteq> []\<close> by (cases "accounts s' a") auto
  moreover have "head i' = head i" using c'(3)[of a i'] i' CC \<open>hd (C a) = head i\<close> by simp
  moreover have "blk (dbs s') (head i) = blk (dbs s) (head i)" using rollsD(3)[OF rl] h' by (metis domIff map_le_def)
  ultimately show ?thesis by (rule that)
qed

text \<open>What a smaller ledger says about the blocks it still has.\<close>

lemma roll_walks:
  assumes inv: "ledger_inv E (view_of (shift W s)) C N" and rl: "rolls E N W' n s C s' C'"
  shows "bal_of (genesis_account E) (blk (dbs s')) x v \<Longrightarrow> bal_of (genesis_account E) (blk (dbs s)) x v"
    "rep_of (blk (dbs s')) x r \<Longrightarrow> rep_of (blk (dbs s)) x r"
    "blk (dbs s') x = Some b \<Longrightarrow> sends_to (genesis_account E) (blk (dbs s')) b d \<longleftrightarrow> sends_to (genesis_account E) (blk (dbs s)) b d"
    "x \<in> dom (blk (dbs s')) \<Longrightarrow> rep_account (blk (dbs s')) x = rep_account (blk (dbs s)) x"
proof -
  let ?g = "genesis_account E"
  note I = ledger_invD[OF inv] note I' = ledger_invD[OF rollsD(2)[OF rl]] and le = rollsD(3)[OF rl]
  have g: "blk (dbs s) ?g = None" using I(1) unfolding hashes_ok_def by (cases "blk (dbs s) ?g") auto
  show mono: "bal_of ?g (blk (dbs s')) x v \<Longrightarrow> bal_of ?g (blk (dbs s)) x v" for x v
    using bal_amt_mono(1)[OF le] g by blast
  show "rep_of (blk (dbs s')) x r \<Longrightarrow> rep_of (blk (dbs s)) x r" using rep_of_mono le by blast
  show "x \<in> dom (blk (dbs s')) \<Longrightarrow> rep_account (blk (dbs s')) x = rep_account (blk (dbs s)) x"
    using le by (simp add: rep_account_def map_le_def)
  assume b: "blk (dbs s') x = Some b"
  have "state_sends ?g (blk (dbs s')) tb \<longleftrightarrow> state_sends ?g (blk (dbs s)) tb" if tb: "b = State tb" for tb
  proof (cases "st_previous (state_hashables tb) = 0")
    case True
    have "0 \<notin> dom (blk (dbs s))" "0 \<notin> dom (blk (dbs s'))"
      using I(1) I'(1) unfolding hashes_ok_def by auto
    then show ?thesis unfolding state_sends_def True using bal_of_dom by blast
  next
    case False
    have "st_previous (state_hashables tb) \<in> dom (blk (dbs s'))" using previous_closed[OF I'(2), of x b] b tb False by simp
    then obtain w where "bal_of ?g (blk (dbs s')) (st_previous (state_hashables tb)) w"
      using I'(4)[unfolded values_ok_def, THEN conjunct1] by auto
    then show ?thesis unfolding state_sends_def using mono bal_of_functional by metis
  qed
  then show "sends_to ?g (blk (dbs s')) b d \<longleftrightarrow> sends_to ?g (blk (dbs s)) b d" by (cases b) (simp_all add: sends_to_def)
qed


section \<open>Rolling back the newest block of an account\<close>

text \<open>The body of the loop of \<open>rollback\<close>, for the newest block \<open>b\<close>.\<close>

abbreviation head_handler :: "rai_env \<Rightarrow> rai_clock \<Rightarrow> ledger \<Rightarrow> block \<Rightarrow> ledger option" where
  "head_handler E T L b \<equiv> (case b of
      Send sb \<Rightarrow> Option.bind (rollback_run E T
         (Rollback_pending (Pending_key (s_destination (send_hashables sb)) (block_hash E b))) L)
         (\<lambda>L. rollback_send E T L sb)
    | Receive rb \<Rightarrow> rollback_receive E T L rb
    | Open ob \<Rightarrow> rollback_open E T L ob
    | Change cb \<Rightarrow> rollback_change E T L cb
    | State tb \<Rightarrow> Option.bind (rollback_state_begin E L tb) (\<lambda>(rep, balance_a, snd_a, L).
         Option.bind (if snd_a then rollback_run E T
              (Rollback_pending (Pending_key (st_link (state_hashables tb)) (block_hash E b))) L else Some L)
           (\<lambda>L. rollback_state_end E T L tb rep balance_a snd_a)))"

text \<open>The receipt of a send can be rolled back: what the handler of a send relies on.\<close>

definition frees :: "rai_env \<Rightarrow> rai_clock \<Rightarrow> (u256 \<Rightarrow> nat) \<Rightarrow> (u256 \<Rightarrow> u128) \<Rightarrow> ledger \<Rightarrow> (u256 \<Rightarrow> u256 list) \<Rightarrow> u256 \<Rightarrow> u256 \<Rightarrow> bool" where
  "frees E T N W L C d h \<longleftrightarrow> (\<exists>L' C'. rollback_run E T (Rollback_pending (Pending_key d h)) L = Some L'
     \<and> rolls E N W (Suc (N h)) (store L) C (store L') C' \<and> pending (store L') (Pending_key d h) \<noteq> None)"

lemma send_handler:
  assumes wf: "dbs_wf (dbs (store L))" and inv: "ledger_inv E (view_of (shift W (store L))) C N"
    and i: "accounts (store L) a = Some i" and b: "blk (dbs (store L)) (head i) = Some (Send sb)"
    and fr: "frees E T N W L C (s_destination (send_hashables sb)) (head i)"
  obtains L' C' where "head_handler E T L (Send sb) = Some L'" "rolls E N W (N (head i)) (store L) C (store L') C'"
    "head i \<notin> dom (blk (dbs (store L')))"
proof -
  have bh: "block_hash E (Send sb) = head i" using ledger_invD(1)[OF inv] b unfolding hashes_ok_def by simp
  obtain L1 C1 where L1: "rollback_run E T (Rollback_pending (Pending_key (s_destination (send_hashables sb)) (head i))) L = Some L1"
    "rolls E N W (Suc (N (head i))) (store L) C (store L1) C1"
    "pending (store L1) (Pending_key (s_destination (send_hashables sb)) (head i)) \<noteq> None"
    using fr unfolding frees_def by blast
  obtain i1 where i1: "accounts (store L1) a = Some i1" "head i1 = head i" "blk (dbs (store L1)) (head i) = blk (dbs (store L)) (head i)"
    by (rule head_survives[OF inv i L1(2)])
  obtain q where q: "pending (store L1) (Pending_key (s_destination (send_hashables sb)) (head i1)) = Some q" using L1(3) i1(2) by auto
  note inv1 = rollsD(2)[OF L1(2)]
  obtain L2 where L2: "rollback_send E T L1 sb = Some L2" "retracted E T (store L1) C1 a i1 (Send sb) (store L2)"
    by (rule rollback_send_retracts[OF rollsD(1)[OF L1(2)] inv1 i1(1) _ q]) (use i1 b in simp)
  note r = retracted_rolls[OF inv1 L2(2)]
  show ?thesis
    by (rule that[of L2 "C1(a := tl (C1 a))"]) (use L1(1) L2(1) bh r i1(2) rolls_trans[OF L1(2) r(1)] in simp_all)
qed

lemma state_handler:
  assumes wf: "dbs_wf (dbs (store L))" and inv: "ledger_inv E (view_of (shift W (store L))) C N"
    and i: "accounts (store L) a = Some i" and b: "blk (dbs (store L)) (head i) = Some (State tb)"
    and first: "st_previous (state_hashables tb) = 0 \<Longrightarrow> v = 0 \<and> r = 0"
    and later: "st_previous (state_hashables tb) \<noteq> 0 \<Longrightarrow>
      bal_of (genesis_account E) (blk (dbs (store L))) (st_previous (state_hashables tb)) v
      \<and> rep_of (blk (dbs (store L))) (st_previous (state_hashables tb)) r"
    and inv2: "rolls E N (\<lambda>x. W x + state_offset (blk (dbs (store L))) (head i) (st_balance (state_hashables tb)) r v x)
        (Suc (N (head i))) (store L) C (store L2) C2"
    and snd: "st_balance (state_hashables tb) < v \<Longrightarrow> pending (store L2) (Pending_key (st_link (state_hashables tb)) (head i)) \<noteq> None"
  obtains L' C' where "rollback_state_end E T L2 tb r v (st_balance (state_hashables tb) < v) = Some L'"
    "rolls E N W (N (head i)) (store L) C (store L') C'" "head i \<notin> dom (blk (dbs (store L')))"
proof -
  let ?u = "st_balance (state_hashables tb)" and ?g = "genesis_account E" and ?p = "st_previous (state_hashables tb)"
  let ?B = "blk (dbs (store L))" and ?B2 = "blk (dbs (store L2))"
  note R = rollsD[OF inv2] and RW = roll_walks[OF inv inv2]
  obtain i2 where i2: "accounts (store L2) a = Some i2" "head i2 = head i" "?B2 (head i) = ?B (head i)"
    by (rule head_survives[OF inv i inv2])
  have b2: "?B2 (head i2) = Some (State tb)" using i2 b by simp
  have lt: "?u < v" if "sends_to ?g ?B (State tb) d" for d
  proof -
    obtain w where w: "bal_of ?g ?B ?p w" "?u < w" using \<open>sends_to ?g ?B (State tb) d\<close> by (auto simp: sends_to_def state_sends_def)
    then have "?p \<noteq> 0" using bal_of_dom ledger_invD(1)[OF inv] unfolding hashes_ok_def by fastforce
    then have "bal_of ?g ?B ?p v" using later by simp
    then show ?thesis using w bal_of_functional by metis
  qed
  have sp: "pending (store L2) (Pending_key d (head i2)) \<noteq> None" if sd: "sends_to ?g ?B2 (State tb) d" for d
  proof -
    have "d = st_link (state_hashables tb)" using sd by (simp add: sends_to_def)
    then show ?thesis using snd[OF lt] sd RW(3)[OF b2, of d] i2(2) by metis
  qed
  obtain r2 v2 where rt2: "retractable E (view_of (store L2)) a i2 (State tb) r2 v2" and r20: "?p = 0 \<Longrightarrow> r2 = 0"
    by (rule store_head_retractable[OF R(2) i2(1) b2]) (use sp in \<open>auto simp: is_genesis_def\<close>)
  note D2 = retractableD[OF rt2]
  have eq: "r2 = r" "v2 = v"
  proof -
    show "r2 = r"
      using first r20 later D2(6) RW(2) rep_of_functional by (cases "?p = 0") (simp, metis previous.simps(5) view_of_sel(1))
    show "v2 = v"
      using first later D2(4,5) RW(1) bal_of_functional by (cases "?p = 0") (simp, metis previous.simps(5) view_of_sel(1))
  qed
  have "state_offset ?B (head i) ?u r v = state_offset ?B2 (head i2) ?u r v"
  proof -
    have "head i \<in> dom ?B2" using b2 i2(2) by auto
    moreover have "r \<in> dom ?B2" if "r \<noteq> 0"
      using that first D2(6) eq rep_of_dom by (cases "?p = 0") auto
    ultimately show ?thesis using RW(4) i2(2) by (auto simp: state_offset_def fun_eq_iff)
  qed
  then have inv2': "ledger_inv E (view_of (shift (\<lambda>x. W x + state_offset ?B2 (head i2) ?u r v x) (store L2))) C2 N"
    using R(2) by simp
  obtain L' P where L': "rollback_state_end E T L2 tb r v (?u < v) = Some L'" "dbs_wf (dbs (store L'))"
    "flow_back ?g (view_of (shift (\<lambda>x. W x + state_offset ?B2 (head i2) ?u r v x) (store L2))) C2 a (head i2) (State tb) P"
    "view_of (shift W (store L')) = v_retract T a i2 (State tb) r v P
       (view_of (shift (\<lambda>x. W x + state_offset ?B2 (head i2) ?u r v x) (store L2)))"
    by (rule rollback_state_end_retracts[OF R(1) inv2' rt2[unfolded eq]]) (use first in simp_all)
  note rr = retract_rolls[OF L'(2) inv2' iffD2[OF retractable_shift rt2[unfolded eq]] L'(3,4)]
  show ?thesis
    by (rule that[OF L'(1), of "C2(a := tl (C2 a))"]) (use rr i2(2) rolls_trans[OF inv2 rr(1)] in simp_all)
qed


lemma head_handler_rolls:
  assumes wf: "dbs_wf (dbs (store L))" and inv: "ledger_inv E (view_of (shift W (store L))) C N"
    and i: "accounts (store L) a = Some i" and b: "blk (dbs (store L)) (head i) = Some b" and ng: "\<not> is_genesis (genesis_account E) b"
    and fr: "\<And>W L1 d. dbs_wf (dbs (store L1)) \<Longrightarrow> ledger_inv E (view_of (shift W (store L1))) C N \<Longrightarrow> dbs (store L1) = dbs (store L) \<Longrightarrow>
      sends_to (genesis_account E) (blk (dbs (store L))) b d \<Longrightarrow> frees E T N W L1 C d (head i)"
  obtains L' C' where "head_handler E T L b = Some L'" "rolls E N W (N (head i)) (store L) C (store L') C'"
    "head i \<notin> dom (blk (dbs (store L')))"
proof (cases b)
  case (Send sb)
  then have "frees E T N W L C (s_destination (send_hashables sb)) (head i)" using fr[OF wf inv refl] by (simp add: sends_to_def)
  then obtain L' C' where "head_handler E T L (Send sb) = Some L'" "rolls E N W (N (head i)) (store L) C (store L') C'"
    "head i \<notin> dom (blk (dbs (store L')))" by (rule send_handler[OF wf inv i b[unfolded Send]])
  then show ?thesis using that Send by simp
next
  case (Receive rb)
  obtain L' where "rollback_receive E T L rb = Some L'" "retracted E T (store L) C a i (Receive rb) (store L')"
    by (rule rollback_receive_retracts[OF wf inv i b[unfolded Receive]])
  then show ?thesis using that[of L' "C(a := tl (C a))"] retracted_rolls[OF inv] Receive by simp
next
  case (Open ob)
  obtain L' where "rollback_open E T L ob = Some L'" "retracted E T (store L) C a i (Open ob) (store L')"
    by (rule rollback_open_retracts[OF wf inv i b[unfolded Open]]) (use ng Open in \<open>simp add: is_genesis_def\<close>)
  then show ?thesis using that[of L' "C(a := tl (C a))"] retracted_rolls[OF inv] Open by simp
next
  case (Change cb)
  obtain L' where "rollback_change E T L cb = Some L'" "retracted E T (store L) C a i (Change cb) (store L')"
    by (rule rollback_change_retracts[OF wf inv i b[unfolded Change]])
  then show ?thesis using that[of L' "C(a := tl (C a))"] retracted_rolls[OF inv] Change by simp
next
  case (State tb)
  let ?g = "genesis_account E" and ?p = "st_previous (state_hashables tb)" and ?u = "st_balance (state_hashables tb)" and ?B = "blk (dbs (store L))"
  note b' = b[unfolded State] and I = ledger_invD[OF inv]
  have bh: "block_hash E (State tb) = head i" using I(1) b' unfolding hashes_ok_def by simp
  obtain r v where first: "?p = 0 \<Longrightarrow> v = 0 \<and> r = 0" and later: "?p \<noteq> 0 \<Longrightarrow> bal_of ?g ?B ?p v \<and> rep_of ?B ?p r"
  proof (cases "?p = 0")
    case False
    have "?p \<in> dom ?B" using previous_closed[OF I(2), of "head i" "State tb"] b' False by simp
    then obtain x where x: "?p \<in> set (C x)" using chains_okD(9)[OF I(2), of ?p] by auto
    then obtain r where "rep_of ?B ?p r" using linked_rep[OF chains_okD(10)[OF I(2), of x]] by auto
    moreover obtain v where "bal_of ?g ?B ?p v" using I(4)[unfolded values_ok_def, THEN conjunct1] \<open>?p \<in> dom ?B\<close> by auto
    ultimately show ?thesis using that False by blast
  qed blast
  obtain L1 where L1: "rollback_state_begin E L tb = Some (r, v, ?u < v, L1)" "dbs (store L1) = dbs (store L)"
    "view_of (shift (\<lambda>x. W x + state_offset ?B (head i) ?u r v x) (store L1)) = view_of (shift W (store L))"
    by (rule rollback_state_begin_eq[OF wf inv b' first later])
  let ?W = "\<lambda>x. W x + state_offset ?B (head i) ?u r v x"
  have inv1: "ledger_inv E (view_of (shift ?W (store L1))) C N" and wf1: "dbs_wf (dbs (store L1))" using inv wf L1(2,3) by simp_all
  obtain L2 C2 where L2: "(if ?u < v then rollback_run E T (Rollback_pending (Pending_key (st_link (state_hashables tb)) (head i))) L1
      else Some L1) = Some L2" "rolls E N ?W (Suc (N (head i))) (store L1) C (store L2) C2"
      "?u < v \<Longrightarrow> pending (store L2) (Pending_key (st_link (state_hashables tb)) (head i)) \<noteq> None"
  proof (cases "?u < v")
    case True
    then have "state_sends ?g ?B tb" using first later unfolding state_sends_def by (cases "?p = 0") auto
    then have "frees E T N ?W L1 C (st_link (state_hashables tb)) (head i)"
      using fr[OF wf1 inv1 L1(2)] State by (simp add: sends_to_def)
    then show ?thesis using that True unfolding frees_def by auto
  next
    case False
    then show ?thesis using that[of L1 C] rolls_refl[OF wf1 inv1] by simp
  qed
  have "rolls E N ?W (Suc (N (head i))) (store L) C (store L2) C2" using L2(2) L1(2) by (simp add: rolls_def)
  from state_handler[OF wf inv i b' first later this L2(3)]
  obtain L' C' where L': "rollback_state_end E T L2 tb r v (?u < v) = Some L'" "rolls E N W (N (head i)) (store L) C (store L') C'"
    "head i \<notin> dom (blk (dbs (store L')))" by blast
  have "head_handler E T L (State tb) = Some L'" using L1(1) L2(1) L'(1) by (cases "?u < v") (simp_all add: bh)
  then have "head_handler E T L b = Some L'" unfolding State .
  then show ?thesis using that L'(2,3) by blast
qed

section \<open>The order of the blocks of a chain\<close>

lemma linked_position: "linked B S n (zs @ k # ys) \<Longrightarrow> B k = Some b \<Longrightarrow> position_ok B b ys"
  by (induction zs arbitrary: n) auto

lemma chain_order:
  assumes ch: "chains_ok V C" and hs: "hashes_ok E V" and od: "order_ok g V N"
  shows "C a = zs @ h # ys \<Longrightarrow> x \<in> set zs \<Longrightarrow> N h < N x"
proof (induction zs arbitrary: h ys rule: rev_induct)
  case (snoc k zs)
  have k: "k \<in> set (C a)" using snoc(2) by simp
  then obtain bk where bk: "vB V k = Some bk" using chains_okD(9)[OF ch, of k] by auto
  have "linked (vB V) (vS V) 0 (zs @ k # h # ys)" using chains_okD(10)[OF ch, of a] snoc(2) by simp
  then have "position_ok (vB V) bk (h # ys)" using bk by (rule linked_position)
  then have p: "previous bk = h" by (simp add: position_ok_def)
  have "h \<in> set (C a)" using snoc(2) by simp
  then have "h \<noteq> 0" using chains_okD(9)[OF ch, of h] hs unfolding hashes_ok_def by auto
  then have "N h < N k" using od bk p unfolding order_ok_def by blast
  moreover have "x \<noteq> k \<Longrightarrow> N k < N x" using snoc(1)[of k "h # ys"] snoc(2,3) by simp
  ultimately show ?case by (cases "x = k") auto
qed simp


section \<open>Rolling back ends\<close>

text \<open>
  A receipt is newer than its send and a block is newer than the one before it, so every nested
  call concerns blocks newer than the one that made it. The number of blocks at least as new as
  the target bounds the recursion.
\<close>

definition newer :: "(u256 \<Rightarrow> nat) \<Rightarrow> block_store \<Rightarrow> nat \<Rightarrow> nat" where
  "newer N s n = card {x \<in> dom (blk (dbs s)). n \<le> N x}"

lemma newer_less:
  assumes "dbs_wf (dbs s)" "blk (dbs s') \<subseteq>\<^sub>m blk (dbs s)" "n \<le> m" "x \<in> dom (blk (dbs s))" "n \<le> N x"
    and "x \<notin> dom (blk (dbs s')) \<or> N x < m"
  shows "newer N s' m < newer N s n"
  unfolding newer_def
proof (rule psubset_card_mono)
  show "finite {x \<in> dom (blk (dbs s)). n \<le> N x}" using finite_dom_blk[OF assms(1)] by simp
  have "dom (blk (dbs s')) \<subseteq> dom (blk (dbs s))" using assms(2) by (rule map_le_implies_dom_le)
  then have "{x \<in> dom (blk (dbs s')). m \<le> N x} \<subseteq> {x \<in> dom (blk (dbs s)). n \<le> N x}" using assms(3) by auto
  moreover have "x \<in> {x \<in> dom (blk (dbs s)). n \<le> N x}" "x \<notin> {x \<in> dom (blk (dbs s')). m \<le> N x}" using assms(4-6) by auto
  ultimately show "{x \<in> dom (blk (dbs s')). m \<le> N x} \<subset> {x \<in> dom (blk (dbs s)). n \<le> N x}" by blast
qed

lemma newer_mono: "dbs_wf (dbs s) \<Longrightarrow> n \<le> m \<Longrightarrow> newer N s m \<le> newer N s n"
  unfolding newer_def using finite_dom_blk by (intro card_mono) auto

definition clears :: "rai_env \<Rightarrow> rai_clock \<Rightarrow> (u256 \<Rightarrow> nat) \<Rightarrow> (u256 \<Rightarrow> u128) \<Rightarrow> ledger \<Rightarrow> (u256 \<Rightarrow> u256 list) \<Rightarrow> u256 \<Rightarrow> u256 \<Rightarrow> bool" where
  "clears E T N W L C a h \<longleftrightarrow> (\<exists>L' C'. rollback_run E T (Rollback_loop a h) L = Some L'
     \<and> rolls E N W (N h) (store L) C (store L') C' \<and> h \<notin> dom (blk (dbs (store L'))))"

text \<open>A block above another one is not the genesis block.\<close>

lemma above_not_genesis:
  assumes "chains_ok V C" "C a = zs @ h # ys" "zs \<noteq> []" "vB V (hd (C a)) = Some b"
  shows "\<not> is_genesis g b"
proof -
  obtain z zs' where z: "zs = z # zs'" using assms(3) by (cases zs) auto
  have "linked (vB V) (vS V) 0 ([] @ z # (zs' @ h # ys))" using chains_okD(10)[OF assms(1), of a] assms(2) z by simp
  then have "position_ok (vB V) b (zs' @ h # ys)" using linked_position[where b = b] assms(2,4) z by fastforce
  then show ?thesis by (cases zs'; cases b) (auto simp: position_ok_def is_genesis_def)
qed

lemma rollback_loop_step:
  assumes wf: "dbs_wf (dbs (store L))" and inv: "ledger_inv E (view_of (shift W (store L))) C N"
    and h: "h \<in> set (C a)" "blk (dbs (store L)) h = Some b" and ng: "\<not> is_genesis (genesis_account E) b"
    and B: "\<And>W L1 d x bx. dbs_wf (dbs (store L1)) \<Longrightarrow> ledger_inv E (view_of (shift W (store L1))) C N \<Longrightarrow>
      blk (dbs (store L1)) x = Some bx \<Longrightarrow> sends_to (genesis_account E) (blk (dbs (store L1))) bx d \<Longrightarrow>
      newer N (store L1) (Suc (N x)) < newer N (store L) (N h) \<Longrightarrow> frees E T N W L1 C d x"
    and A: "\<And>L1 C1. dbs_wf (dbs (store L1)) \<Longrightarrow> ledger_inv E (view_of (shift W (store L1))) C1 N \<Longrightarrow>
      h \<in> set (C1 a) \<Longrightarrow> blk (dbs (store L1)) h = Some b \<Longrightarrow> newer N (store L1) (N h) < newer N (store L) (N h) \<Longrightarrow>
      clears E T N W L1 C1 a h"
  shows "clears E T N W L C a h"
proof -
  note I = ledger_invD[OF inv] note c = chains_okD[OF I(2)]
  obtain zs ys where ca: "C a = zs @ h # ys" using h(1) by (meson split_list)
  then obtain i where i: "accounts (store L) a = Some i" using c(1)[of a] by (cases "accounts (store L) a") auto
  have hd: "head i = hd (C a)" using c(3)[of a i] i by simp
  have hi: "head i \<in> dom (blk (dbs (store L)))" using head_in_chain(2)[OF I(2), of a i] i by simp
  then obtain bi where bi: "blk (dbs (store L)) (head i) = Some bi" by blast
  have ord: "N h \<le> N (head i)"
    using chain_order[OF I(2,1,7) ca, of "head i"] hd ca by (cases zs) auto
  have ngi: "\<not> is_genesis (genesis_account E) bi"
  proof (cases "zs = []")
    case True
    then show ?thesis using ng bi h(2) hd ca by simp
  next
    case False
    then show ?thesis using above_not_genesis[OF I(2) ca] bi hd by simp
  qed
  have less: "newer N (store L1) (Suc (N (head i))) < newer N (store L) (N h)" if "dbs (store L1) = dbs (store L)" for L1
    by (rule newer_less[OF wf, of _ _ _ "head i"]) (use that ord hi in \<open>auto simp: map_le_def\<close>)
  have fr: "frees E T N W L1 C d (head i)"
    if "dbs_wf (dbs (store L1))" "ledger_inv E (view_of (shift W (store L1))) C N" "dbs (store L1) = dbs (store L)"
      "sends_to (genesis_account E) (blk (dbs (store L))) bi d" for W L1 d
    using B[OF that(1,2) _ _ less[OF that(3)], of bi d] that(3,4) bi by simp
  obtain L1 C1 where L1: "head_handler E T L bi = Some L1" "rolls E N W (N (head i)) (store L) C (store L1) C1"
    "head i \<notin> dom (blk (dbs (store L1)))" by (rule head_handler_rolls[OF wf inv i bi ngi fr])
  note R = rollsD[OF L1(2)]
  have step: "rollback_run E T (Rollback_loop a h) L = rollback_run E T (Rollback_loop a h) L1"
    using L1(1) i bi domI[of "blk (dbs (store L))", OF h(2)]
    by (subst rollback_run.simps) (simp add: block_exists_iff[OF wf] block_get_blk[OF wf] account_get_def)
  show ?thesis
  proof (cases "h \<in> dom (blk (dbs (store L1)))")
    case False
    then have "rollback_run E T (Rollback_loop a h) L1 = Some L1"
      using R(1) by (subst rollback_run.simps) (simp add: block_exists_iff)
    then show ?thesis using step L1(2) ord False rolls_trans[OF L1(2) rolls_refl[OF R(1,2)]] unfolding clears_def by metis
  next
    case True
    then have b1: "blk (dbs (store L1)) h = Some b" using R(3) h(2) by (metis map_le_def)
    obtain y where y: "h \<in> set (C1 y)" using chains_okD(9)[OF ledger_invD(2)[OF R(2)], of h] True by auto
    then have "y = a" using R(4)[of y] c(8)[OF _ h(1)] by auto
    moreover have "newer N (store L1) (N h) < newer N (store L) (N h)"
      by (rule newer_less[OF wf R(3), of _ _ "head i"]) (use ord hi L1(3) in auto)
    ultimately have "clears E T N W L1 C1 a h" using A[OF R(1,2)] y b1 by blast
    then show ?thesis using step rolls_trans[OF L1(2) _ ord] unfolding clears_def by (metis order_refl)
  qed
qed


lemma rollback_pending_step:
  assumes wf: "dbs_wf (dbs (store L))" and inv: "ledger_inv E (view_of (shift W (store L))) C N"
    and h: "blk (dbs (store L)) h = Some b" and sd: "sends_to (genesis_account E) (blk (dbs (store L))) b d"
    and A: "\<And>x bx. x \<in> set (C d) \<Longrightarrow> blk (dbs (store L)) x = Some bx \<Longrightarrow> \<not> is_genesis (genesis_account E) bx \<Longrightarrow>
      newer N (store L) (N x) \<le> newer N (store L) (Suc (N h)) \<Longrightarrow> clears E T N W L C d x"
    and B: "\<And>L1 C1. dbs_wf (dbs (store L1)) \<Longrightarrow> ledger_inv E (view_of (shift W (store L1))) C1 N \<Longrightarrow>
      blk (dbs (store L1)) h = Some b \<Longrightarrow> sends_to (genesis_account E) (blk (dbs (store L1))) b d \<Longrightarrow>
      newer N (store L1) (Suc (N h)) < newer N (store L) (Suc (N h)) \<Longrightarrow> frees E T N W L1 C1 d h"
  shows "frees E T N W L C d h"
proof (cases "pending (store L) (Pending_key d h)")
  case (Some q)
  then have "rollback_run E T (Rollback_pending (Pending_key d h)) L = Some L"
    by (subst rollback_run.simps) (simp add: pending_get_def)
  then show ?thesis using Some rolls_refl[OF wf inv] unfolding frees_def by blast
next
  case None
  note I = ledger_invD[OF inv] note c = chains_okD[OF I(2)]
  obtain z bz where z: "z \<in> set (C d)" "blk (dbs (store L)) z = Some bz" "receives (genesis_account E) (blk (dbs (store L))) bz h"
    using receipts_okD(4)[OF I(6), of h b d] h sd None by auto
  have hz: "N h < N z" using I(7) z(2,3) unfolding order_ok_def by simp
  obtain zs ys where ca: "C d = zs @ z # ys" using z(1) by (meson split_list)
  then obtain j where j: "accounts (store L) d = Some j" using c(1)[of d] by (cases "accounts (store L) d") auto
  have hd: "head j = hd (C d)" using c(3)[of d j] j by simp
  have hj: "head j \<in> set (C d)" "head j \<in> dom (blk (dbs (store L)))" using head_in_chain[OF I(2), of d j] j by simp_all
  then obtain bj where bj: "blk (dbs (store L)) (head j) = Some bj" by blast
  have ord: "Suc (N h) \<le> N (head j)"
    using chain_order[OF I(2,1,7) ca, of "head j"] hd ca hz by (cases zs) auto
  have ng: "\<not> is_genesis (genesis_account E) bj"
  proof (cases "zs = []")
    case True
    then have "bj = bz" using bj z(2) hd ca by simp
    then show ?thesis using z(3) by (cases bz) (auto simp: receives_def is_genesis_def)
  next
    case False
    then show ?thesis using above_not_genesis[OF I(2) ca] bj hd by simp
  qed
  have "clears E T N W L C d (head j)" by (rule A[OF hj(1) bj ng newer_mono[OF wf ord]])
  then obtain L1 C1 where L1: "rollback_run E T (Rollback_loop d (head j)) L = Some L1"
    "rolls E N W (N (head j)) (store L) C (store L1) C1" "head j \<notin> dom (blk (dbs (store L1)))"
    unfolding clears_def by blast
  note R = rollsD[OF L1(2)]
  have "h \<in> dom (blk (dbs (store L1)))" using R(5)[of h] h ord by fastforce
  then have b1: "blk (dbs (store L1)) h = Some b" using R(3) h by (metis map_le_def)
  have "newer N (store L1) (Suc (N h)) < newer N (store L) (Suc (N h))"
    by (rule newer_less[OF wf R(3), of _ _ "head j"]) (use ord hj(2) L1(3) in auto)
  then have fr: "frees E T N W L1 C1 d h" using B[OF R(1,2) b1] sd roll_walks(3)[OF inv L1(2) b1] by blast
  have "rollback_run E T (Rollback (latest (store L) d)) L = Some L1"
    using L1(1) j hj(2) ledger_account_shift[OF wf inv hj(1)]
    by (subst rollback_run.simps) (simp add: latest_def account_get_def block_exists_iff[OF wf])
  then have "rollback_run E T (Rollback_pending (Pending_key d h)) L = rollback_run E T (Rollback_pending (Pending_key d h)) L1"
    using None by (subst rollback_run.simps) (simp add: pending_get_def)
  then show ?thesis using fr rolls_trans[OF L1(2) _ ord order_refl] unfolding frees_def by metis
qed

lemma rollback_total_aux:
  "(\<forall>L C W a h b. dbs_wf (dbs (store L)) \<longrightarrow> ledger_inv E (view_of (shift W (store L))) C N \<longrightarrow> h \<in> set (C a) \<longrightarrow>
      blk (dbs (store L)) h = Some b \<longrightarrow> \<not> is_genesis (genesis_account E) b \<longrightarrow> 2 * newer N (store L) (N h) \<le> k \<longrightarrow>
      clears E T N W L C a h)
   \<and> (\<forall>L C W d h b. dbs_wf (dbs (store L)) \<longrightarrow> ledger_inv E (view_of (shift W (store L))) C N \<longrightarrow>
      blk (dbs (store L)) h = Some b \<longrightarrow> sends_to (genesis_account E) (blk (dbs (store L))) b d \<longrightarrow>
      2 * newer N (store L) (Suc (N h)) + 1 \<le> k \<longrightarrow> frees E T N W L C d h)"
proof (induction k rule: less_induct)
  case (less k)
  show ?case
  proof (intro conjI allI impI)
    fix L :: ledger and C W a h b
    assume a: "dbs_wf (dbs (store L))" "ledger_inv E (view_of (shift W (store L))) C N" "h \<in> set (C a)"
      "blk (dbs (store L)) h = Some b" "\<not> is_genesis (genesis_account E) b" "2 * newer N (store L) (N h) \<le> k"
    show "clears E T N W L C a h"
    proof (rule rollback_loop_step[OF a(1-5)])
      fix W and L1 :: ledger and d x bx
      assume p: "dbs_wf (dbs (store L1))" "ledger_inv E (view_of (shift W (store L1))) C N" "blk (dbs (store L1)) x = Some bx"
        "sends_to (genesis_account E) (blk (dbs (store L1))) bx d" "newer N (store L1) (Suc (N x)) < newer N (store L) (N h)"
      have "2 * newer N (store L1) (Suc (N x)) + 1 < k" using p(5) a(6) by linarith
      then show "frees E T N W L1 C d x" using less[THEN conjunct2] p(1-4) by blast
    next
      fix L1 :: ledger and C1
      assume p: "dbs_wf (dbs (store L1))" "ledger_inv E (view_of (shift W (store L1))) C1 N" "h \<in> set (C1 a)"
        "blk (dbs (store L1)) h = Some b" "newer N (store L1) (N h) < newer N (store L) (N h)"
      have "2 * newer N (store L1) (N h) < k" using p(5) a(6) by linarith
      then show "clears E T N W L1 C1 a h" using less[THEN conjunct1] p(1-4) a(5) by blast
    qed
  next
    fix L :: ledger and C W d h b
    assume a: "dbs_wf (dbs (store L))" "ledger_inv E (view_of (shift W (store L))) C N" "blk (dbs (store L)) h = Some b"
      "sends_to (genesis_account E) (blk (dbs (store L))) b d" "2 * newer N (store L) (Suc (N h)) + 1 \<le> k"
    show "frees E T N W L C d h"
    proof (rule rollback_pending_step[OF a(1-4)])
      fix x bx
      assume p: "x \<in> set (C d)" "blk (dbs (store L)) x = Some bx" "\<not> is_genesis (genesis_account E) bx"
        "newer N (store L) (N x) \<le> newer N (store L) (Suc (N h))"
      have "2 * newer N (store L) (N x) < k" using p(4) a(5) by linarith
      then show "clears E T N W L C d x" using less[THEN conjunct1] a(1,2) p(1-3) by blast
    next
      fix L1 :: ledger and C1
      assume p: "dbs_wf (dbs (store L1))" "ledger_inv E (view_of (shift W (store L1))) C1 N" "blk (dbs (store L1)) h = Some b"
        "sends_to (genesis_account E) (blk (dbs (store L1))) b d" "newer N (store L1) (Suc (N h)) < newer N (store L) (Suc (N h))"
      have "2 * newer N (store L1) (Suc (N h)) + 1 < k" using p(5) a(5) by linarith
      then show "frees E T N W L1 C1 d h" using less[THEN conjunct2] p(1-4) by blast
    qed
  qed
qed

theorem rollback_total:
  assumes wf: "dbs_wf (dbs (store L))" and inv: "ledger_inv E (view_of (store L)) C N"
    and h: "blk (dbs (store L)) h = Some b" "\<not> is_genesis (genesis_account E) b"
  obtains L' C' where "rollback E T L h = Some L'" "rolls E N (\<lambda>_. 0) (N h) (store L) C (store L') C'"
    "h \<notin> dom (blk (dbs (store L')))"
proof -
  have inv0: "ledger_inv E (view_of (shift (\<lambda>_. 0) (store L))) C N" using inv by (simp add: shift_0)
  have hd: "h \<in> dom (blk (dbs (store L)))" using h(1) by blast
  then obtain a where a: "h \<in> set (C a)" using chains_okD(9)[OF ledger_invD(2)[OF inv], of h] by auto
  have "clears E T N (\<lambda>_. 0) L C a h"
    using rollback_total_aux[THEN conjunct1] wf inv0 a h by blast
  moreover have "rollback E T L h = rollback_run E T (Rollback_loop a h) L"
    unfolding rollback_def using hd ledger_account_correct[OF wf inv a]
    by (subst rollback_run.simps) (simp add: block_exists_iff[OF wf])
  ultimately show ?thesis using that unfolding clears_def by metis
qed

corollary rollback_keeps_store_ok:
  assumes ok: "store_ok E (store L)" and h: "blk (dbs (store L)) h = Some b" "\<not> is_genesis (genesis_account E) b"
  obtains L' where "rollback E T L h = Some L'" "store_ok E (store L')" "blk (dbs (store L')) \<subseteq>\<^sub>m blk (dbs (store L))"
    "h \<notin> dom (blk (dbs (store L')))"
proof -
  obtain C N where wf: "dbs_wf (dbs (store L))" and inv: "ledger_inv E (view_of (store L)) C N"
    using ok unfolding store_ok_def by blast
  obtain L' C' where "rollback E T L h = Some L'" "rolls E N (\<lambda>_. 0) (N h) (store L) C (store L') C'"
    "h \<notin> dom (blk (dbs (store L')))" by (rule rollback_total[OF wf inv h])
  then show ?thesis using that unfolding rolls_def store_ok_def by (auto simp: shift_0)
qed

end
