(* ===== verification/Rai_Ledger_Runs.thy ===== *)
theory Rai_Ledger_Runs
  imports Rai_Rollback_Run
begin

text \<open>
  Ledgers that arise from the genesis block by processing and rolling back blocks: the invariant
  holds of all of them, and two of them with the same blocks have the same tables, whatever the
  order in which the blocks arrived.
\<close>

section \<open>The blocks determine the chains\<close>

lemma chain_position: "chains_ok V C \<Longrightarrow> C a = zs @ h # ys \<Longrightarrow> vB V h = Some b \<Longrightarrow> position_ok (vB V) b ys"
  by (rule linked_position[of "vB V" "vS V" 0 zs]) (use chains_okD(10)[of V C a] in simp_all)

lemma chain_split_unique:
  assumes ch: "chains_ok V C" "chains_ok V' C'" and B: "vB V = vB V'" and hs: "hashes_ok E V"
  shows "C a = xs @ h # ys \<Longrightarrow> C' a' = xs' @ h # ys' \<Longrightarrow> a = a' \<and> ys = ys'"
proof (induction ys arbitrary: xs h xs' ys')
  case (Cons p ys)
  have "h \<in> dom (vB V)" "p \<in> dom (vB V)" using chains_okD(9)[OF ch(1)] Cons(2) by (metis in_set_conv_decomp, metis UnCI list.set_intros set_append)
  then obtain b where b: "vB V h = Some b" and p0: "p \<noteq> 0" using hs unfolding hashes_ok_def by auto
  have "position_ok (vB V) b (p # ys)" by (rule chain_position[OF ch(1) Cons(2) b])
  moreover have "position_ok (vB V) b ys'" using chain_position[OF ch(2) Cons(3)] b B by simp
  ultimately obtain ys1 where ys': "ys' = p # ys1" using p0 by (cases ys') (auto simp: position_ok_def)
  show ?case using Cons(1)[of "xs @ [h]" p "xs' @ [h]" ys1] Cons(2,3) ys' by simp
next
  case Nil
  have h: "h \<in> set (C a)" "h \<in> set (C' a')" using Nil by simp_all
  then obtain b where b: "vB V h = Some b" using chains_okD(9)[OF ch(1), of h] by auto
  have pos: "position_ok (vB V) b []" by (rule chain_position[OF ch(1) Nil(1) b])
  have pos': "position_ok (vB V) b ys'" using chain_position[OF ch(2) Nil(2)] b B by simp
  have "ys' = []"
  proof (cases ys')
    case (Cons p zs)
    then have "p \<in> set (C' a')" using Nil(2) by simp
    then have "p \<in> dom (vB V)" using chains_okD(9)[OF ch(2), of p] B by metis
    then show ?thesis using pos pos' Cons hs unfolding hashes_ok_def position_ok_def by auto
  qed
  moreover have "owner_ok a b" "owner_ok a' b"
    using chains_okD(11)[OF ch(1) h(1) b] chains_okD(11)[OF ch(2) h(2)] b B by simp_all
  ultimately show ?case using pos by (cases b) (auto simp: position_ok_def owner_ok_def)
qed

lemma chain_extends:
  assumes "chains_ok V C" "chains_ok V' C'" "vB V = vB V'" "hashes_ok E V"
  shows "\<exists>zs. C' a = zs @ C a"
proof (cases "C a")
  case (Cons h ys)
  then have "h \<in> dom (vB V')" using chains_okD(9)[OF assms(1), of h] assms(3) by (metis list.set_intros(1))
  then obtain a' where "h \<in> set (C' a')" using chains_okD(9)[OF assms(2), of h] by blast
  then obtain xs' ys' where x: "C' a' = xs' @ h # ys'" by (meson split_list)
  then show ?thesis using chain_split_unique[OF assms, of a "[]" h ys a' xs' ys'] Cons by auto
qed simp

lemma chains_determined:
  assumes "chains_ok V C" "chains_ok V' C'" "vB V = vB V'" "hashes_ok E V"
  shows "C = C'"
proof
  fix a
  have "hashes_ok E V'" using assms(3,4) by (simp add: hashes_ok_def)
  then obtain zs zs' where "C' a = zs @ C a" "C a = zs' @ C' a"
    using chain_extends[OF assms] chain_extends[OF assms(2,1) assms(3)[symmetric]] by meson
  then show "C a = C' a" by simp
qed

section \<open>The chains determine the tables\<close>

lemma account_determined:
  assumes inv: "ledger_inv E V C N" "ledger_inv E V' C N'" and B: "vB V = vB V'" and i: "vA V a = Some i"
  obtains i' where "vA V' a = Some i'" "i'\<lparr>modified := 0\<rparr> = i\<lparr>modified := 0\<rparr>"
proof -
  note c = chains_okD[OF ledger_invD(2)[OF inv(1)]] and c' = chains_okD[OF ledger_invD(2)[OF inv(2)]]
  obtain i' where i': "vA V' a = Some i'" using c(6)[OF i] c'(1)[of a] by (cases "vA V' a") auto
  have h: "head i' = head i" using c(3)[OF i] c'(3)[OF i'] by simp
  have v: "bal_of (genesis_account E) (vB V) (head i) (balance i)" "rep_of (vB V) (head i) (rep_block i)"
    using ledger_invD(4)[OF inv(1)] i unfolding values_ok_def by blast+
  have "bal_of (genesis_account E) (vB V') (head i') (balance i')" "rep_of (vB V') (head i') (rep_block i')"
    using ledger_invD(4)[OF inv(2)] i' unfolding values_ok_def by blast+
  then have v': "bal_of (genesis_account E) (vB V) (head i) (balance i')" "rep_of (vB V) (head i) (rep_block i')"
    by (simp_all add: h B)
  have "balance i' = balance i" "rep_block i' = rep_block i"
    using bal_of_functional[OF v(1) v'(1)] rep_of_functional[OF v(2) v'(2)] .
  then have "i'\<lparr>modified := 0\<rparr> = i\<lparr>modified := 0\<rparr>"
    using h c(4,5)[OF i] c'(4,5)[OF i'] by (cases i; cases i') simp
  with i' show ?thesis by (rule that)
qed

lemma pending_determined:
  assumes inv: "ledger_inv E V C N" "ledger_inv E V' C N'" and B: "vB V = vB V'" and p: "vP V k = Some p"
  shows "vP V' k = Some p"
proof -
  note I = ledger_invD[OF inv(1)] note I' = ledger_invD[OF inv(2)]
  obtain d h where k: "k = Pending_key d h" by (cases k)
  note pd = pending_okD[OF I(5) p[unfolded k]]
  obtain b where b: "vB V h = Some b" "sends_to (genesis_account E) (vB V) b d" using pd(1) by blast
  have "vP V' (Pending_key d h) \<noteq> None"
  proof
    assume n: "vP V' (Pending_key d h) = None"
    obtain h' b' where "vB V h' = Some b'" "receives (genesis_account E) (vB V) b' h"
      using receipts_okD(4)[OF I'(6) _ _ n] b B by auto
    then show False using pending_unreceived[OF I(2,5,6) p[unfolded k]] by blast
  qed
  then obtain p' where p': "vP V' (Pending_key d h) = Some p'" by blast
  note pd' = pending_okD[OF I'(5) p']
  have "pending_amount p' = pending_amount p" using amt_of_functional[OF pd(2)] pd'(2) B by simp
  moreover have "pending_source p' = pending_source p" using chains_okD(8)[OF I(2)] pd(3) pd'(3) by metis
  ultimately show ?thesis using p' k by (cases p; cases p') simp
qed

lemma linked_successors:
  "linked B S n xs \<Longrightarrow> linked B S' n xs \<Longrightarrow> x \<in> set xs \<Longrightarrow> S x = S' x"
  by (induction xs arbitrary: n) auto

text \<open>The tables that follow from the blocks: all but the times of change and the block information of state blocks.\<close>

definition same_tables :: "view \<Rightarrow> view \<Rightarrow> bool" where
  "same_tables V V' \<longleftrightarrow> vB V = vB V' \<and> vS V = vS V' \<and>
     map_option (modified_update (\<lambda>_. 0)) \<circ> vA V = map_option (modified_update (\<lambda>_. 0)) \<circ> vA V' \<and>
     vP V = vP V' \<and> vF V = vF V' \<and> vR V = vR V' \<and> vK V = vK V' \<and>
     (\<forall>h \<in> dom (vB V). \<not> state_at (vB V) h \<longrightarrow> vI V h = vI V' h)"

lemma map_le_antisym_Some: "(\<And>k v. m k = Some v \<Longrightarrow> m' k = Some v) \<Longrightarrow> (\<And>k v. m' k = Some v \<Longrightarrow> m k = Some v) \<Longrightarrow> m = m'"
  by (metis ext option.exhaust)

theorem blocks_determine_tables:
  assumes inv: "ledger_inv E V C N" "ledger_inv E V' C' N'" and B: "vB V = vB V'"
    and dS: "dom (vS V) = dom (vB V)" "dom (vS V') = dom (vB V')"
  shows "same_tables V V'"
proof -
  note I = ledger_invD[OF inv(1)]
  have C: "C' = C" using chains_determined[OF I(2) ledger_invD(2)[OF inv(2)] B I(1)] by simp
  note inv' = inv(2)[unfolded C] note I' = ledger_invD[OF inv']
  let ?m = "map_option (modified_update (\<lambda>_. 0))"
  have A: "?m (vA V a) = ?m (vA V' a)" for a
  proof (cases "vA V a")
    case None
    then show ?thesis using chains_okD(1)[OF I(2), of a] chains_okD(1)[OF I'(2), of a] by simp
  next
    case (Some i)
    obtain i' where "vA V' a = Some i'" "i'\<lparr>modified := 0\<rparr> = i\<lparr>modified := 0\<rparr>"
      by (rule account_determined[OF inv(1) inv' B Some])
    then show ?thesis using Some by simp
  qed
  have sel: "head (i\<lparr>modified := 0\<rparr>) = head i" "rep_block (i\<lparr>modified := 0\<rparr>) = rep_block i" "balance (i\<lparr>modified := 0\<rparr>) = balance i"
    for i :: account_info by simp_all
  have via: "map_option f (vA V a) = map_option f (vA V' a)" if "\<And>i. f (i\<lparr>modified := 0\<rparr>) = f i" for f :: "account_info \<Rightarrow> 'b" and a
    using arg_cong[OF A[of a], of "map_option f"] that by (simp add: option.map_comp o_def)
  have F: "vF V = vF V'"
  proof (rule map_le_antisym_Some)
    fix h a
    have "(\<exists>i. vA V a = Some i \<and> head i = h) \<longleftrightarrow> (\<exists>i. vA V' a = Some i \<and> head i = h)"
      using via[of head a] by (cases "vA V a"; cases "vA V' a") simp_all
    then show "vF V h = Some a \<Longrightarrow> vF V' h = Some a" "vF V' h = Some a \<Longrightarrow> vF V h = Some a"
      using I(3) I'(3) B unfolding frontiers_ok_def by auto
  qed
  have dm: "dom (vA V) = dom (vA V')" using A by (metis (mono_tags) domIff option.map_disc_iff subsetI subset_antisym)
  have at: "f (the (vA V a)) = f (the (vA V' a))" if "\<And>i. f (i\<lparr>modified := 0\<rparr>) = f i" "a \<in> dom (vA V)" for f :: "account_info \<Rightarrow> 'b" and a
    using via[of f a] that by (cases "vA V a"; cases "vA V' a") auto
  have R: "vR V = vR V'"
  proof
    fix r
    show "vR V r = vR V' r"
      using I(9) I'(9) unfolding weights_ok_def delegated_def msum_def B
      by (auto simp: dm[symmetric] intro!: sum.cong at)
  qed
  have K: "vK V = vK V'"
    using I(11) I'(11) unfolding checksum_ok_def xor_heads_def
    by (auto simp: dm[symmetric] intro!: xor_sum.cong at)
  have S: "vS V = vS V'"
  proof
    fix h
    show "vS V h = vS V' h"
    proof (cases "h \<in> dom (vB V)")
      case True
      then obtain a where "h \<in> set (C a)" using chains_okD(9)[OF I(2), of h] by blast
      then show ?thesis using linked_successors chains_okD(10)[OF I(2), of a] chains_okD(10)[OF I'(2), of a] B by metis
    next
      case False
      then have "h \<notin> dom (vS V)" "h \<notin> dom (vS V')" using dS B by simp_all
      then show ?thesis by (simp add: domIff)
    qed
  qed
  have P: "vP V = vP V'"
    using pending_determined[OF inv(1) inv' B] pending_determined[OF inv' inv(1) B[symmetric]] by (rule map_le_antisym_Some)
  have Inf: "vI V h = vI V' h" if h: "h \<in> dom (vB V)" "\<not> state_at (vB V) h" for h
  proof -
    obtain b where b: "vB V h = Some b" "\<not> is_state b" using h by (auto simp: state_at_def)
    obtain a where a: "h \<in> set (C a)" using chains_okD(9)[OF I(2), of h] h(1) by blast
    then obtain xs ys where x: "C a = xs @ h # ys" by (meson split_list)
    have ex: "vI V h \<noteq> None \<longleftrightarrow> vI V' h \<noteq> None"
      using infos_okD(2)[OF I(8) x] infos_okD(2)[OF I'(8) x] h(2) B by simp
    show ?thesis
    proof (cases "vI V h")
      case (Some j)
      then obtain j' where j': "vI V' h = Some j'" using ex by blast
      have v: "bal_of (genesis_account E) (vB V) h (info_balance j)" "h \<in> set (C (info_account j))"
        "bal_of (genesis_account E) (vB V) h (info_balance j')" "h \<in> set (C (info_account j'))"
        using infos_okD(1)[OF I(8) Some b] infos_okD(1)[OF I'(8) j' _ b(2)] b(1) B by simp_all
      then have "info_balance j' = info_balance j" "info_account j' = info_account j"
        using bal_of_functional[OF v(1,3)] chains_okD(8)[OF I(2) v(4,2)] by blast+
      then show ?thesis using Some j' by (cases j; cases j') simp
    qed (use ex in simp)
  qed
  show ?thesis unfolding same_tables_def using B S A P F R K Inf by (auto simp: fun_eq_iff)
qed

section \<open>Reachable ledgers\<close>

text \<open>
  A ledger a node can have: it was initialized with the genesis block, blocks were handed to
  \<open>process\<close> in any order, accepted or not, and blocks other than the genesis block were rolled back.
\<close>

inductive reachable :: "rai_env \<Rightarrow> ledger \<Rightarrow> bool" for E :: rai_env where
  reach_genesis: "genesis_initialize E T empty_store = Some (store L) \<Longrightarrow> reachable E L"
| reach_process: "reachable E L \<Longrightarrow> hash_sane E b \<Longrightarrow> process E T L b = Some (ret, L') \<Longrightarrow> reachable E L'"
| reach_rollback: "reachable E L \<Longrightarrow> blk (dbs (store L)) h = Some b \<Longrightarrow> \<not> is_genesis (genesis_account E) b \<Longrightarrow>
    rollback E T L h = Some L' \<Longrightarrow> reachable E L'"

definition env_ok :: "rai_env \<Rightarrow> bool" where
  "env_ok E \<longleftrightarrow> genesis_hash E \<notin> {0, 1, genesis_account E}"

lemma store_okE:
  assumes "store_ok E s"
  obtains C N where "dbs_wf (dbs s)" "ledger_inv E (view_of s) C N"
  using assms unfolding store_ok_def by blast

lemma reachable_store_ok: "reachable E L \<Longrightarrow> env_ok E \<Longrightarrow> store_ok E (store L)"
proof (induction rule: reachable.induct)
  case (reach_genesis T L)
  have g: "genesis_hash E \<notin> {0, 1, genesis_account E}" using reach_genesis(2) by (simp add: env_ok_def)
  obtain s where "genesis_initialize E T empty_store = Some s" "store_ok E s" by (rule genesis_store_ok[OF g])
  then show ?case using reach_genesis(1) by simp
next
  case (reach_process L b T ret L')
  have ok: "store_ok E (store L)" by (rule reach_process(4)[OF reach_process(5)])
  obtain r L1 where "process E T L b = Some (r, L1)" "store_ok E (store L1)"
    by (rule process_keeps_store_ok[OF ok reach_process(2)])
  then show ?case using reach_process(3) by simp
next
  case (reach_rollback L h b T L')
  have ok: "store_ok E (store L)" by (rule reach_rollback(5)[OF reach_rollback(6)])
  obtain L1 where "rollback E T L h = Some L1" "store_ok E (store L1)"
    by (rule rollback_keeps_store_ok[OF ok reach_rollback(2,3)])
  then show ?case using reach_rollback(4) by simp
qed

lemma reachableE:
  assumes "reachable E L" "env_ok E"
  obtains C N where "dbs_wf (dbs (store L))" "ledger_inv E (view_of (store L)) C N"
  using reachable_store_ok[OF assms] by (rule store_okE)

text \<open>What \<open>process\<close> does, on a store that satisfies the invariant.\<close>

lemma process_resultD:
  assumes ok: "store_ok E (store L)" and sane: "hash_sane E b" and pr: "process E T L b = Some (ret, L')"
  shows "store_ok E (store L')" "ret_code ret = Progress \<Longrightarrow> ledger_step E T (view_of (store L)) b (view_of (store L'))"
    "ret_code ret \<noteq> Progress \<Longrightarrow> store L' = store L" "ret_code ret \<noteq> Progress \<Longrightarrow> \<not> ledger_step E T (view_of (store L)) b V'"
proof -
  obtain C N where wf: "dbs_wf (dbs (store L))" and inv: "ledger_inv E (view_of (store L)) C N" using ok by (rule store_okE)
  have "if ret_code ret = Progress then ledger_step E T (view_of (store L)) b (view_of (store L'))
      else store L' = store L \<and> (\<nexists>V'. ledger_step E T (view_of (store L)) b V')"
    using process_implements[OF wf inv sane, of T] pr unfolding implements_def by simp
  then show "ret_code ret = Progress \<Longrightarrow> ledger_step E T (view_of (store L)) b (view_of (store L'))"
    "ret_code ret \<noteq> Progress \<Longrightarrow> store L' = store L" "ret_code ret \<noteq> Progress \<Longrightarrow> \<not> ledger_step E T (view_of (store L)) b V'"
    by presburger+
  obtain ret1 L1 where "process E T L b = Some (ret1, L1)" "store_ok E (store L1)" by (rule process_keeps_store_ok[OF ok sane])
  then show "store_ok E (store L')" using pr by simp
qed

lemma accepted_not_genesis:
  assumes inv: "ledger_inv E V C N" and st: "ledger_step E T V b V'"
  shows "\<not> is_genesis (genesis_account E) b"
proof (cases b)
  case (Open ob)
  have none: "vP V (Pending_key a (genesis_account E)) = None" for a
    using no_pending_fresh[OF ledger_invD(5)[OF inv]] ledger_invD(1)[OF inv] unfolding hashes_ok_def by auto
  show ?thesis using st unfolding Open by (rule step_OpenE) (use none in \<open>auto simp: is_genesis_def\<close>)
qed (simp_all add: is_genesis_def)

lemma dom_view_successors: "dbs_wf (dbs s) \<Longrightarrow> dom (vS (view_of s)) = dom (vB (view_of s))"
  by (simp add: dom_suc)

lemma same_blocks_same_tables:
  assumes "store_ok E s" "store_ok E s'" "blk (dbs s) = blk (dbs s')"
  shows "same_tables (view_of s) (view_of s')"
proof -
  obtain C N where s: "dbs_wf (dbs s)" "ledger_inv E (view_of s) C N" using assms(1) by (rule store_okE)
  obtain C' N' where s': "dbs_wf (dbs s')" "ledger_inv E (view_of s') C' N'" using assms(2) by (rule store_okE)
  show ?thesis
    using blocks_determine_tables[OF s(2) s'(2) _ dom_view_successors[OF s(1)] dom_view_successors[OF s'(1)]] assms(3)
    by simp
qed

text \<open>Rolling back the block just accepted leaves the tables as they were.\<close>

lemma rollback_undoes_process:
  assumes ok: "store_ok E (store L)" and sane: "hash_sane E b"
    and pr: "process E T L b = Some (ret, L1)" "ret_code ret = Progress"
  obtains L2 where "rollback E T' L1 (block_hash E b) = Some L2" "same_tables (view_of (store L)) (view_of (store L2))"
proof -
  obtain C N where inv: "ledger_inv E (view_of (store L)) C N" using ok by (rule store_okE)
  have ok1: "store_ok E (store L1)" and st: "ledger_step E T (view_of (store L)) b (view_of (store L1))"
    using process_resultD(1,2)[OF ok sane pr(1)] pr(2) by simp_all
  have wf1: "dbs_wf (dbs (store L1))" using ok1 by (simp add: store_ok_def)
  obtain C1 N1 where n: "ledger_inv E (view_of (store L1)) C1 N1" "\<forall>x \<in> dom (vB (view_of (store L))). N1 x < N1 (block_hash E b)"
    "block_hash E b \<notin> dom (vB (view_of (store L)))"
    "vB (view_of (store L1)) = (vB (view_of (store L)))(block_hash E b \<mapsto> b)"
    by (rule ledger_step_newest[OF inv st sane])
  have B1: "blk (dbs (store L1)) (block_hash E b) = Some b" using n(4) by simp
  obtain L2 C2 where r: "rollback E T' L1 (block_hash E b) = Some L2"
    "rolls E N1 (\<lambda>_. 0) (N1 (block_hash E b)) (store L1) C1 (store L2) C2" "block_hash E b \<notin> dom (blk (dbs (store L2)))"
    by (rule rollback_total[OF wf1 n(1) B1 accepted_not_genesis[OF inv st]])
  note R = rollsD[OF r(2)]
  have "blk (dbs (store L2)) x = blk (dbs (store L)) x" for x
  proof (cases "x \<in> dom (blk (dbs (store L)))")
    case True
    then have x: "N1 x < N1 (block_hash E b)" "x \<noteq> block_hash E b" using n(2,3) by auto
    then have eq: "blk (dbs (store L1)) x = blk (dbs (store L)) x" using n(4) by (simp add: fun_eq_iff)
    then have "x \<in> dom (blk (dbs (store L2)))" using R(5)[of x] True x(1) by (metis domIff not_less)
    then show ?thesis using R(3) eq by (metis map_le_def)
  next
    case False
    then have "x \<notin> dom (blk (dbs (store L1)))" if "x \<noteq> block_hash E b" using that n(4) by (simp add: domIff fun_eq_iff)
    then have "x \<notin> dom (blk (dbs (store L2)))" using R(3) r(3) by (metis map_le_implies_dom_le subsetD)
    then show ?thesis using False by (simp add: domIff)
  qed
  moreover have "store_ok E (store L2)" using R(1,2) unfolding store_ok_def by (auto simp: shift_0)
  ultimately have "same_tables (view_of (store L)) (view_of (store L2))" using same_blocks_same_tables[OF ok] by (simp add: fun_eq_iff)
  with r(1) show ?thesis by (rule that)
qed


section \<open>What a rollback removes\<close>

text \<open>A block rests on its predecessor and on the send it receives.\<close>

definition rests_on :: "u256 \<Rightarrow> (u256 \<rightharpoonup> block) \<Rightarrow> u256 \<Rightarrow> u256 \<Rightarrow> bool" where
  "rests_on g B x y \<longleftrightarrow> (\<exists>b. B x = Some b \<and> (previous b = y \<and> y \<noteq> 0 \<or> receives g B b y))"

definition dependents :: "u256 \<Rightarrow> (u256 \<rightharpoonup> block) \<Rightarrow> u256 \<Rightarrow> u256 set" where
  "dependents g B h = {x. (rests_on g B)\<^sup>*\<^sup>* x h}"

text \<open>Blocks that do not rest on \<open>h\<close>, directly or not, could all have come before it.\<close>

lemma order_postpone:
  assumes "order_ok g V N" and K: "\<forall>x \<in> dom (vB V). N x < K"
  shows "order_ok g V (\<lambda>x. if x \<in> dependents g (vB V) h then N x + K else N x)"
proof -
  have N: "N y < N x" if "rests_on g (vB V) x y" for x y
    using that assms(1) unfolding rests_on_def order_ok_def by blast
  have dep: "x \<in> dependents g (vB V) h" if "rests_on g (vB V) x y" "y \<in> dependents g (vB V) h" for x y
    using that unfolding dependents_def by (auto intro: converse_rtranclp_into_rtranclp)
  have "(if y \<in> dependents g (vB V) h then N y + K else N y) < (if x \<in> dependents g (vB V) h then N x + K else N x)"
    if "rests_on g (vB V) x y" for x y
    using N[OF that] dep[OF that] by auto
  then show ?thesis unfolding order_ok_def rests_on_def by (auto simp del: if_split)
qed

lemma ledger_inv_order: "ledger_inv E V C N \<Longrightarrow> order_ok (genesis_account E) V N' \<Longrightarrow> ledger_inv E V C N'"
  unfolding ledger_inv_def by blast

lemma rests_on_closed:
  assumes inv: "ledger_inv E V C N" and r: "rests_on (genesis_account E) (vB V) x y"
  shows "y \<in> dom (vB V)"
proof -
  note I = ledger_invD[OF inv]
  obtain b where b: "vB V x = Some b" "previous b = y \<and> y \<noteq> 0 \<or> receives (genesis_account E) (vB V) b y"
    using r unfolding rests_on_def by blast
  obtain a where a: "x \<in> set (C a)" using chains_okD(9)[OF I(2), of x] b(1) by blast
  show ?thesis using b(2) previous_closed[OF I(2) b(1)] receipts_okD(1)[OF I(6) a b(1)] by blast
qed

lemma roll_rests_on:
  assumes inv: "ledger_inv E (view_of (shift W s)) C N" and rl: "rolls E N W' n s C s' C'"
    and x: "x \<in> dom (blk (dbs s'))"
  shows "rests_on (genesis_account E) (blk (dbs s')) x y \<longleftrightarrow> rests_on (genesis_account E) (blk (dbs s)) x y"
proof -
  obtain b where b: "blk (dbs s') x = Some b" using x by blast
  then have b': "blk (dbs s) x = Some b" using rollsD(3)[OF rl] x by (metis map_le_def)
  have "receives (genesis_account E) (blk (dbs s')) b y \<longleftrightarrow> receives (genesis_account E) (blk (dbs s)) b y"
    using roll_walks(3)[OF inv rl b] by (cases b) (auto simp: receives_def sends_to_def)
  then show ?thesis using b b' by (simp add: rests_on_def)
qed

lemma rollback_exact:
  assumes wf: "dbs_wf (dbs (store L))" and inv: "ledger_inv E (view_of (store L)) C N"
    and h: "blk (dbs (store L)) h = Some b" "\<not> is_genesis (genesis_account E) b"
  obtains L' where "rollback E T L h = Some L'" "store_ok E (store L')"
    "blk (dbs (store L')) = blk (dbs (store L)) |` (- dependents (genesis_account E) (blk (dbs (store L))) h)"
proof -
  let ?g = "genesis_account E" and ?B = "blk (dbs (store L))"
  let ?D = "dependents ?g ?B h"
  obtain K where K: "\<forall>x \<in> dom ?B. N x < K"
    using finite_dom_blk[OF wf] finite_nat_set_iff_bounded[of "N ` dom ?B"] by auto
  let ?N = "\<lambda>x. if x \<in> ?D then N x + K else N x"
  have inv1: "ledger_inv E (view_of (store L)) C ?N"
    using ledger_inv_order[OF inv] order_postpone[OF ledger_invD(7)[OF inv]] K by simp
  obtain L' C' where L': "rollback E T L h = Some L'" "rolls E ?N (\<lambda>_. 0) (?N h) (store L) C (store L') C'"
    "h \<notin> dom (blk (dbs (store L')))"
    by (rule rollback_total[OF wf inv1 h])
  note R = rollsD[OF L'(2)]
  have inv0: "ledger_inv E (view_of (shift (\<lambda>_. 0) (store L))) C ?N" using inv1 by (simp add: shift_0)
  have only: "x \<in> ?D" if "x \<in> dom ?B" "x \<notin> dom (blk (dbs (store L')))" for x
  proof (rule ccontr)
    assume "x \<notin> ?D"
    moreover have "h \<in> ?D" by (simp add: dependents_def)
    ultimately have "N h + K \<le> N x" using R(5)[OF that] by presburger
    moreover have "N x < K" using K that(1) by blast
    ultimately show False by linarith
  qed
  have step: "y \<in> dom (blk (dbs (store L')))" if "rests_on ?g ?B x y" "x \<in> dom (blk (dbs (store L')))" for x y
    using rests_on_closed[OF R(2), of x y] roll_rests_on[OF inv0 L'(2) that(2), of y] that(1) by simp
  have all: "x \<notin> dom (blk (dbs (store L')))" if "x \<in> ?D" for x
  proof
    assume "x \<in> dom (blk (dbs (store L')))"
    with that have "h \<in> dom (blk (dbs (store L')))"
      unfolding dependents_def mem_Collect_eq by (induction rule: converse_rtranclp_induct) (use step in blast)+
    with L'(3) show False ..
  qed
  have "blk (dbs (store L')) x = (?B |` (- ?D)) x" for x
  proof (cases "x \<in> dom (blk (dbs (store L')))")
    case True
    then show ?thesis using R(3) all[of x] by (auto simp: map_le_def restrict_map_def)
  next
    case False
    then show ?thesis using only[of x] by (cases "?B x") (auto simp: restrict_map_def)
  qed
  moreover have "store_ok E (store L')" using R(1,2) unfolding store_ok_def by (auto simp: shift_0)
  ultimately show ?thesis using that L'(1) by blast
qed

end
