(* ===== verification/Rai_Ledger_Codes.thy ===== *)
theory Rai_Ledger_Codes
  imports Rai_Ledger_Runs
begin

text \<open>
  What the result codes of \<open>process\<close> say about the ledger: a gap names a block that is missing, a
  fork means that another block has the place, and \<open>forked_block\<close> finds it.
\<close>

section \<open>Result codes\<close>

lemmas process_defs = process_send_def process_receive_def process_open_def process_change_def process_state_def
  state_position_def state_link_def state_apply_def process_def

lemma code_old:
  assumes "dbs_wf (dbs (store L))" "block_hash E b \<noteq> 0" "process E T L b = Some (ret, L')"
  shows "ret_code ret = Old \<longleftrightarrow> block_hash E b \<in> dom (blk (dbs (store L)))"
  using assms
  by (cases b) (auto simp: process_defs Let_def return_code_def block_exists_iff bind_eq_Some_conv
      split: if_splits option.splits prod.splits)

lemma code_gap_previous:
  assumes wf: "dbs_wf (dbs (store L))" and inv: "ledger_inv E (view_of (store L)) C N"
    and pr: "process E T L b = Some (ret, L')" "ret_code ret = Gap_previous"
  shows "previous b \<notin> dom (blk (dbs (store L))) \<or>
    (\<exists>tb. b = State tb \<and> accounts (store L) (st_account (state_hashables tb)) = None \<and> previous b \<noteq> 0)"
proof (cases b)
  case (Receive rb)
  have "head i = h" if "frontiers (store L) h = Some a" "accounts (store L) a = Some i" for h a i
    using that ledger_invD(3)[OF inv] unfolding frontiers_ok_def by auto
  moreover have "accounts (store L) a \<noteq> None" if "frontiers (store L) h = Some a" for h a
    using that ledger_invD(3)[OF inv] unfolding frontiers_ok_def by auto
  ultimately show ?thesis
    using pr Receive unfolding process_defs
    by (auto simp: Let_def return_code_def block_exists_iff[OF wf] block_get_blk[OF wf] bind_eq_Some_conv frontier_get_def account_get_def
        split: if_splits option.splits)
qed (use pr in \<open>auto simp: process_defs Let_def return_code_def block_exists_iff[OF wf] block_get_blk[OF wf] bind_eq_Some_conv account_get_def
      split: if_splits option.splits prod.splits\<close>)

lemma head_balance:
  assumes wf: "dbs_wf (dbs s)" and inv: "ledger_inv E (view_of s) C N" and i: "accounts s a = Some i"
  shows "ledger_balance E s (head i) = Some (balance i)" "representative_calculated E s (head i) = Some (rep_block i)"
proof -
  have w: "walkable E s" by (rule inv_walkable[OF wf inv])
  have v: "bal_of (genesis_account E) (blk (dbs s)) (head i) (balance i)" "rep_of (blk (dbs s)) (head i) (rep_block i)"
    using ledger_invD(4)[OF inv] i unfolding values_ok_def by auto
  show "ledger_balance E s (head i) = Some (balance i)"
    using block_balance_correct[OF w v(1)] by (simp add: ledger_balance_def block_balance_def)
  show "representative_calculated E s (head i) = Some (rep_block i)"
    using representative_compute_correct[OF w v(2)] by (simp add: representative_calculated_def)
qed

lemma code_gap_source:
  assumes wf: "dbs_wf (dbs (store L))" and inv: "ledger_inv E (view_of (store L)) C N"
    and pr: "process E T L b = Some (ret, L')" "ret_code ret = Gap_source"
  shows "\<exists>x. block_source E (store L) b = Some x \<and> x \<notin> dom (blk (dbs (store L)))"
proof (cases b)
  case (State tb)
  have z: "blk (dbs (store L)) 0 = None" using ledger_invD(1)[OF inv] unfolding hashes_ok_def by (cases "blk (dbs (store L)) 0") auto
  have "is_send E (store L) tb = Some False \<and> st_link (state_hashables tb) \<notin> dom (blk (dbs (store L)))"
    using pr State z wf head_balance(1)[OF wf inv]
    by (auto simp: process_defs Let_def return_code_def block_exists_iff block_get_blk bind_eq_Some_conv account_get_def is_send_def
      split: if_splits option.splits prod.splits)
  then show ?thesis using State by (simp add: block_source_def)
qed (use pr in \<open>auto simp: process_defs Let_def return_code_def block_exists_iff[OF wf] block_get_blk[OF wf] bind_eq_Some_conv account_get_def
      block_source_def split: if_splits option.splits prod.splits\<close>)

text \<open>Every block of a chain but the newest has a successor that names it.\<close>

lemma chain_successor:
  assumes ch: "chains_ok V C" and x: "h \<in> set (C a)" and i: "vA V a = Some i" and nh: "h \<noteq> head i"
  obtains y c where "y \<in> set (C a)" "vB V y = Some c" "previous c = h" "vS V h = Some y"
proof -
  obtain zs ys where ca: "C a = zs @ h # ys" using x by (meson split_list)
  then obtain y zs' where zs: "zs = zs' @ [y]" using nh chains_okD(3)[OF ch i] by (cases zs rule: rev_cases) auto
  have y: "y \<in> set (C a)" using ca zs by simp
  then obtain b where b: "vB V y = Some b" using chains_okD(9)[OF ch, of y] by auto
  have "position_ok (vB V) b (h # ys)" using chain_position[OF ch _ b, of a zs' "h # ys"] ca zs by simp
  then have p: "previous b = h" by (simp add: position_ok_def)
  have "vS V h = Some y" if "linked (vB V) (vS V) n (zs' @ y # h # ys)" for n zs'
    using that by (induction zs' arbitrary: n) auto
  then have "vS V h = Some y" using chains_okD(10)[OF ch, of a] ca zs by simp
  then show ?thesis using that y b p by blast
qed

text \<open>A root is taken when a block follows it or opens it.\<close>

lemma root_followed:
  assumes inv: "ledger_inv E (view_of s) C N" and p: "p \<in> set (C a)" and i: "accounts s a = Some i" and nh: "p \<noteq> head i"
  shows "\<exists>x bx. blk (dbs s) x = Some bx \<and> root bx = p \<and> suc (dbs s) p = Some x"
proof -
  note I = ledger_invD[OF inv]
  have i': "vA (view_of s) a = Some i" using i by simp
  obtain y d where y: "y \<in> set (C a)" "vB (view_of s) y = Some d" "previous d = p" "vS (view_of s) p = Some y"
    by (rule chain_successor[OF I(2) p i' nh])
  have "p \<noteq> 0" using p chains_okD(9)[OF I(2), of p] I(1) unfolding hashes_ok_def by auto
  then have "root d = p" using y(3) by (cases d) auto
  then show ?thesis using y(2,4) by auto
qed

lemma root_opened:
  assumes inv: "ledger_inv E (view_of s) C N" and i: "accounts s a = Some i"
  shows "\<exists>bx. blk (dbs s) (open_block i) = Some bx \<and> root bx = a"
proof -
  note I = ledger_invD[OF inv] note c = chains_okD[OF I(2)]
  have l: "last (C a) \<in> set (C a)" "C a = butlast (C a) @ [last (C a)]" "open_block i = last (C a)"
    using c(6)[of a i] c(4)[of a i] i by simp_all
  obtain d where d: "vB (view_of s) (last (C a)) = Some d" using c(9)[of "last (C a)"] l(1) by auto
  have "position_ok (vB (view_of s)) d []" by (rule chain_position[OF I(2) l(2) d])
  moreover have "owner_ok a d" by (rule c(11)[OF l(1) d])
  ultimately have "root d = a" by (cases d) (auto simp: position_ok_def owner_ok_def)
  then show ?thesis using d l(3) by auto
qed

lemma root_legacy:
  assumes inv: "ledger_inv E (view_of s) C N" and q: "blk (dbs s) p = Some q" "\<not> is_state q" and f: "frontier_get s p = 0"
  shows "\<exists>x bx. blk (dbs s) x = Some bx \<and> root bx = p \<and> suc (dbs s) p = Some x"
proof -
  note I = ledger_invD[OF inv] note c = chains_okD[OF I(2)]
  obtain a where a: "p \<in> set (C a)" using c(9)[of p] q(1) by auto
  then obtain i where i: "accounts s a = Some i" using c(1)[of a] by (cases "accounts s a") auto
  have "p \<noteq> head i"
  proof
    assume "p = head i"
    moreover have "\<not> state_at (blk (dbs s)) p" using q by (simp add: state_at_def)
    ultimately have "frontiers s p = Some a" using I(3) i unfolding frontiers_ok_def by auto
    then show False using f c(2)[of a i] i by (simp add: frontier_get_def)
  qed
  then show ?thesis by (rule root_followed[OF inv a i])
qed

lemma code_fork_legacy:
  assumes wf: "dbs_wf (dbs (store L))" and pr: "process E T L b = Some (ret, L')" "ret_code ret = Fork" and leg: "\<not> is_state b"
  shows "(\<exists>i. accounts (store L) (root b) = Some i \<and> previous b = 0) \<or>
    (\<exists>q. blk (dbs (store L)) (root b) = Some q \<and> \<not> is_state q \<and> frontier_get (store L) (root b) = 0)"
  using pr leg
  by (cases b) (auto simp: process_defs Let_def return_code_def block_exists_iff[OF wf] block_get_blk[OF wf] bind_eq_Some_conv account_get_def
      is_state_def split: if_splits option.splits block_type.splits)

lemma code_fork_state:
  assumes wf: "dbs_wf (dbs (store L))" and inv: "ledger_inv E (view_of (store L)) C N"
    and pr: "process E T L (State tb) = Some (ret, L')" "ret_code ret = Fork"
  obtains i where "accounts (store L) (st_account (state_hashables tb)) = Some i"
    "st_previous (state_hashables tb) = 0 \<or> st_previous (state_hashables tb) \<in> dom (blk (dbs (store L))) - {head i}"
  using pr
  by (auto simp: process_defs Let_def return_code_def block_exists_iff[OF wf] block_get_blk[OF wf] bind_eq_Some_conv account_get_def
      split: if_splits option.splits prod.splits)

lemma code_fork:
  assumes wf: "dbs_wf (dbs (store L))" and inv: "ledger_inv E (view_of (store L)) C N"
    and pr: "process E T L b = Some (ret, L')" "ret_code ret = Fork"
    and own: "\<And>tb. b = State tb \<Longrightarrow> previous b \<noteq> 0 \<Longrightarrow> ledger_account (store L) (previous b) = Some (st_account (state_hashables tb))"
  shows "(\<exists>x bx. blk (dbs (store L)) x = Some bx \<and> root bx = root b \<and> suc (dbs (store L)) (root b) = Some x) \<or>
    (\<exists>i bx. accounts (store L) (root b) = Some i \<and> previous b = 0 \<and> blk (dbs (store L)) (open_block i) = Some bx \<and> root bx = root b)"
proof (cases "is_state b")
  case False
  then show ?thesis using code_fork_legacy[OF wf pr False] root_legacy[OF inv] root_opened[OF inv] by metis
next
  case True
  then obtain tb where b: "b = State tb" by (cases b) simp_all
  let ?a = "st_account (state_hashables tb)" and ?p = "st_previous (state_hashables tb)"
  obtain i where i: "accounts (store L) ?a = Some i" "?p = 0 \<or> ?p \<in> dom (blk (dbs (store L))) - {head i}"
    by (rule code_fork_state[OF wf inv pr[unfolded b]])
  show ?thesis
  proof (cases "?p = 0")
    case True
    then show ?thesis using root_opened[OF inv i(1)] i(1) b by auto
  next
    case False
    then have p: "?p \<in> dom (blk (dbs (store L)))" "?p \<noteq> head i" using i(2) by auto
    then obtain a where a: "?p \<in> set (C a)" using chains_okD(9)[OF ledger_invD(2)[OF inv], of ?p] by auto
    then have "a = ?a" using ledger_account_correct[OF wf inv a] own[OF b] b False by simp
    then show ?thesis using root_followed[OF inv _ i(1) p(2)] a b False by auto
  qed
qed

lemma forked_block_correct:
  assumes wf: "dbs_wf (dbs (store L))" and inv: "ledger_inv E (view_of (store L)) C N" and sane: "hash_sane E b"
    and pr: "process E T L b = Some (ret, L')" "ret_code ret = Fork"
    and own: "\<And>tb. b = State tb \<Longrightarrow> previous b \<noteq> 0 \<Longrightarrow> ledger_account (store L) (previous b) = Some (st_account (state_hashables tb))"
    and acc: "previous b = 0 \<Longrightarrow> root b \<notin> dom (blk (dbs (store L)))"
  shows "\<exists>x. forked_block E (store L) b = Some x \<and> root x = root b \<and> blk (dbs (store L)) (block_hash E x) = Some x"
proof -
  let ?s = "store L"
  note I = ledger_invD[OF inv]
  have fresh: "\<not> block_exists ?s (block_hash E b)"
    using code_old[OF wf _ pr(1)] pr(2) sane by (simp add: hash_sane_def block_exists_iff[OF wf])
  have hash: "block_hash E x = h" if "blk (dbs ?s) h = Some x" for h x using I(1) that unfolding hashes_ok_def by simp
  have z: "blk (dbs ?s) 0 = None" using I(1) unfolding hashes_ok_def by (cases "blk (dbs ?s) 0") auto
  consider (follow) x bx where "blk (dbs ?s) x = Some bx" "root bx = root b" "suc (dbs ?s) (root b) = Some x"
    | (opened) i bx where "accounts ?s (root b) = Some i" "previous b = 0" "blk (dbs ?s) (open_block i) = Some bx" "root bx = root b"
    using code_fork[OF wf inv pr own] by blast
  then show ?thesis
  proof cases
    case follow
    have "root b \<in> dom (blk (dbs ?s))" using follow(3) dom_suc[OF wf] by blast
    then show ?thesis
      using fresh follow hash[OF follow(1)]
      by (simp add: forked_block_def Let_def block_exists_iff[OF wf] block_successor_suc[OF wf] block_get_blk[OF wf])
  next
    case opened
    have "root b \<notin> dom (suc (dbs ?s))" using acc[OF opened(2)] dom_suc[OF wf] by simp
    then have "suc (dbs ?s) (root b) = None" by (simp add: domIff)
    moreover have "account_exists ?s (root b)" using I(12) opened(1) by (auto simp: account_exists_iff finite_ok_def)
    ultimately show ?thesis
      using fresh opened hash[OF opened(3)] z
      by (simp add: forked_block_def Let_def block_successor_suc[OF wf] block_get_blk[OF wf] account_get_def)
  qed
qed

end
