(* ===== verification/Rai_Ledger_Queries.thy ===== *)
theory Rai_Ledger_Queries
  imports Rai_Ledger
begin

text \<open>
  The queries of the ledger that visit many entries: the tally of an election and its winner, and
  the sum of an account's pending amounts.
\<close>

section \<open>Tallies\<close>

definition voted_weight :: "ledger \<Rightarrow> (u256 \<times> block) list \<Rightarrow> block \<Rightarrow> u128" where
  "voted_weight L vs b = (\<Sum>v \<leftarrow> vs. if snd v = b then fst (weight L (fst v)) else 0)"

text \<open>Asking for a weight may switch the bootstrap weights off; it does not change any weight.\<close>

lemma weight_stable: "fst (weight (snd (weight L r)) r') = fst (weight L r')"
  by (simp add: weight_def Let_def split: option.split)

lemma total_add_lookup:
  "map_of (total_add b w ts) = (map_of ts)(b \<mapsto> (case map_of ts b of None \<Rightarrow> 0 | Some t \<Rightarrow> t) + w)"
  by (induction ts) (auto simp: block_equal_iff fun_eq_iff)

lemma total_add_keys: "fst ` set (total_add b w ts) = insert b (fst ` set ts)"
  using arg_cong[OF total_add_lookup[of b w ts], of dom] by (simp add: dom_map_of_conv_image_fst)

lemma total_add_distinct: "distinct (map fst ts) \<Longrightarrow> distinct (map fst (total_add b w ts))"
proof (induction ts)
  case (Cons t ts)
  then show ?case using total_add_keys[of b w ts] by (cases t; cases "fst t = b") (simp_all add: block_equal_iff)
qed simp

lemma tally_totals_correct:
  "distinct (map fst ts) \<Longrightarrow> tally_totals L vs ts = (totals, L') \<Longrightarrow>
    distinct (map fst totals) \<and> (\<forall>b. map_of totals b = (if map_of ts b \<noteq> None \<or> b \<in> snd ` set vs
      then Some ((case map_of ts b of None \<Rightarrow> 0 | Some t \<Rightarrow> t) + voted_weight L vs b) else None))"
proof (induction vs arbitrary: L ts)
  case Nil
  then show ?case by (auto simp: voted_weight_def split: option.split)
next
  case (Cons v vs)
  obtain r c where v: "v = (r, c)" by (cases v)
  obtain w L1 where w: "weight L r = (w, L1)" by (cases "weight L r")
  have eq: "voted_weight L1 vs b = voted_weight L vs b" for b
    using weight_stable[of L r] w unfolding voted_weight_def by (intro arg_cong[where f = sum_list] map_cong) simp_all
  have "voted_weight L (v # vs) b = (if c = b then w else 0) + voted_weight L1 vs b" for b
    unfolding eq using v w by (simp add: voted_weight_def)
  then show ?case
    using Cons(1)[OF total_add_distinct[OF Cons(2), of c w], of L1] Cons(3) v w
    by (auto simp: total_add_lookup add.assoc split: option.split)
qed

lemma tally_insert_keys: "fst ` set (tally_insert w b m) = insert w (fst ` set m)"
  by (induction m rule: tally_insert.induct) (simp_all add: insert_commute)

lemma tally_insert_member: "x \<in> set (tally_insert w b m) \<Longrightarrow> x = (w, b) \<or> x \<in> set m"
  by (induction m rule: tally_insert.induct) (auto split: if_splits)

lemma tally_insert_sorted: "sorted_wrt (\<lambda>x y. fst y < fst x) m \<Longrightarrow> sorted_wrt (\<lambda>x y. fst y < fst x) (tally_insert w b m)"
proof (induction m rule: tally_insert.induct)
  case (2 w b w' b' rest)
  have "fst x < w'" if "x \<in> set (tally_insert w b rest)" "\<not> w' < w" "w \<noteq> w'" for x
    using tally_insert_member[OF that(1)] that(2,3) 2(2) by auto
  moreover have "fst x < w" if "x \<in> set rest" "w' < w" for x using 2(2) that by (auto dest: order.strict_trans)
  ultimately show ?case using 2 by auto
qed simp

lemma tally_fold:
  assumes "sorted_wrt (\<lambda>x y. fst y < fst x) m"
  shows "sorted_wrt (\<lambda>x y. fst y < fst x) (foldl (\<lambda>m (b, w). tally_insert w b m) m ts)
    \<and> fst ` set (foldl (\<lambda>m (b, w). tally_insert w b m) m ts) = fst ` set m \<union> snd ` set ts
    \<and> set (foldl (\<lambda>m (b, w). tally_insert w b m) m ts) \<subseteq> set m \<union> (\<lambda>(b, w). (w, b)) ` set ts"
  using assms
proof (induction ts arbitrary: m)
  case (Cons t ts)
  obtain b w where t: "t = (b, w)" by (cases t)
  note IH = Cons(1)[OF tally_insert_sorted[OF Cons(2), of w b]]
  moreover have "set (tally_insert w b m) \<subseteq> insert (w, b) (set m)" using tally_insert_member[of _ w b m] by blast
  ultimately show ?case using tally_insert_keys[of w b m] unfolding t by auto
qed simp

lemma tally_correct:
  assumes "tally L vs = (t, L')"
  shows "sorted_wrt (\<lambda>x y. fst y < fst x) t" "fst ` set t = voted_weight L (rep_votes vs) ` snd ` set (rep_votes vs)"
    "(w, b) \<in> set t \<Longrightarrow> b \<in> snd ` set (rep_votes vs) \<and> w = voted_weight L (rep_votes vs) b"
proof -
  obtain ts L1 where ts: "tally_totals L (rep_votes vs) [] = (ts, L1)" by fastforce
  have t: "t = foldl (\<lambda>m (b, w). tally_insert w b m) [] ts" using assms ts by (simp add: tally_def)
  have "distinct (map fst [])" by simp
  note C = tally_totals_correct[OF this ts]
  have m: "(b, w) \<in> set ts \<longleftrightarrow> b \<in> snd ` set (rep_votes vs) \<and> w = voted_weight L (rep_votes vs) b" for b w
    using C map_of_eq_Some_iff[of ts b w] by (auto split: if_splits)
  show "sorted_wrt (\<lambda>x y. fst y < fst x) t" using tally_fold[of "[]" ts] t by simp
  show "fst ` set t = voted_weight L (rep_votes vs) ` snd ` set (rep_votes vs)"
  proof -
    have "snd ` set ts = voted_weight L (rep_votes vs) ` snd ` set (rep_votes vs)"
    proof (rule set_eqI)
      fix w
      have "w \<in> snd ` set ts \<longleftrightarrow> (\<exists>b. (b, w) \<in> set ts)" by force
      also have "\<dots> \<longleftrightarrow> (\<exists>b. b \<in> snd ` set (rep_votes vs) \<and> w = voted_weight L (rep_votes vs) b)" by (simp only: m)
      finally show "w \<in> snd ` set ts \<longleftrightarrow> w \<in> voted_weight L (rep_votes vs) ` snd ` set (rep_votes vs)" by blast
    qed
    then show ?thesis using tally_fold[of "[]" ts] t by simp
  qed
  show "b \<in> snd ` set (rep_votes vs) \<and> w = voted_weight L (rep_votes vs) b" if "(w, b) \<in> set t"
    using tally_fold[of "[]" ts] t m that by auto
qed

lemma winner_correct:
  assumes "winner L vs = Some ((w, b), L')"
  shows "b \<in> snd ` set (rep_votes vs)" "w = voted_weight L (rep_votes vs) b"
    "c \<in> snd ` set (rep_votes vs) \<Longrightarrow> voted_weight L (rep_votes vs) c \<le> w"
proof -
  obtain t L1 where t: "tally L vs = (t, L1)" by fastforce
  then obtain r where r: "t = (w, b) # r" using assms by (auto simp: winner_def split: list.splits)
  note T = tally_correct[OF t]
  show "b \<in> snd ` set (rep_votes vs)" "w = voted_weight L (rep_votes vs) b" using T(3)[of w b] r by auto
  show "voted_weight L (rep_votes vs) c \<le> w" if "c \<in> snd ` set (rep_votes vs)"
  proof -
    have "voted_weight L (rep_votes vs) c \<in> fst ` set t" using T(2) that by blast
    then show ?thesis using T(1) r by (auto intro: less_imp_le)
  qed
qed

section \<open>The pending amount of an account\<close>

lemma sorted_filter_split:
  fixes k k' :: "'a::linorder"
  assumes "sorted xs" "k \<le> k'"
  shows "filter (\<lambda>x. k \<le> x) xs = filter (\<lambda>x. k \<le> x \<and> x < k') xs @ filter (\<lambda>x. k' \<le> x) xs"
  using assms
proof (induction xs)
  case (Cons x xs)
  show ?case
  proof (cases "k' \<le> x")
    case True
    then have "filter (\<lambda>x. k \<le> x \<and> x < k') (x # xs) = []" using Cons(2) by (auto simp: filter_empty_conv)
    moreover have "filter (\<lambda>x. k \<le> x) (x # xs) = filter (\<lambda>x. k' \<le> x) (x # xs)"
      using Cons(2,3) True by (intro filter_cong) auto
    ultimately show ?thesis by (simp only: append_Nil)
  qed (use Cons in auto)
qed simp

declare pending_loop.simps [simp del]

lemma pending_loop_sum:
  "\<forall>k \<in> set xs. pending s k \<noteq> None \<Longrightarrow>
    pending_loop s (xs @ n) n r = Some (r + (\<Sum>k \<leftarrow> xs. pending_amount (the (pending s k))))"
proof (induction xs arbitrary: r)
  case (Cons k xs)
  have "length (k # xs @ n) \<noteq> length n" by simp
  then have "k # xs @ n \<noteq> n" by metis
  moreover obtain i where i: "pending s k = Some i" using Cons(2) by auto
  ultimately have "pending_loop s ((k # xs) @ n) n r = pending_loop s (xs @ n) n (r + pending_amount i)"
    by (subst pending_loop.simps) simp
  then show ?case using Cons(1)[of "r + pending_amount i"] Cons(2) i by (simp add: add.assoc)
qed (subst pending_loop.simps, simp)

lemma account_pending_sum:
  assumes fin: "finite (dom (pending s))" and a: "a \<noteq> - 1"
  shows "account_pending s a = Some (\<Sum>k \<in> {k \<in> dom (pending s). key_account k = a}. pending_amount (the (pending s k)))"
proof -
  let ?P = "pending s" and ?lo = "Pending_key a 0" and ?hi = "Pending_key (a + 1) 0"
  let ?xs = "filter (\<lambda>k. ?lo \<le> k \<and> k < ?hi) (sorted_list_of_set (dom ?P))"
  have lt: "a < a + 1" using a inc_less_eq_self_iff_eq[of a] by (simp add: not_le)
  have "?lo \<le> ?hi" using lt by (simp add: less_eq_pending_key_def)
  then have split: "cursor_range ?P ?lo = ?xs @ cursor_range ?P ?hi"
    unfolding cursor_range_def cursor_first_def by (intro sorted_filter_split) simp_all
  have "key_account k < a + 1 \<longleftrightarrow> \<not> a < key_account k" for k
    using inc_less_eq_iff[of a "key_account k"] a by (simp flip: not_le)
  then have "?lo \<le> k \<and> k < ?hi \<longleftrightarrow> key_account k = a" for k
    using lt by (cases a "key_account k" rule: linorder_cases) (auto simp: less_eq_pending_key_def less_pending_key_def)
  then have set: "set ?xs = {k \<in> dom ?P. key_account k = a}" using fin by auto
  have "distinct ?xs" by simp
  then have "(\<Sum>k \<leftarrow> ?xs. pending_amount (the (?P k))) = (\<Sum>k \<in> {k \<in> dom ?P. key_account k = a}. pending_amount (the (?P k)))"
    unfolding set[symmetric] by (rule sum_list_distinct_conv_sum_set)
  moreover have "\<forall>k \<in> set ?xs. ?P k \<noteq> None" using set by auto
  ultimately show ?thesis unfolding account_pending_def split by (simp add: pending_loop_sum)
qed

end
