(* ===== verification/Rai_Node_Inv.thy ===== *)
theory Rai_Node_Inv
  imports Rai_Node_Steps Rai_Ledger_Codes Rai_Ledger_Queries
begin

text \<open>
  What holds in every state of the node: the ledger invariant, the work of every block that is
  queued, waits, stands in an election or is stored, the shape of the elections and of the peers.
  It is kept by every task, and under it no task fails an assertion but in the cases named at the
  end.
\<close>

section \<open>The tables beside the ledger\<close>

definition side_tables :: "block_store \<Rightarrow> (u256 \<Rightarrow> byte list list) \<times> (u256 \<times> block) list \<times> (u256 \<rightharpoonup> byte list) \<times> (u256 \<rightharpoonup> vote)" where
  "side_tables s = (unchecked_table s, unchecked_cache s, vote_table s, vote_cache s)"

named_theorems side_dest

lemma side_tables_update [simp]:
  "side_tables (account_put s a i) = side_tables s" "side_tables (frontier_put s h a) = side_tables s"
  "side_tables (pending_put s k p) = side_tables s" "side_tables (block_info_put s h bi) = side_tables s"
  "side_tables (representation_put s a w) = side_tables s"
  by (simp_all add: side_tables_def account_put_def frontier_put_def pending_put_def block_info_put_def representation_put_def)

lemma side_tables_partial [side_dest]:
  "account_del s a = Some s' \<Longrightarrow> side_tables s' = side_tables s"
  "frontier_del s h = Some s' \<Longrightarrow> side_tables s' = side_tables s"
  "pending_del s k = Some s' \<Longrightarrow> side_tables s' = side_tables s"
  "block_info_del s h = Some s' \<Longrightarrow> side_tables s' = side_tables s"
  "checksum_put s p m c = Some s' \<Longrightarrow> side_tables s' = side_tables s"
  "block_put_raw s t h v = Some s' \<Longrightarrow> side_tables s' = side_tables s"
  "block_del s h = Some s' \<Longrightarrow> side_tables s' = side_tables s"
  "representation_add s h w = Some s' \<Longrightarrow> side_tables s' = side_tables s"
  by (auto simp: side_tables_def account_del_def frontier_del_def pending_del_def block_info_del_def checksum_put_def
    block_put_raw_def block_del_def representation_add_def representation_put_def bind_Some_iff Let_def split: if_splits)

lemma side_tables_fill [side_dest]: "fill_value E s b = Some s' \<Longrightarrow> side_tables s' = side_tables s"
  by (auto simp: fill_value_def bind_Some_iff split: option.splits if_splits dest!: side_dest)

lemma side_tables_predecessor [side_dest]: "set_predecessor E s b = Some s' \<Longrightarrow> side_tables s' = side_tables s"
  by (cases b) (auto split: if_splits dest!: side_dest)

lemma side_tables_block_put [side_dest]: "block_put E s h b x = Some s' \<Longrightarrow> side_tables s' = side_tables s"
  by (auto simp: block_put_def bind_Some_iff split: if_splits dest!: side_dest)

lemma side_tables_clear [side_dest]: "block_successor_clear E s h = Some s' \<Longrightarrow> side_tables s' = side_tables s"
  by (auto simp: block_successor_clear_def bind_Some_iff dest!: side_dest)

lemma side_tables_checksum [side_dest]: "ledger_checksum_update s h = Some s' \<Longrightarrow> side_tables s' = side_tables s"
  by (auto simp: ledger_checksum_update_def bind_Some_iff dest!: side_dest)

lemma side_tables_latest [side_dest]: "change_latest T s a h r w n f = Some s' \<Longrightarrow> side_tables s' = side_tables s"
  by (auto simp: change_latest_def bind_Some_iff Let_def split: if_splits option.splits dest!: side_dest)

lemma process_side_tables:
  "process_send E T L sb = Some (ret, L') \<Longrightarrow> side_tables (store L') = side_tables (store L)"
  "process_receive E T L rb = Some (ret, L') \<Longrightarrow> side_tables (store L') = side_tables (store L)"
  "process_open E T L ob = Some (ret, L') \<Longrightarrow> side_tables (store L') = side_tables (store L)"
  "process_change E T L cb = Some (ret, L') \<Longrightarrow> side_tables (store L') = side_tables (store L)"
  unfolding process_send_def process_receive_def process_open_def process_change_def Let_def
  by (auto simp: bind_Some_iff split: if_splits option.splits dest!: side_dest)

lemma side_tables_if [side_dest]:
  "(if c then representation_add s h w else Some s) = Some s' \<Longrightarrow> side_tables s' = side_tables s"
  "(if c then frontier_del s h else Some s) = Some s' \<Longrightarrow> side_tables s' = side_tables s"
  "(if c then Some (pending_put s k p, x) else if d then Option.bind (pending_del s k') (\<lambda>s. Some (s, y)) else Some (s, z))
     = Some (s', x') \<Longrightarrow> side_tables s' = side_tables s"
  by (auto simp: bind_Some_iff split: if_splits dest!: side_dest)

lemma state_apply_side_tables:
  "state_apply E T L tb x w i = Some (ret, L') \<Longrightarrow> side_tables (store L') = side_tables (store L)"
  unfolding state_apply_def Let_def by (clarsimp simp only: bind_Some_iff prod.case option.inject prod.inject split_paired_Ex)
    (drule side_dest side_tables_if, simp)+

lemma process_keeps_side_tables [side_dest]:
  assumes "process E T L b = Some (ret, L')"
  shows "side_tables (store L') = side_tables (store L)"
proof (cases b)
  case (State tb)
  obtain code x w i L1 where p: "state_position T L tb = (code, x, w, i, L1)" by (cases "state_position T L tb") auto
  then have "store L1 = store L" by (auto simp: state_position_def Let_def split: option.splits if_splits)
  then show ?thesis
    using assms State p by (auto simp: process_def process_state_def Let_def split: if_splits dest: state_apply_side_tables)
qed (use assms in \<open>simp_all add: process_def process_side_tables\<close>)

lemma rollback_handlers_side_tables:
  "rollback_send E T L sb = Some L' \<Longrightarrow> side_tables (store L') = side_tables (store L)"
  "rollback_receive E T L rb = Some L' \<Longrightarrow> side_tables (store L') = side_tables (store L)"
  "rollback_open E T L ob = Some L' \<Longrightarrow> side_tables (store L') = side_tables (store L)"
  "rollback_change E T L cb = Some L' \<Longrightarrow> side_tables (store L') = side_tables (store L)"
  "rollback_state_begin E L tb = Some (r, w, x, L') \<Longrightarrow> side_tables (store L') = side_tables (store L)"
  unfolding rollback_send_def rollback_receive_def rollback_open_def rollback_change_def rollback_state_begin_def Let_def
  by (auto simp: bind_Some_iff split: if_splits dest!: side_dest)

lemma rollback_state_end_side_tables:
  "rollback_state_end E T L tb r w x = Some L' \<Longrightarrow> side_tables (store L') = side_tables (store L)"
  unfolding rollback_state_end_def Let_def
  by (auto simp: bind_Some_iff split: if_splits option.splits dest!: side_dest)

lemma rollback_run_side_tables: "rollback_run E T task L = Some L' \<Longrightarrow> side_tables (store L') = side_tables (store L)"
proof (induction rule: rollback_run.raw_induct [rotated, consumes 1, case_names run])
  case (run rollback_rec E T task L L')
  show ?case
  proof (cases task)
    case (Rollback h)
    then show ?thesis using run by (auto simp: bind_Some_iff split: if_splits)
  next
    case (Rollback_pending key)
    then show ?thesis using run by (fastforce simp: bind_Some_iff split: if_splits)
  next
    case (Rollback_loop a h)
    show ?thesis
    proof (cases "block_exists (store L) h")
      case False
      then show ?thesis using run(2) Rollback_loop by simp
    next
      case True
      then obtain b L1 where L1: "(case b of
               Send sb \<Rightarrow> Option.bind (rollback_rec E T
                  (Rollback_pending (Pending_key (s_destination (send_hashables sb)) (block_hash E b))) L)
                  (\<lambda>L. rollback_send E T L sb)
             | Receive rb \<Rightarrow> rollback_receive E T L rb
             | Open ob \<Rightarrow> rollback_open E T L ob
             | Change cb \<Rightarrow> rollback_change E T L cb
             | State tb \<Rightarrow> Option.bind (rollback_state_begin E L tb) (\<lambda>(rep, balance_a, snd_a, L).
                  Option.bind (if snd_a then rollback_rec E T
                       (Rollback_pending (Pending_key (st_link (state_hashables tb)) (block_hash E b))) L else Some L)
                    (\<lambda>L. rollback_state_end E T L tb rep balance_a snd_a))) = Some L1"
          and rest: "rollback_rec E T (Rollback_loop a h) L1 = Some L'"
        using run(2) Rollback_loop by (simp add: bind_Some_iff) blast
      have "side_tables (store L1) = side_tables (store L)"
        using L1 by (cases b)
          (auto simp: bind_Some_iff split: if_splits dest!: run(1) rollback_handlers_side_tables rollback_state_end_side_tables)
      then show ?thesis using run(1) [OF rest] by simp
    qed
  qed
qed

lemma rollback_keeps_side_tables [side_dest]: "rollback E T L h = Some L' \<Longrightarrow> side_tables (store L') = side_tables (store L)"
  unfolding rollback_def by (rule rollback_run_side_tables)

section \<open>The invariant\<close>

abbreviation worked :: "rai_env \<Rightarrow> block \<Rightarrow> bool" where
  "worked E b \<equiv> \<not> work_validate_block E b"

definition store_inv :: "rai_env \<Rightarrow> block_store \<Rightarrow> bool" where
  "store_inv E s \<longleftrightarrow> store_ok E s
     \<and> (\<forall>b \<in> ran (blk (dbs s)). worked E b \<and> (is_genesis (genesis_account E) b \<longrightarrow> b = Open (genesis_open E)))
     \<and> (\<forall>(k, b) \<in> set (unchecked_cache s). worked E b)
     \<and> (\<forall>h. \<forall>v \<in> set (unchecked_table s h). \<exists>b. v = serialize_block b \<and> worked E b)
     \<and> (\<forall>v \<in> ran (vote_table s). \<exists>w. v = vote_serialize w)"

text \<open>The votes of an election, and the winner, are for blocks of its root.\<close>

definition candidates :: "votes \<Rightarrow> block set" where
  "candidates vs = snd ` set (rep_votes vs)"

definition election_inv :: "rai_env \<Rightarrow> election \<Rightarrow> bool" where
  "election_inv E e \<longleftrightarrow> candidates (e_votes e) \<noteq> {} \<and> distinct (map fst (rep_votes (e_votes e)))
     \<and> (\<forall>b \<in> insert (e_winner e) (candidates (e_votes e)). worked E b \<and> root b = votes_id (e_votes e))"

definition active_inv :: "election list \<Rightarrow> conflict_info list \<Rightarrow> bool" where
  "active_inv es roots \<longleftrightarrow> distinct (map c_root roots) \<and> distinct (map c_election roots)
     \<and> (\<forall>c \<in> set roots. c_election c < length es \<and> votes_id (e_votes (es ! c_election c)) = c_root c)"

definition node_inv :: "rai_env \<Rightarrow> node \<Rightarrow> bool" where
  "node_inv E N \<longleftrightarrow> store_inv E (node_store N) \<and> peers_inv E (n_peers N)
     \<and> (\<forall>b \<in> set (n_blocks N) \<union> set (n_forced N). worked E b)
     \<and> (\<forall>e \<in> set (n_elections N). election_inv E e) \<and> active_inv (n_elections N) (n_roots N)
     \<and> (\<forall>g \<in> set (n_gaps N). candidates (gap_votes g) \<noteq> {}) \<and> distinct (map snd (n_reps N))"

lemma store_invD:
  assumes "store_inv E s"
  shows "store_ok E s" "blk (dbs s) h = Some b \<Longrightarrow> worked E b" "(k, b) \<in> set (unchecked_cache s) \<Longrightarrow> worked E b"
    "v \<in> set (unchecked_table s h) \<Longrightarrow> \<exists>b. v = serialize_block b \<and> worked E b"
    "vote_table s a = Some v \<Longrightarrow> \<exists>w. v = vote_serialize w"
    "blk (dbs s) h = Some b \<Longrightarrow> is_genesis (genesis_account E) b \<Longrightarrow> b = Open (genesis_open E)"
  using assms by (auto simp: store_inv_def ran_def)

lemma node_invD:
  assumes "node_inv E N"
  shows "store_inv E (node_store N)" "peers_inv E (n_peers N)" "b \<in> set (n_blocks N) \<Longrightarrow> worked E b"
    "b \<in> set (n_forced N) \<Longrightarrow> worked E b" "k < length (n_elections N) \<Longrightarrow> election_inv E (get_election N k)"
    "active_inv (n_elections N) (n_roots N)" "g \<in> set (n_gaps N) \<Longrightarrow> candidates (gap_votes g) \<noteq> {}"
  using assms by (auto simp: node_inv_def get_election_def)

lemma node_inv_frame [simp]:
  "node_inv E (emit x N) = node_inv E N" "node_inv E (node_stat f N) = node_inv E N"
  "node_inv E (N\<lparr>n_arrival := ar\<rparr>) = node_inv E N" "node_inv E (N\<lparr>n_crawler := cr\<rparr>) = node_inv E N"
  "node_inv E (N\<lparr>n_confirmed := co\<rparr>) = node_inv E N" "node_inv E (N\<lparr>n_next_log := nl\<rparr>) = node_inv E N"
  "node_inv E (N\<lparr>n_events := ev\<rparr>) = node_inv E N" "node_inv E (N\<lparr>n_stake := st\<rparr>) = node_inv E N"
  by (simp_all add: node_inv_def emit_def node_stat_def)

lemma node_inv_ledger:
  "node_inv E N \<Longrightarrow> store_inv E (store L) \<Longrightarrow> node_inv E (N\<lparr>n_ledger := L\<rparr>)"
  "node_inv E N \<Longrightarrow> store_inv E s \<Longrightarrow> node_inv E (set_store N s)"
  "node_inv E N \<Longrightarrow> peers_inv E c \<Longrightarrow> node_inv E (N\<lparr>n_peers := c\<rparr>)"
  "node_inv E N \<Longrightarrow> worked E b \<Longrightarrow> node_inv E (N\<lparr>n_blocks := b # n_blocks N\<rparr>)"
  "node_inv E N \<Longrightarrow> worked E b \<Longrightarrow> node_inv E (bp_force N b)"
  by (auto simp: node_inv_def set_store_def bp_force_def)

text \<open>The parts of the node that most operations leave alone.\<close>

definition same_active :: "node \<Rightarrow> node \<Rightarrow> bool" where
  "same_active N N' \<longleftrightarrow> n_elections N' = n_elections N \<and> n_roots N' = n_roots N \<and> n_config N' = n_config N
     \<and> n_wallet_reps N' = n_wallet_reps N"

lemma same_active_refl [simp]: "same_active N N"
  by (simp add: same_active_def)

lemma same_active_trans [trans]: "same_active N N' \<Longrightarrow> same_active N' N'' \<Longrightarrow> same_active N N''"
  by (simp add: same_active_def)

lemma same_active_frame [simp]:
  "same_active M (emit x N) = same_active M N" "same_active M (node_stat f N) = same_active M N"
  "same_active M (set_store N s) = same_active M N" "same_active M (bp_force N b) = same_active M N"
  "same_active M (N\<lparr>n_ledger := L\<rparr>) = same_active M N" "same_active M (N\<lparr>n_peers := c\<rparr>) = same_active M N"
  "same_active M (N\<lparr>n_arrival := ar\<rparr>) = same_active M N" "same_active M (N\<lparr>n_crawler := cr\<rparr>) = same_active M N"
  "same_active M (N\<lparr>n_stake := st\<rparr>) = same_active M N" "same_active M (N\<lparr>n_reps := re\<rparr>) = same_active M N"
  "same_active M (N\<lparr>n_blocks := bs\<rparr>) = same_active M N" "same_active M (N\<lparr>n_gaps := gs\<rparr>) = same_active M N"
  "same_active M (N\<lparr>n_forced := fs\<rparr>) = same_active M N" "same_active M (N\<lparr>n_next_log := nl\<rparr>) = same_active M N"
  "same_active M (N\<lparr>n_confirmed := co\<rparr>) = same_active M N"
  by (simp_all add: same_active_def emit_def node_stat_def set_store_def bp_force_def)

section \<open>Reading weights\<close>

lemma weight_store [simp]: "store (snd (weight L a)) = store L"
  by (simp add: weight_def Let_def split: option.split)

lemma weight_storeD: "weight L a = (w, L') \<Longrightarrow> store L' = store L"
  using weight_store [of L a] by simp

lemma tally_totals_store: "tally_totals L vs ts = (ts', L') \<Longrightarrow> store L' = store L"
  by (induction vs arbitrary: L ts) (auto split: prod.splits dest!: weight_storeD)

lemma tally_store: "tally L vs = (t, L') \<Longrightarrow> store L' = store L"
  by (auto simp: tally_def split: prod.splits dest!: tally_totals_store)

lemma tally_nonempty: "tally L vs = (t, L') \<Longrightarrow> candidates vs \<noteq> {} \<Longrightarrow> t \<noteq> []"
  using tally_correct(2) [of L vs t L'] by (auto simp: candidates_def)

lemma tally_candidate: "tally L vs = (t, L') \<Longrightarrow> (w, b) \<in> set t \<Longrightarrow> b \<in> candidates vs"
  using tally_correct(3) [of L vs t L' w b] by (simp add: candidates_def)

lemma winner_total:
  assumes "candidates vs \<noteq> {}"
  obtains w b L' where "winner L vs = Some ((w, b), L')" "store L' = store L"
proof -
  obtain t L' where t: "tally L vs = (t, L')" by fastforce
  then obtain w b r where "t = (w, b) # r" using tally_nonempty [OF t assms] by (cases t) auto
  then show thesis using that t tally_store [OF t] by (simp add: winner_def)
qed

lemma reps_expire_store: "reps_expire now L reps x = (reps', x', L') \<Longrightarrow> store L' = store L"
  by (induction now L reps x rule: reps_expire.induct)
    (auto simp: Let_def split: if_splits prod.splits dest: weight_storeD)

lemma sum_stake_store: "sum_stake L reps x = (x', L') \<Longrightarrow> store L' = store L"
  by (induction L reps x rule: sum_stake.induct) (auto split: prod.splits dest: weight_storeD)

lemma node_weight_inv:
  assumes "node_inv E N" "node_weight N a = (w, N')"
  shows "node_inv E N'" "same_active N N'"
  using assms by (auto simp: node_weight_def node_invD intro!: node_inv_ledger split: prod.splits dest!: weight_storeD)

lemma insert_by_set [simp]: "set (insert_by f x xs) = insert x (set xs)"
  by (induction xs) auto

lemma insert_by_distinct: "distinct (map g (insert_by f x xs)) \<longleftrightarrow> distinct (map g (x # xs))"
  by (induction f x xs rule: insert_by.induct) (auto simp: insert_by_set)

lemma reps_expire_distinct:
  "reps_expire now L reps x = (reps', x', L') \<Longrightarrow> distinct (map g reps) \<Longrightarrow> distinct (map g reps')"
  by (induction now L reps x rule: reps_expire.induct) (auto simp: Let_def split: if_splits prod.splits)

lemma node_inv_reps: "node_inv E N \<Longrightarrow> distinct (map snd reps) \<Longrightarrow> node_inv E (N\<lparr>n_reps := reps\<rparr>)"
  by (simp add: node_inv_def)

lemma online_reps_vote_inv:
  assumes "node_inv E N"
  shows "node_inv E (online_reps_vote T N v)" "same_active N (online_reps_vote T N v)"
proof -
  obtain reps x L where r: "reps_expire (steady_now T) (n_ledger N) (n_reps N) (n_stake N) = (reps, x, L)"
    by (cases "reps_expire (steady_now T) (n_ledger N) (n_reps N) (n_stake N)") auto
  obtain w L' where w: "weight L (vote_account v) = (w, L')" by fastforce
  have "store L = node_store N" "store L' = node_store N" using reps_expire_store [OF r] weight_storeD [OF w] by simp_all
  moreover have "distinct (map snd reps)" by (rule reps_expire_distinct [OF r]) (use assms in \<open>simp add: node_inv_def\<close>)
  ultimately show "node_inv E (online_reps_vote T N v)" "same_active N (online_reps_vote T N v)"
    using assms r w by (auto simp: online_reps_vote_def Let_def same_active_def node_invD insert_by_distinct
      distinct_map_filter intro!: node_inv_ledger node_inv_reps)
qed

lemma recalculate_stake_inv:
  "node_inv E N \<Longrightarrow> node_inv E (recalculate_stake N)" "same_active N (recalculate_stake N)"
  by (auto simp: same_active_def recalculate_stake_def node_invD intro!: node_inv_ledger split: prod.splits dest!: sum_stake_store)

section \<open>Elections\<close>

lemma find_rootD:
  assumes "find_root N r = Some c"
  shows "c \<in> set (n_roots N)" "c_root c = r"
  using assms by (auto simp: find_root_def find_Some_iff)

lemma assign_entries: "snd ` set (assign k v xs) \<subseteq> insert v (snd ` set xs)"
proof (induction xs)
  case (Cons x xs)
  then show ?case by (cases x) (simp, blast)
qed simp

lemma votes_vote_candidates:
  "candidates (snd (votes_vote vs v)) \<noteq> {}"
  "candidates (snd (votes_vote vs v)) \<subseteq> insert (vote_block v) (candidates vs)"
  "votes_id (snd (votes_vote vs v)) = votes_id vs"
proof -
  have "rep_votes (snd (votes_vote vs v)) \<noteq> []"
    using votes_vote_lookup [of vs v] by (metis map_of.simps(1) map_upd_nonempty)
  then show "candidates (snd (votes_vote vs v)) \<noteq> {}" by (simp add: candidates_def)
  show "votes_id (snd (votes_vote vs v)) = votes_id vs"
    by (simp add: votes_vote_def split: option.split)
  show "candidates (snd (votes_vote vs v)) \<subseteq> insert (vote_block v) (candidates vs)"
    using assign_entries [of "vote_account v" "vote_block v" "rep_votes vs"]
    by (cases "map_of (rep_votes vs) (vote_account v)") (simp_all add: candidates_def votes_vote_def subset_insertI)
qed

lemma confirm_once_sel [simp]:
  "node_inv E (fst (confirm_once N e)) = node_inv E N" "same_active M (fst (confirm_once N e)) = same_active M N"
  "e_votes (snd (confirm_once N e)) = e_votes e" "e_last_votes (snd (confirm_once N e)) = e_last_votes e"
  "e_winner (snd (confirm_once N e)) = e_winner e" "e_tally (snd (confirm_once N e)) = e_tally e"
  "e_confirmed (snd (confirm_once N e))" "election_inv E (snd (confirm_once N e)) = election_inv E e"
  by (simp_all add: confirm_once_def election_inv_def)

text \<open>The election and the node after the winner was looked at, before the quorum is.\<close>

definition switch_winner :: "node \<Rightarrow> election \<Rightarrow> (u128 \<times> block) list \<Rightarrow> node \<times> election" where
  "switch_winner N e t =
    (if online_weight_minimum (n_config N) \<le> (\<Sum>i \<leftarrow> t. fst i) \<and> \<not> block_equal (snd (hd t)) (e_winner e)
     then (bp_force N (snd (hd t)), e\<lparr>e_tally := fst (hd t), e_winner := snd (hd t)\<rparr>)
     else (N, e\<lparr>e_tally := fst (hd t)\<rparr>))"

lemma confirm_if_quorum_eq:
  assumes t: "tally (n_ledger N) (e_votes e) = (t, L)" and ne: "candidates (e_votes e) \<noteq> {}"
    and sw: "switch_winner (N\<lparr>n_ledger := L\<rparr>) e t = (N1, e1)"
  shows "confirm_if_quorum N e = Some (if have_quorum N1 t then confirm_once N1 e1 else (N1, e1))"
proof -
  obtain w b r where "t = (w, b) # r" using tally_nonempty [OF t ne] by (cases t) auto
  then show ?thesis using t sw by (auto simp: confirm_if_quorum_def switch_winner_def Let_def split: if_splits)
qed

lemma switch_winner_inv:
  assumes N: "node_inv E N" and e: "election_inv E e"
    and t: "tally (n_ledger N) (e_votes e) = (t, L)" and sw: "switch_winner (N\<lparr>n_ledger := L\<rparr>) e t = (N1, e1)"
  shows "node_inv E N1" "election_inv E e1" "same_active N N1" "e_votes e1 = e_votes e"
    "e_last_votes e1 = e_last_votes e" "e_confirmed e1 = e_confirmed e"
proof -
  have ne: "candidates (e_votes e) \<noteq> {}" using e by (simp add: election_inv_def)
  obtain w b r where tc: "t = (w, b) # r" using tally_nonempty [OF t ne] by (cases t) auto
  have "b \<in> candidates (e_votes e)" using tally_candidate [OF t, of w b] tc by simp
  then have wb: "worked E b" "root b = votes_id (e_votes e)" using e by (auto simp: election_inv_def)
  have N1: "node_inv E (N\<lparr>n_ledger := L\<rparr>)"
    using N tally_store [OF t] by (intro node_inv_ledger) (simp_all add: node_invD)
  show "node_inv E N1" "election_inv E e1" "same_active N N1" "e_votes e1 = e_votes e"
    "e_last_votes e1 = e_last_votes e" "e_confirmed e1 = e_confirmed e"
    using sw N1 e wb node_inv_ledger(5) [OF N1 wb(1)] tc
    by (auto simp: switch_winner_def election_inv_def split: if_splits)
qed

lemma confirm_if_quorum_total:
  assumes N: "node_inv E N" and e: "election_inv E e"
  obtains N' e' where "confirm_if_quorum N e = Some (N', e')" "node_inv E N'" "election_inv E e'" "same_active N N'"
    "e_votes e' = e_votes e" "e_last_votes e' = e_last_votes e" "e_confirmed e \<Longrightarrow> e_confirmed e'"
proof -
  obtain t L where t: "tally (n_ledger N) (e_votes e) = (t, L)" by fastforce
  obtain N1 e1 where sw: "switch_winner (N\<lparr>n_ledger := L\<rparr>) e t = (N1, e1)" by fastforce
  have ne: "candidates (e_votes e) \<noteq> {}" using e by (simp add: election_inv_def)
  note eq = confirm_if_quorum_eq [OF t ne sw] and inv = switch_winner_inv [OF N e t sw]
  show thesis
  proof (cases "have_quorum N1 t")
    case True
    then show thesis using that [of "fst (confirm_once N1 e1)" "snd (confirm_once N1 e1)"] eq inv by simp
  next
    case False
    then show thesis using that [of N1 e1] eq inv by simp
  qed
qed

lemma election_vote_total:
  assumes N: "node_inv E N" and e: "election_inv E e" and v: "\<not> vote_validate E v" "worked E (vote_block v)"
    "root (vote_block v) = votes_id (e_votes e)"
  obtains r N' e' where "election_vote E T N e v = Some (r, N', e')" "node_inv E N'" "election_inv E e'" "same_active N N'"
    "votes_id (e_votes e') = votes_id (e_votes e)" "e_confirmed e \<Longrightarrow> e_confirmed e'"
proof -
  obtain w N1 where w: "node_weight N (vote_account v) = (w, N1)" by fastforce
  note N1 = node_weight_inv [OF N w]
  let ?e = "e\<lparr>e_last_votes := (e_last_votes e)(vote_account v \<mapsto>
        \<lparr>vi_time = steady_now T, vi_sequence = vote_sequence v, vi_hash = block_hash E (vote_block v)\<rparr>),
      e_votes := snd (votes_vote (e_votes e) v)\<rparr>"
  have e1: "election_inv E ?e"
    using e v(2,3) votes_vote_candidates [of "e_votes e" v] votes_vote_distinct [of "e_votes e" v]
    by (auto simp: election_inv_def)
  have "node_inv E (emit (Confirm_fanout v) N1)" using N1 by simp
  then obtain N2 e2 where c: "confirm_if_quorum (emit (Confirm_fanout v) N1) ?e = Some (N2, e2)" "node_inv E N2"
      "election_inv E e2" "same_active (emit (Confirm_fanout v) N1) N2" "e_votes e2 = e_votes ?e" "e_confirmed ?e \<Longrightarrow> e_confirmed e2"
    by (rule confirm_if_quorum_total [OF _ e1]) blast
  have s: "same_active N N2" using N1(2) c(4) by (simp add: same_active_def emit_def)
  have "\<exists>r N' e'. election_vote E T N e v = Some (r, N', e') \<and> (N', e') \<in> {(N1, e), (N2, e2)}"
    using v(1) w c(1) by (simp add: election_vote_def Let_def ex_bool_eq split: option.split)
  then obtain r N' e' where o: "election_vote E T N e v = Some (r, N', e')" "(N', e') \<in> {(N1, e), (N2, e2)}"
    by blast
  show thesis
    using o(2) N1 c s e votes_vote_candidates(3) [of "e_votes e" v] by (auto intro!: that [OF o(1)])
qed

section \<open>Votes\<close>

text \<open>What a vote may change among the elections: they stay in place, and none is unconfirmed.\<close>

definition elections_advance :: "node \<Rightarrow> node \<Rightarrow> bool" where
  "elections_advance N N' \<longleftrightarrow> n_roots N' = n_roots N \<and> length (n_elections N') = length (n_elections N)
     \<and> (\<forall>k < length (n_elections N). e_confirmed (get_election N k) \<longrightarrow> e_confirmed (get_election N' k))
     \<and> n_config N' = n_config N \<and> n_wallet_reps N' = n_wallet_reps N"

lemma elections_advance_same: "same_active N N' \<Longrightarrow> elections_advance N N'"
  by (simp add: same_active_def elections_advance_def get_election_def)

lemma elections_advance_frame [simp]:
  "elections_advance M (emit x N) = elections_advance M N" "elections_advance M (node_stat f N) = elections_advance M N"
  "elections_advance M (set_store N s) = elections_advance M N" "elections_advance M (N\<lparr>n_peers := c\<rparr>) = elections_advance M N"
  by (simp_all add: elections_advance_def emit_def node_stat_def set_store_def get_election_def)

lemma elections_advance_trans [trans]: "elections_advance N N' \<Longrightarrow> elections_advance N' N'' \<Longrightarrow> elections_advance N N''"
  by (simp add: elections_advance_def)

lemma node_inv_set_election:
  assumes "node_inv E N" "election_inv E e" "k < length (n_elections N)" "votes_id (e_votes e) = votes_id (e_votes (get_election N k))"
  shows "node_inv E (set_election N k e)"
proof -
  have "active_inv ((n_elections N)[k := e]) (n_roots N)"
    using node_invD(6) [OF assms(1)] assms(3,4) by (auto simp: active_inv_def get_election_def nth_list_update)
  then show ?thesis
    using assms set_update_subset_insert [of "n_elections N" k e] by (auto simp: node_inv_def set_election_def)
qed

lemma active_vote_total:
  assumes N: "node_inv E N" and v: "\<not> vote_validate E v" "worked E (vote_block v)"
  obtains r N' where "active_vote E T N v = Some (r, N')" "node_inv E N'" "elections_advance N N'"
proof (cases "find_root N (root (vote_block v))")
  case None
  then show thesis using N by (intro that [of False N]) (simp_all add: active_vote_def elections_advance_same)
next
  case (Some c)
  let ?k = "c_election c" and ?e = "get_election N (c_election c)"
  have k: "?k < length (n_elections N)" and id: "votes_id (e_votes ?e) = root (vote_block v)"
    using node_invD(6) [OF N] find_rootD [OF Some] by (auto simp: active_inv_def get_election_def)
  obtain r N1 e1 where e: "election_vote E T N ?e v = Some (r, N1, e1)" "node_inv E N1" "election_inv E e1"
      "same_active N N1" "votes_id (e_votes e1) = votes_id (e_votes ?e)" "e_confirmed ?e \<Longrightarrow> e_confirmed e1"
    by (rule election_vote_total [OF N node_invD(5) [OF N k] v id [symmetric]]) blast
  have same: "get_election N1 ?k = ?e" "length (n_elections N1) = length (n_elections N)"
    using e(4) by (simp_all add: same_active_def get_election_def)
  have "node_inv E (set_election N1 ?k e1)"
    using e k same by (intro node_inv_set_election) simp_all
  moreover have "e_confirmed ((n_elections N)[?k := e1] ! j)"
    if "j < length (n_elections N)" "e_confirmed (n_elections N ! j)" for j
    using that e(6) by (cases "j = ?k") (simp_all add: get_election_def)
  then have "elections_advance N (set_election N1 ?k e1)"
    using e(4) by (simp add: elections_advance_def same_active_def set_election_def get_election_def)
  ultimately show thesis using that e(1) Some by (simp add: active_vote_def)
qed

lemma gap_vote_total:
  assumes N: "node_inv E N"
  obtains N' where "gap_vote E N v = Some N'" "node_inv E N'" "same_active N N'"
proof (cases "find (\<lambda>g. gap_hash g = block_hash E (vote_block v)) (n_gaps N)")
  case None
  then show thesis using N by (intro that [of N]) (simp_all add: gap_vote_def)
next
  case (Some g)
  let ?h = "block_hash E (vote_block v)" and ?vs = "snd (votes_vote (gap_votes g) v)"
  let ?N = "N\<lparr>n_gaps := map (\<lambda>g. if gap_hash g = ?h then g\<lparr>gap_votes := ?vs\<rparr> else g) (n_gaps N)\<rparr>"
  have N1: "node_inv E ?N" using N votes_vote_candidates(1) by (auto simp: node_inv_def)
  obtain w b L where win: "winner (n_ledger ?N) ?vs = Some ((w, b), L)" "store L = node_store ?N"
    by (rule winner_total [OF votes_vote_candidates(1)])
  have N2: "node_inv E (?N\<lparr>n_ledger := L\<rparr>)"
    using win(2) node_invD(1) [OF N1] by (intro node_inv_ledger [OF N1]) simp
  have "gap_vote E N v = Some (if bootstrap_threshold (?N\<lparr>n_ledger := L\<rparr>) < w
      then emit (Bootstrap_missing ?h) (?N\<lparr>n_ledger := L\<rparr>) else ?N\<lparr>n_ledger := L\<rparr>)"
    using win(1) Some by (simp add: gap_vote_def Let_def)
  then show thesis by (rule that) (use N2 in simp_all)
qed

lemma send_confirm_req_inv [simp]:
  "node_inv E (send_confirm_req T N i b) = node_inv E N" "same_active M (send_confirm_req T N i b) = same_active M N"
  by (simp_all add: send_confirm_req_def)

lemma foldl_keeps:
  "(\<And>N x. x \<in> set xs \<Longrightarrow> node_inv E N \<Longrightarrow> node_inv E (f N x)) \<Longrightarrow> node_inv E N \<Longrightarrow> node_inv E (foldl f N xs)"
  "(\<And>N x. x \<in> set xs \<Longrightarrow> same_active N (f N x)) \<Longrightarrow> same_active N (foldl f N xs)"
proof (induction xs arbitrary: N)
  case (Cons x xs)
  case 1
  then show ?case using Cons(1) by simp
next
  case (Cons x xs)
  case 2
  then have "same_active N (f N x)" "same_active (f N x) (foldl f (f N x) xs)" using Cons(2) by simp_all
  then show ?case by (simp add: same_active_def)
qed simp_all

lemma rep_observer_inv:
  assumes "node_inv E N"
  shows "node_inv E (rep_observer E T N v i)" "same_active N (rep_observer E T N v i)"
proof -
  obtain w N1 where w: "node_weight N (vote_account v) = (w, N1)" by fastforce
  note N1 = node_weight_inv [OF assms w]
  obtain x c where c: "rep_response T (n_peers N1) i (vote_account v) w = (x, c)" by fastforce
  have N2: "node_inv E (N1\<lparr>n_peers := c\<rparr>)"
    using rep_response_inv c node_invD(2) [OF N1(1)] by (intro node_inv_ledger [OF N1(1)]) (metis snd_conv)
  have s: "same_active N M" if "same_active (N1\<lparr>n_peers := c\<rparr>) M" for M
    using N1(2) that by (simp add: same_active_def)
  show "node_inv E (rep_observer E T N v i)" "same_active N (rep_observer E T N v i)"
    using N1 N2 w c by (auto simp: rep_observer_def Let_def intro!: foldl_keeps s)
qed

lemma observe_vote_total:
  assumes N: "node_inv E N"
  obtains N' where "observe_vote E T N v i = Some N'" "node_inv E N'" "same_active N N'"
proof -
  obtain N1 where N1: "gap_vote E N v = Some N1" "node_inv E N1" "same_active N N1" by (rule gap_vote_total [OF N])
  note N2 = online_reps_vote_inv [OF N1(2), of T v]
  note N3 = rep_observer_inv [OF N2(1), of T v i]
  have "same_active N (rep_observer E T (online_reps_vote T N1 v) v i)"
    using N1(3) N2(2) N3(2) by (simp add: same_active_def)
  then show thesis using N1(1) N3(1) that by (simp add: observe_vote_def)
qed

lemma vote_current_total:
  assumes "store_inv E s"
  shows "\<exists>c. vote_current s a = Some c"
proof (cases "vote_table s a")
  case None
  then show ?thesis by (simp add: vote_current_def vote_get_def split: option.split)
next
  case (Some v)
  then obtain w where "vote_table s a = Some (vote_serialize w)" using store_invD(5) [OF assms] by blast
  then have "vote_get s a = Some (Some w)" by (rule vote_get_put)
  then show ?thesis by (simp add: vote_current_def split: option.split)
qed

lemma store_ok_side [simp]:
  "store_ok E (s\<lparr>vote_cache := vc\<rparr>) = store_ok E s" "store_ok E (s\<lparr>vote_table := vt\<rparr>) = store_ok E s"
  "store_ok E (s\<lparr>unchecked_cache := uc\<rparr>) = store_ok E s" "store_ok E (s\<lparr>unchecked_table := ut\<rparr>) = store_ok E s"
proof -
  have "view_of (s\<lparr>vote_cache := vc\<rparr>) = view_of s" "view_of (s\<lparr>vote_table := vt\<rparr>) = view_of s"
    "view_of (s\<lparr>unchecked_cache := uc\<rparr>) = view_of s" "view_of (s\<lparr>unchecked_table := ut\<rparr>) = view_of s"
    by (simp_all add: view_of_def representation_get_def fun_eq_iff)
  then show "store_ok E (s\<lparr>vote_cache := vc\<rparr>) = store_ok E s" "store_ok E (s\<lparr>vote_table := vt\<rparr>) = store_ok E s"
    "store_ok E (s\<lparr>unchecked_cache := uc\<rparr>) = store_ok E s" "store_ok E (s\<lparr>unchecked_table := ut\<rparr>) = store_ok E s"
    by (simp_all add: store_ok_def)
qed

lemma store_inv_vote_cache: "store_inv E s \<Longrightarrow> store_inv E (s\<lparr>vote_cache := c\<rparr>)"
  by (simp add: store_inv_def)

lemma vote_max_total:
  assumes "store_inv E s"
  obtains m s' where "vote_max s v = Some (m, s')" "store_inv E s'"
  using vote_current_total [OF assms, of "vote_account v"] store_inv_vote_cache [OF assms]
  by (auto simp: vote_max_def Let_def)

lemma vote_generate_total:
  assumes "store_inv E s"
  obtains v s' where "vote_generate E s a k b = Some (v, s')" "store_inv E s'" "vote_block v = b"
  using vote_current_total [OF assms, of a] store_inv_vote_cache [OF assms]
  by (auto simp: vote_generate_def Let_def new_vote_def)

text \<open>A vote for a block with good work never fails an assertion, valid or not.\<close>

lemma vote_processor_vote_total:
  assumes N: "node_inv E N" and v: "worked E (vote_block v)"
  obtains r N' where "vote_processor_vote E T N v i = Some (r, N')" "node_inv E N'" "elections_advance N N'"
proof (cases "vote_validate E v")
  case True
  have "vote_processor_vote E T N v i = Some (Vote_invalid, if vote_logging (n_config N)
      then node_stat (\<lambda>st. stat_inc T st St_vote Sd_vote_invalid) N else N)"
    using True by (simp add: vote_processor_vote_def)
  then show thesis by (rule that) (use N in \<open>simp_all add: elections_advance_same\<close>)
next
  case False
  obtain m s where m: "vote_max (node_store N) v = Some (m, s)" "store_inv E s"
    by (rule vote_max_total [OF node_invD(1) [OF N]])
  note N1 = node_inv_ledger(2) [OF N m(2)]
  obtain x N2 where N2: "active_vote E T (set_store N s) v = Some (x, N2)" "node_inv E N2" "elections_advance (set_store N s) N2"
    by (rule active_vote_total [OF N1 False v])
  obtain N3 where N3: "observe_vote E T N2 v i = Some N3" "node_inv E N3" "same_active N2 N3"
    by (rule observe_vote_total [OF N2(2)])
  have a2: "elections_advance N N2" using N2(3) by (simp add: elections_advance_def set_store_def get_election_def)
  have a3: "elections_advance N N3" using a2 elections_advance_same [OF N3(3)] by (rule elections_advance_trans)
  define r where "r = (if \<not> x \<or> vote_sequence v < vote_sequence m then Vote_vote else Vote_replay)"
  define N4 where "N4 = (if r = Vote_vote then N3 else N2)"
  define N5 where "N5 = (if vote_sequence v + 10000 < vote_sequence m then emit (Confirm_send m i) N4 else N4)"
  have o: "(if r = Vote_vote then observe_vote E T N2 v i else Some N2) = Some N4" using N3(1) by (simp add: N4_def)
  have eq: "vote_processor_vote E T N v i = Some (r, if vote_logging (n_config N5)
      then node_stat (\<lambda>st. stat_inc T st St_vote
        (case r of Vote_invalid \<Rightarrow> Sd_vote_invalid | Vote_replay \<Rightarrow> Sd_vote_replay | Vote_vote \<Rightarrow> Sd_vote_valid)) N5 else N5)"
    using False m(1) N2(1)
    by (simp only: vote_processor_vote_def Let_def not_False_eq_True if_True bind.simps prod.case r_def [symmetric] o N5_def [symmetric])
  have "node_inv E N5" "elections_advance N N5"
    using a2 a3 N2(2) N3(2) by (auto simp: N5_def N4_def)
  then show thesis by (intro that [OF eq]) simp_all
qed

lemma confirm_block_loop_total:
  assumes "node_inv E N"
  obtains N' where "confirm_block_loop E send b reps N = Some N'" "node_inv E N'" "same_active N N'"
  using assms
proof (induction reps arbitrary: N thesis)
  case Nil
  then show ?case by simp
next
  case (Cons r reps)
  obtain pub prv where r: "r = (pub, prv)" by fastforce
  obtain v s where v: "vote_generate E (node_store N) pub prv b = Some (v, s)" "store_inv E s" "vote_block v = b"
    by (rule vote_generate_total [OF node_invD(1) [OF Cons.prems(2)]])
  have "node_inv E (emit (send v) (set_store N s))" using node_inv_ledger(2) [OF Cons.prems(2) v(2)] by simp
  then obtain N' where "confirm_block_loop E send b reps (emit (send v) (set_store N s)) = Some N'" "node_inv E N'"
      "same_active (emit (send v) (set_store N s)) N'"
    using Cons.IH by blast
  then show ?case using Cons.prems(1) [of N'] v r by (simp add: same_active_def emit_def set_store_def)
qed

lemma confirm_block_total:
  assumes "node_inv E N"
  obtains r N' where "confirm_block E N send b = Some (r, N')" "node_inv E N'" "same_active N N'"
proof -
  obtain N1 where N1: "confirm_block_loop E send b (n_wallet_reps N) N = Some N1" "node_inv E N1" "same_active N N1"
    by (rule confirm_block_loop_total [OF assms])
  show thesis
    using that [of "n_wallet_reps N1 \<noteq> []" N1] that [of False N] N1 assms
    by (cases "enable_voting (n_config N)") (simp_all add: confirm_block_def)
qed

lemma republish_block_total:
  assumes "node_inv E N"
  obtains N' where "republish_block E N b = Some N'" "node_inv E N'" "same_active N N'"
proof -
  obtain r N1 where N1: "confirm_block E N Confirm_fanout b = Some (r, N1)" "node_inv E N1" "same_active N N1"
    by (rule confirm_block_total [OF assms])
  then have "republish_block E N b = Some (if r then N1 else emit (Publish_fanout b) N1)"
    by (simp add: republish_block_def)
  then show thesis by (rule that) (use N1 in simp_all)
qed

lemma compute_rep_votes_total:
  assumes "node_inv E N" "k < length (n_elections N)"
  obtains N' where "compute_rep_votes E T k reps N = Some N'" "node_inv E N'" "elections_advance N N'"
  using assms
proof (induction reps arbitrary: N thesis)
  case Nil
  then show ?case using Nil.prems(1) [of N] by (simp add: elections_advance_same)
next
  case (Cons r reps)
  obtain pub prv where r: "r = (pub, prv)" by fastforce
  obtain v s where v: "vote_generate E (node_store N) pub prv (e_winner (get_election N k)) = Some (v, s)" "store_inv E s"
      "vote_block v = e_winner (get_election N k)"
    by (rule vote_generate_total [OF node_invD(1) [OF Cons.prems(2)]])
  have w: "worked E (vote_block v)" using node_invD(5) [OF Cons.prems(2,3)] v(3) by (simp add: election_inv_def)
  obtain x N1 where N1: "vote_processor_vote E T (set_store N s) v (peer_self (n_peers (set_store N s))) = Some (x, N1)"
      "node_inv E N1" "elections_advance (set_store N s) N1"
    by (rule vote_processor_vote_total [OF node_inv_ledger(2) [OF Cons.prems(2) v(2)] w])
  have a: "elections_advance N N1" using N1(3) by (simp add: elections_advance_def set_store_def get_election_def)
  then have "k < length (n_elections N1)" using Cons.prems(3) by (simp add: elections_advance_def)
  then obtain N' where "compute_rep_votes E T k reps N1 = Some N'" "node_inv E N'" "elections_advance N1 N'"
    using Cons.IH [OF _ N1(2)] by blast
  then show ?case
    using Cons.prems(1) [of N'] v(1) r N1(1) elections_advance_trans [OF a] by (simp add: set_store_def)
qed

lemma broadcast_winner_total:
  assumes N: "node_inv E N" "k < length (n_elections N)"
  obtains N' where "broadcast_winner E T N k = Some N'" "node_inv E N'" "elections_advance N N'"
proof -
  obtain N1 where N1: "(if enable_voting (n_config N) then compute_rep_votes E T k (n_wallet_reps N) N else Some N) = Some N1"
      "node_inv E N1" "elections_advance N N1"
  proof (cases "enable_voting (n_config N)")
    case True
    then show thesis using compute_rep_votes_total [OF N] that by (metis (full_types))
  next
    case False
    then show thesis using that N(1) elections_advance_same by simp
  qed
  obtain N2 where N2: "republish_block E N1 (e_winner (get_election N1 k)) = Some N2" "node_inv E N2" "same_active N1 N2"
    by (rule republish_block_total [OF N1(2)])
  show thesis
    using that [of N2] N1(1) N2(1,2) elections_advance_trans [OF N1(3) elections_advance_same [OF N2(3)]]
    by (simp add: broadcast_winner_def)
qed

section \<open>Starting and ending elections\<close>

lemma candidates_new [simp]: "candidates (new_votes n b) = {b}"
  by (simp add: candidates_def new_votes_def)

lemma find_root_None: "find_root N r = None \<longleftrightarrow> r \<notin> c_root ` set (n_roots N)"
  by (auto simp: find_root_def find_None_iff)

lemma active_start_inv:
  assumes N: "node_inv E N" and b: "worked E (fst bs)"
  shows "node_inv E (snd (active_start N bs action))"
proof (cases "find_root N (root (fst bs))")
  case None
  let ?e = "new_election N (fst bs) action"
  have "election_inv E ?e" "votes_id (e_votes ?e) = root (fst bs)"
    using b by (simp_all add: election_inv_def new_election_def new_votes_def [THEN arg_cong [of _ _ votes_id]]
        new_votes_def [THEN arg_cong [of _ _ rep_votes]])
  moreover have "c_election c < length (n_elections N)" "votes_id (e_votes (n_elections N ! c_election c)) = c_root c"
    if "c \<in> set (n_roots N)" for c using node_invD(6) [OF N] that by (auto simp: active_inv_def)
  moreover have "root (fst bs) \<notin> c_root ` set (n_roots N)" using None by (simp add: find_root_None)
  moreover have "snd (active_start N bs action) = N\<lparr>n_elections := n_elections N @ [?e],
      n_roots := \<lparr>c_root = root (fst bs), c_election = length (n_elections N), c_announcements = 0, c_options = bs\<rparr> # n_roots N\<rparr>"
    using None by (simp add: active_start_def Let_def)
  moreover have "length (n_elections N) \<notin> c_election ` set (n_roots N)" using calculation(3) by force
  ultimately show ?thesis using N by (auto simp: node_inv_def active_inv_def nth_append less_Suc_eq)
next
  case (Some c)
  then show ?thesis using N by (simp add: active_start_def)
qed

lemma broadcast_confirm_req_base_inv [simp]:
  "node_inv E N \<Longrightarrow> node_inv E (broadcast_confirm_req_base T N b ps d)"
  "same_active N (broadcast_confirm_req_base T N b ps d)"
  by (auto simp: broadcast_confirm_req_base_def Let_def intro!: foldl_keeps)

text \<open>An entry that the next round of announcements removes.\<close>

definition ended :: "node \<Rightarrow> conflict_info \<Rightarrow> bool" where
  "ended N i \<longleftrightarrow> (let e = get_election N (c_election i) in
     \<not> root_exists (node_store N) (votes_id (e_votes e)) \<or> (e_confirmed e \<and> announcement_min - 1 \<le> c_announcements i))"

definition announced :: "conflict_info \<Rightarrow> conflict_info" where
  "announced i = i\<lparr>c_announcements := c_announcements i + 1\<rparr>"

lemma announced_sel [simp]:
  "c_root (announced i) = c_root i" "c_election (announced i) = c_election i"
  "c_announcements (announced i) = c_announcements i + 1"
  by (simp_all add: announced_def)

lemma foldl_store: "(\<And>N x. node_store (f N x) = node_store N) \<Longrightarrow> node_store (foldl f N xs) = node_store N"
  by (induction xs arbitrary: N) simp_all

lemma node_store_frame [simp]:
  "node_store (emit x N) = node_store N" "node_store (node_stat f N) = node_store N" "node_store (set_store N s) = s"
  by (simp_all add: emit_def node_stat_def set_store_def)

lemma broadcast_confirm_req_base_store [simp]: "node_store (broadcast_confirm_req_base T N b ps d) = node_store N"
  by (simp add: broadcast_confirm_req_base_def Let_def send_confirm_req_def foldl_store)

lemma announce_one_props:
  assumes "announce_one T N i = (r, N')"
  shows "r = (if ended N i then Some (votes_id (e_votes (get_election N (c_election i)))) else None)"
    "node_store N' = node_store N" "same_active N N'" "node_inv E N \<Longrightarrow> node_inv E N'"
proof -
  have s: "same_active N (broadcast_confirm_req_base T (emit x N) b ps d)"
    "same_active N (broadcast_confirm_req_base T (broadcast_confirm_req_base T (emit x N) b ps d) b' ps' d')" for x b ps d b' ps' d'
    using broadcast_confirm_req_base_inv(2) [of "emit x N" T b ps d]
      broadcast_confirm_req_base_inv(2) [of "broadcast_confirm_req_base T (emit x N) b ps d" T b' ps' d']
    by (simp_all add: same_active_def emit_def)
  show "r = (if ended N i then Some (votes_id (e_votes (get_election N (c_election i)))) else None)"
    "node_store N' = node_store N" "same_active N N'" "node_inv E N \<Longrightarrow> node_inv E N'"
    using assms s by (auto simp: announce_one_def ended_def Let_def split: if_splits option.splits)
qed

lemma ended_same: "node_store N' = node_store N \<Longrightarrow> same_active N N' \<Longrightarrow> ended N' i = ended N i"
  by (simp add: ended_def same_active_def get_election_def)

lemma announce_loop_props:
  assumes "announce_loop T N roots = (rs, N')"
  shows "rs = map (votes_id \<circ> e_votes \<circ> get_election N \<circ> c_election) (filter (ended N) roots)
    \<and> same_active N N' \<and> (node_inv E N \<longrightarrow> node_inv E N')"
  using assms
proof (induction roots arbitrary: N rs)
  case (Cons i roots)
  obtain r N1 where N1: "announce_one T N i = (r, N1)" by fastforce
  obtain rs1 where rs1: "announce_loop T N1 roots = (rs1, N')" using Cons.prems N1 by (auto simp: Let_def split: prod.splits)
  note P = announce_one_props [OF N1] and IH = Cons.IH [OF rs1]
  have "ended N1 = ended N" "get_election N1 = get_election N"
    using ended_same [OF P(2,3)] P(3) by (auto simp: same_active_def get_election_def)
  moreover have "rs = (case r of Some x \<Rightarrow> x # rs1 | None \<Rightarrow> rs1)" using Cons.prems N1 rs1 by simp
  moreover have "same_active N N'" using P(3) IH by (blast intro: same_active_trans)
  ultimately show ?case using P(1,4) IH by simp
qed simp_all

lemma erase_roots_eq:
  "distinct rs \<Longrightarrow> set rs \<subseteq> c_root ` set roots \<Longrightarrow>
     erase_roots rs roots = Some (filter (\<lambda>c. c_root c \<notin> set rs) roots)"
proof (induction rs arbitrary: roots)
  case (Cons r rs)
  have "set rs \<subseteq> c_root ` set (filter (\<lambda>c. c_root c \<noteq> r) roots)"
  proof
    fix x
    assume x: "x \<in> set rs"
    then obtain c where "c \<in> set roots" "c_root c = x" using Cons.prems(2) by auto
    moreover have "x \<noteq> r" using Cons.prems(1) x by auto
    ultimately show "x \<in> c_root ` set (filter (\<lambda>c. c_root c \<noteq> r) roots)" by auto
  qed
  then have "erase_roots rs (filter (\<lambda>c. c_root c \<noteq> r) roots)
      = Some (filter (\<lambda>c. c_root c \<notin> set rs) (filter (\<lambda>c. c_root c \<noteq> r) roots))"
    using Cons by simp
  moreover have "r \<in> c_root ` set roots" using Cons.prems by simp
  ultimately show ?case by (simp add: conj_commute)
qed simp

text \<open>A round removes exactly the entries that have ended; it never misses one it looks for.\<close>

lemma announce_votes_total:
  assumes N: "node_inv E N"
  obtains N' where "announce_votes T N = Some N'" "node_inv E N'" "n_elections N' = n_elections N"
    "n_roots N' = map announced (filter (\<lambda>i. \<not> ended N i) (n_roots N))"
proof -
  obtain rs N1 where l: "announce_loop T N (n_roots N) = (rs, N1)" by fastforce
  note P = announce_loop_props [OF l]
  have A: "active_inv (n_elections N) (n_roots N)" by (rule node_invD(6) [OF N])
  have "map (votes_id \<circ> e_votes \<circ> get_election N \<circ> c_election) (filter (ended N) (n_roots N)) = map c_root (filter (ended N) (n_roots N))"
    using A by (intro map_cong refl) (auto simp: active_inv_def get_election_def)
  then have rs: "rs = map c_root (filter (ended N) (n_roots N))" using P by simp
  have d: "distinct (map c_root (n_roots N))" using A by (simp add: active_inv_def)
  let ?roots = "map announced (n_roots N)"
  have "erase_roots rs ?roots = Some (filter (\<lambda>c. c_root c \<notin> set rs) ?roots)"
    using d by (intro erase_roots_eq) (auto simp: rs distinct_map_filter image_image)
  moreover have "filter (\<lambda>c. c_root c \<notin> set rs) ?roots = map announced (filter (\<lambda>i. \<not> ended N i) (n_roots N))"
  proof -
    have "c_root i \<in> set rs \<longleftrightarrow> ended N i" if "i \<in> set (n_roots N)" for i
    proof -
      have "inj_on c_root (set (n_roots N))" using d by (simp add: distinct_map)
      then show ?thesis using that inj_on_image_mem_iff [of c_root "set (n_roots N)" i "set (filter (ended N) (n_roots N))"]
        by (auto simp: rs)
    qed
    then have "filter (\<lambda>i. c_root i \<notin> set rs) (n_roots N) = filter (\<lambda>i. \<not> ended N i) (n_roots N)"
      by (intro filter_cong) simp_all
    then show ?thesis by (simp add: filter_map comp_def)
  qed
  ultimately have eq: "announce_votes T N = Some (N1\<lparr>n_roots := map announced (filter (\<lambda>i. \<not> ended N i) (n_roots N))\<rparr>)"
    using l by (simp add: announce_votes_def announced_def [abs_def])
  have inv: "node_inv E N1" "n_elections N1 = n_elections N" using P N by (simp_all add: same_active_def)
  have "active_inv (n_elections N) (map announced (filter (\<lambda>i. \<not> ended N i) (n_roots N)))"
    using A by (auto simp: active_inv_def comp_def distinct_map_filter)
  then show thesis using inv by (intro that [OF eq]) (auto simp: node_inv_def)
qed

lemma active_erase_inv: "node_inv E N \<Longrightarrow> node_inv E (active_erase N b)"
  by (auto simp: active_erase_def node_inv_def active_inv_def distinct_map_filter)

section \<open>The ledger under the node\<close>

definition sane_env :: "rai_env \<Rightarrow> bool" where
  "sane_env E \<longleftrightarrow> env_ok E \<and> (\<forall>b. hash_sane E b)"

lemma store_inv_tables:
  assumes "store_inv E s" "side_tables s' = side_tables s" "store_ok E s'"
    "\<And>h b. blk (dbs s') h = Some b \<Longrightarrow> worked E b \<and> (is_genesis (genesis_account E) b \<longrightarrow> b = Open (genesis_open E))"
  shows "store_inv E s'"
  using assms by (auto simp: store_inv_def side_tables_def ran_def)

lemma process_store_inv:
  assumes L: "store_inv E (store L)" and b: "hash_sane E b" "worked E b"
  obtains ret L' where "process E T L b = Some (ret, L')" "store_inv E (store L')"
proof -
  note ok = store_invD(1) [OF L]
  obtain ret L' where L': "process E T L b = Some (ret, L')" "store_ok E (store L')"
    by (rule process_keeps_store_ok [OF ok b(1)])
  note P = process_resultD [OF ok b(1) L'(1)]
  obtain C N where inv: "ledger_inv E (view_of (store L)) C N" using ok by (rule store_okE)
  have "worked E c \<and> (is_genesis (genesis_account E) c \<longrightarrow> c = Open (genesis_open E))"
    if c: "blk (dbs (store L')) h = Some c" for h c
  proof (cases "ret_code ret = Progress")
    case True
    obtain C' N' where "vB (view_of (store L')) = (vB (view_of (store L)))(block_hash E b \<mapsto> b)"
      by (rule ledger_step_newest [OF inv P(2) [OF True] b(1)])
    then have "blk (dbs (store L')) = (blk (dbs (store L)))(block_hash E b \<mapsto> b)" by simp
    then show ?thesis
      using c b(2) store_invD(2,6) [OF L] accepted_not_genesis [OF inv P(2) [OF True]] by (auto split: if_splits)
  next
    case False
    then show ?thesis using P(3) c store_invD(2,6) [OF L] by auto
  qed
  then have "store_inv E (store L')" using process_keeps_side_tables [OF L'(1)] by (intro store_inv_tables [OF L _ L'(2)])
  then show thesis using that L'(1) by blast
qed

lemma rollback_store_inv:
  assumes L: "store_inv E (store L)" and h: "blk (dbs (store L)) h = Some b" "\<not> is_genesis (genesis_account E) b"
  obtains L' where "rollback E T L h = Some L'" "store_inv E (store L')"
proof -
  obtain C N where ok: "dbs_wf (dbs (store L))" "ledger_inv E (view_of (store L)) C N"
    using store_invD(1) [OF L] by (rule store_okE)
  obtain L' where L': "rollback E T L h = Some L'" "store_ok E (store L')"
      "blk (dbs (store L')) = blk (dbs (store L)) |` (- dependents (genesis_account E) (blk (dbs (store L))) h)"
    by (rule rollback_exact [OF ok h])
  have "worked E c \<and> (is_genesis (genesis_account E) c \<longrightarrow> c = Open (genesis_open E))"
    if "blk (dbs (store L')) x = Some c" for x c
    using that L'(3) store_invD(2,6) [OF L] by (auto simp: restrict_map_def split: if_splits)
  then have "store_inv E (store L')" using rollback_keeps_side_tables [OF L'(1)] by (intro store_inv_tables [OF L _ L'(2)])
  then show thesis using that L'(1) by blast
qed

lemma successor_stored:
  assumes inv: "ledger_inv E (view_of s) C N" and wf: "dbs_wf (dbs s)" and n: "suc (dbs s) h = Some n" "n \<noteq> 0"
  shows "\<exists>d. blk (dbs s) n = Some d \<and> root d = h"
proof -
  note ch = ledger_invD(2) [OF inv]
  have "h \<in> dom (suc (dbs s))" using n(1) by blast
  then have "h \<in> dom (vB (view_of s))" using dom_suc [OF wf] by simp
  then obtain a where a: "h \<in> set (C a)" using chains_okD(9) [OF ch] by blast
  then obtain i where i: "accounts s a = Some i" using chains_okD(1) [OF ch, of a] by (cases "accounts s a") auto
  have "h \<noteq> head i"
  proof
    assume "h = head i"
    then have "h = hd (C a)" "C a \<noteq> []" using chains_okD(3,6) [OF ch, of a i] i by simp_all
    then have "suc (dbs s) h = Some 0" using chains_okD(10) [OF ch, of a] by (cases "C a") auto
    then show False using n by simp
  qed
  from root_followed [OF inv a i this] show ?thesis using n(1) by auto
qed

lemma ledger_successor_total:
  assumes "store_ok E s"
  obtains r where "ledger_successor s x = Some r" "\<And>d. r = Some d \<Longrightarrow> blk (dbs s) (block_hash E d) = Some d \<and> root d = x"
proof -
  obtain C N where wf: "dbs_wf (dbs s)" and inv: "ledger_inv E (view_of s) C N" using assms by (rule store_okE)
  have hash: "block_hash E d = h" "h \<noteq> 0" if "blk (dbs s) h = Some d" for h d
    using ledger_invD(1) [OF inv] that by (auto simp: hashes_ok_def)
  let ?n = "case accounts s x of Some i \<Rightarrow> open_block i | None \<Rightarrow> (case suc (dbs s) x of None \<Rightarrow> 0 | Some n \<Rightarrow> n)"
  have n: "(if account_exists s x then map_option open_block (account_get s x) else block_successor s x) = Some ?n"
    by (cases "accounts s x") (simp_all add: account_exists_iff domIff account_get_def block_successor_suc [OF wf])
  show thesis
  proof (cases "?n = 0")
    case True
    then show thesis using that [of None] n by (simp add: ledger_successor_def uint256_is_zero_iff)
  next
    case False
    have "\<exists>d. blk (dbs s) ?n = Some d \<and> root d = x"
    proof (cases "accounts s x")
      case None
      then show ?thesis using False successor_stored [OF inv wf, of x] by (cases "suc (dbs s) x") auto
    next
      case (Some i)
      then show ?thesis using root_opened [OF inv Some] by simp
    qed
    then obtain d where d: "blk (dbs s) ?n = Some d" "root d = x" by blast
    then have "ledger_successor s x = Some (Some d)"
      using n False by (simp add: ledger_successor_def uint256_is_zero_iff block_get_blk [OF wf])
    then show thesis using that d hash [OF d(1)] by auto
  qed
qed

end
