(* ===== verification/Rai_Node_Blocks.thy ===== *)
theory Rai_Node_Blocks
  imports Rai_Node_Inv
begin

text \<open>
  The block processor over a node that satisfies the invariant: the blocks that wait for others, the
  forks, and the roll back of a block that lost its election. It keeps the invariant, and it fails an
  assertion only for a fork the ledger finds no rival for and for a rival of the genesis block.
\<close>

section \<open>Rolling back the genesis block\<close>

text \<open>
  The roll back of the first block never returns: it would need the account of its source, which is
  no block.
\<close>

definition genesis_stored :: "rai_env \<Rightarrow> block_dbs \<Rightarrow> bool" where
  "genesis_stored E d \<longleftrightarrow> dbs_wf d \<and> (\<forall>h b. blk d h = Some b \<longrightarrow> block_hash E b = h)
     \<and> blk d (genesis_hash E) = Some (Open (genesis_open E)) \<and> blk d (genesis_account E) = None"

named_theorems dbs_dest

lemma dbs_update [simp]:
  "dbs (account_put s a i) = dbs s" "dbs (frontier_put s h a) = dbs s" "dbs (pending_put s k p) = dbs s"
  "dbs (block_info_put s h bi) = dbs s" "dbs (representation_put s a w) = dbs s"
  by (simp_all add: account_put_def frontier_put_def pending_put_def block_info_put_def representation_put_def)

lemma dbs_partial [dbs_dest]:
  "account_del s a = Some s' \<Longrightarrow> dbs s' = dbs s" "frontier_del s h = Some s' \<Longrightarrow> dbs s' = dbs s"
  "pending_del s k = Some s' \<Longrightarrow> dbs s' = dbs s" "block_info_del s h = Some s' \<Longrightarrow> dbs s' = dbs s"
  "checksum_put s p m c = Some s' \<Longrightarrow> dbs s' = dbs s" "representation_add s h w = Some s' \<Longrightarrow> dbs s' = dbs s"
  by (auto simp: account_del_def frontier_del_def pending_del_def block_info_del_def checksum_put_def
    representation_add_def representation_put_def bind_Some_iff Let_def split: if_splits)

lemma dbs_checksum [dbs_dest]: "ledger_checksum_update s h = Some s' \<Longrightarrow> dbs s' = dbs s"
  by (auto simp: ledger_checksum_update_def bind_Some_iff dest!: dbs_dest)

lemma dbs_latest [dbs_dest]: "change_latest T s a h r w n f = Some s' \<Longrightarrow> dbs s' = dbs s"
  by (auto simp: change_latest_def bind_Some_iff Let_def split: if_splits option.splits dest!: dbs_dest)

lemma dbs_if [dbs_dest]:
  "(if c then block_info_del s h else Some s) = Some s' \<Longrightarrow> dbs s' = dbs s"
  "(if c then representation_add s h w else Some s) = Some s' \<Longrightarrow> dbs s' = dbs s"
  by (auto split: if_splits dest!: dbs_dest)

lemma genesis_stored_del:
  assumes "genesis_stored E (dbs s)" "block_del s h = Some s'" "h \<noteq> genesis_hash E"
  shows "genesis_stored E (dbs s')"
proof -
  have wf: "dbs_wf (dbs s)" using assms(1) by (simp add: genesis_stored_def)
  have "block_exists s h" using assms(2) by (auto simp: block_del_def block_exists_def Let_def split: if_splits)
  then have "h \<in> dom (blk (dbs s))" using block_exists_iff [OF wf] by simp
  then obtain d where "block_del s h = Some (s\<lparr>dbs := d\<rparr>)" "dbs_wf d" "blk d = (blk (dbs s))(h := None)"
    by (rule block_del_views [OF wf])
  then show ?thesis using assms by (auto simp: genesis_stored_def)
qed

lemma genesis_stored_clear:
  assumes "genesis_stored E (dbs s)" "block_successor_clear E s h = Some s'"
  shows "genesis_stored E (dbs s')"
proof -
  have wf: "dbs_wf (dbs s)" using assms(1) by (simp add: genesis_stored_def)
  obtain b where b: "blk (dbs s) h = Some b" "block_put E s h b 0 = Some s'"
    using assms(2) by (auto simp: block_successor_clear_def block_get_blk [OF wf] bind_Some_iff)
  obtain d1 where d1: "mdb_put_block (type_of b) h (serialize b @ write_u256 0) (dbs s) = Some d1" "dbs_wf d1"
      "blk d1 = (blk (dbs s))(h \<mapsto> b)"
    by (rule put_block_views [OF wf, of h b 0]) (use b(1) in simp_all)
  have blk: "blk d1 = blk (dbs s)" using d1(3) b(1) by (simp add: fun_upd_idem)
  obtain s2 where s2: "set_predecessor E (s\<lparr>dbs := d1\<rparr>) b = Some s2" "dbs s' = dbs s2"
    using b(2) d1(1) by (auto simp: block_put_def block_put_raw_def bind_Some_iff split: if_splits)
  have "dbs_wf (dbs s2) \<and> blk (dbs s2) = blk d1"
  proof (cases "s2 = s\<lparr>dbs := d1\<rparr>")
    case True
    then show ?thesis using d1(2) by simp
  next
    case False
    then have f: "fill_value E (s\<lparr>dbs := d1\<rparr>) b = Some s2" using s2(1) by (cases b) (auto split: if_splits)
    then have "block_get_raw d1 (previous b) \<noteq> None" by (auto simp: fill_value_def split: option.splits)
    then have "previous b \<in> dom (blk (dbs (s\<lparr>dbs := d1\<rparr>)))" using raw_None_iff(1) [OF d1(2)] by auto
    then obtain d2 where "fill_value E (s\<lparr>dbs := d1\<rparr>) b = Some (s\<lparr>dbs := d1\<rparr>\<lparr>dbs := d2\<rparr>)" "dbs_wf d2" "blk d2 = blk d1"
      using fill_value_views [of "s\<lparr>dbs := d1\<rparr>" b E] d1(2) by auto
    then show ?thesis using f by simp
  qed
  then show ?thesis using assms(1) blk s2(2) by (simp add: genesis_stored_def)
qed

named_theorems genesis_dest

lemma genesis_stored_keep [genesis_dest]:
  "account_del s a = Some s' \<Longrightarrow> genesis_stored E (dbs s) \<Longrightarrow> genesis_stored E (dbs s')"
  "frontier_del s h = Some s' \<Longrightarrow> genesis_stored E (dbs s) \<Longrightarrow> genesis_stored E (dbs s')"
  "frontier_del (pending_put s k p) h = Some s' \<Longrightarrow> genesis_stored E (dbs s) \<Longrightarrow> genesis_stored E (dbs s')"
  "pending_del s k = Some s' \<Longrightarrow> genesis_stored E (dbs s) \<Longrightarrow> genesis_stored E (dbs s')"
  "representation_add s h w = Some s' \<Longrightarrow> genesis_stored E (dbs s) \<Longrightarrow> genesis_stored E (dbs s')"
  "change_latest T s a h r w n f = Some s' \<Longrightarrow> genesis_stored E (dbs s) \<Longrightarrow> genesis_stored E (dbs s')"
  "(if c then block_info_del s h else Some s) = Some s' \<Longrightarrow> genesis_stored E (dbs s) \<Longrightarrow> genesis_stored E (dbs s')"
  "(if c then representation_add s h w else Some s) = Some s' \<Longrightarrow> genesis_stored E (dbs s) \<Longrightarrow> genesis_stored E (dbs s')"
  by (drule dbs_dest, simp)+

lemma genesis_stored_clear_put [genesis_dest]:
  "block_successor_clear E s h = Some s' \<Longrightarrow> genesis_stored E (dbs s) \<Longrightarrow> genesis_stored E (dbs s')"
  "block_successor_clear E (frontier_put s x a) h = Some s' \<Longrightarrow> genesis_stored E (dbs s) \<Longrightarrow> genesis_stored E (dbs s')"
  using genesis_stored_clear by (metis dbs_update(2))+

lemma rollback_handlers_genesis:
  "rollback_send E T L sb = Some L' \<Longrightarrow> block_hash E (Send sb) \<noteq> genesis_hash E \<Longrightarrow>
     genesis_stored E (dbs (store L)) \<Longrightarrow> genesis_stored E (dbs (store L'))"
  "rollback_receive E T L rb = Some L' \<Longrightarrow> block_hash E (Receive rb) \<noteq> genesis_hash E \<Longrightarrow>
     genesis_stored E (dbs (store L)) \<Longrightarrow> genesis_stored E (dbs (store L'))"
  "rollback_open E T L ob = Some L' \<Longrightarrow> block_hash E (Open ob) \<noteq> genesis_hash E \<Longrightarrow>
     genesis_stored E (dbs (store L)) \<Longrightarrow> genesis_stored E (dbs (store L'))"
  "rollback_change E T L cb = Some L' \<Longrightarrow> block_hash E (Change cb) \<noteq> genesis_hash E \<Longrightarrow>
     genesis_stored E (dbs (store L)) \<Longrightarrow> genesis_stored E (dbs (store L'))"
  "rollback_state_begin E L tb = Some (r, w, x, L') \<Longrightarrow> genesis_stored E (dbs (store L)) \<Longrightarrow>
     genesis_stored E (dbs (store L'))"
  unfolding rollback_send_def rollback_receive_def rollback_open_def rollback_change_def rollback_state_begin_def Let_def
  by (clarsimp simp only: bind_Some_iff option.inject prod.inject;
      (drule (1) genesis_dest | drule genesis_stored_del, assumption, assumption)+; simp)+

lemma genesis_stored_state [genesis_dest]:
  "(if x then Option.bind (pending_del s k) (\<lambda>s. Some (s, c1))
     else if y then Option.bind z (\<lambda>a. Some (pending_put s k' (p a), c2)) else Some (s, c3)) = Some (s', c') \<Longrightarrow>
     genesis_stored E (dbs s) \<Longrightarrow> genesis_stored E (dbs s')"
  "(case prev of Some p \<Rightarrow> Option.bind (block_successor_clear E s h)
        (\<lambda>s. Some (if \<not> is_state p then frontier_put s h a else s, c1))
     | None \<Rightarrow> Some (s, c2)) = Some (s', c') \<Longrightarrow> genesis_stored E (dbs s) \<Longrightarrow> genesis_stored E (dbs s')"
  by (auto simp: bind_Some_iff split: if_splits option.splits dest: dbs_dest genesis_stored_clear)

lemma rollback_state_end_genesis:
  "rollback_state_end E T L tb r w x = Some L' \<Longrightarrow> block_hash E (State tb) \<noteq> genesis_hash E \<Longrightarrow>
     genesis_stored E (dbs (store L)) \<Longrightarrow> genesis_stored E (dbs (store L'))"
  unfolding rollback_state_end_def Let_def
  by (clarsimp simp only: bind_Some_iff option.inject split_paired_Ex prod.case;
      (drule (1) genesis_dest | drule genesis_stored_del, assumption, assumption)+; simp)

lemma rollback_open_genesis: "genesis_stored E (dbs (store L)) \<Longrightarrow> rollback_open E T L (genesis_open E) = None"
proof (rule ccontr)
  assume g: "genesis_stored E (dbs (store L))" and "rollback_open E T L (genesis_open E) \<noteq> None"
  then obtain a where "ledger_account (store L) (genesis_account E) = Some a"
    by (auto simp: rollback_open_def Let_def bind_Some_iff)
  then show False using g by (auto simp: ledger_account_def genesis_stored_def block_get_blk bind_Some_iff)
qed

lemma rollback_run_genesis:
  "rollback_run E T task L = Some L' \<Longrightarrow> genesis_stored E (dbs (store L)) \<Longrightarrow> genesis_stored E (dbs (store L'))
     \<and> (case task of Rollback h \<Rightarrow> \<not> block_exists (store L') h | Rollback_loop a h \<Rightarrow> \<not> block_exists (store L') h
        | Rollback_pending key \<Rightarrow> True)"
proof (induction rule: rollback_run.raw_induct [rotated, consumes 1, case_names run])
  case (run rollback_rec E T task L L')
  show ?case
  proof (cases task)
    case (Rollback h)
    then show ?thesis using run by (auto simp: bind_Some_iff split: if_splits dest: run(1))
  next
    case (Rollback_pending key)
    then show ?thesis using run by (auto simp: bind_Some_iff split: if_splits dest: run(1))
  next
    case (Rollback_loop a h)
    show ?thesis
    proof (cases "block_exists (store L) h")
      case False
      then show ?thesis using run(2,3) Rollback_loop by simp
    next
      case True
      then obtain info :: account_info and x b L1 where b: "block_get (store L) (head info) = Some x" "x = Some b" and L1: "(case b of
               Send sb \<Rightarrow> Option.bind (rollback_rec E T
                  (Rollback_pending (Pending_key (s_destination (send_hashables sb)) (block_hash E b))) L)
                  (\<lambda>L. rollback_send E T L sb)
             | Receive rb \<Rightarrow> rollback_receive E T L rb
             | Open ob \<Rightarrow> rollback_open E T L ob
             | Change cb \<Rightarrow> rollback_change E T L cb
             | State tb \<Rightarrow> Option.bind (rollback_state_begin E L tb) (\<lambda>(rep, balance_a, snd_a, L).
                  Option.bind (if snd_a then rollback_rec E T
                       (Rollback_pending (Pending_key (st_link (state_hashables tb)) (block_hash E b))) L else Some L)
                    (\<lambda>L. rollback_state_end E T L tb rep balance_a snd_a))) = Some L1"
          and rest: "rollback_rec E T (Rollback_loop a h) L1 = Some L'"
        using run(2) unfolding Rollback_loop rollback_task.case bind_Some_iff if_P [OF True]
        by (elim exE conjE) (rule that, assumption+)
      have "blk (dbs (store L)) (block_hash E b) = Some b"
        using b run(3) by (simp add: genesis_stored_def block_get_blk)
      then have "b = Open (genesis_open E)" if "block_hash E b = genesis_hash E"
        using that run(3) by (simp add: genesis_stored_def)
      then have fresh: "block_hash E b \<noteq> genesis_hash E" using L1 rollback_open_genesis [OF run(3)] by auto
      have "genesis_stored E (dbs (store L1))"
        using L1 run(3) fresh by (cases b)
          (auto simp: bind_Some_iff split: if_splits
             dest!: run(1) dest: rollback_handlers_genesis rollback_state_end_genesis)
      then show ?thesis using run(1) [OF rest] Rollback_loop by simp
    qed
  qed
qed

lemma rollback_genesis_aborts:
  assumes "store_ok E (store L)" "blk (dbs (store L)) (genesis_hash E) = Some (Open (genesis_open E))"
  shows "rollback E T L (genesis_hash E) = None"
proof (rule ccontr)
  assume "rollback E T L (genesis_hash E) \<noteq> None"
  then obtain L' where L': "rollback E T L (genesis_hash E) = Some L'" by blast
  obtain C N where "dbs_wf (dbs (store L))" "ledger_inv E (view_of (store L)) C N"
    using assms(1) by (auto simp: store_ok_def)
  then have "genesis_stored E (dbs (store L))"
    using ledger_invD(1) [of E "view_of (store L)" C N] assms(2)
    unfolding genesis_stored_def hashes_ok_def view_of_def by (auto intro: ccontr)
  then have "genesis_stored E (dbs (store L'))" "\<not> block_exists (store L') (genesis_hash E)"
    using rollback_run_genesis [OF L' [unfolded rollback_def]] by simp_all
  then show False by (auto simp: genesis_stored_def block_exists_iff)
qed

section \<open>Unchecked blocks\<close>

lemma unchecked_get_total:
  assumes "store_inv E s"
  obtains bs where "unchecked_get s h = Some bs" "set bs \<subseteq> Some ` {b. worked E b}"
proof -
  have "\<forall>v \<in> set (unchecked_table s h). deserialize_block v \<noteq> None"
    using store_invD(4) [OF assms] deserialize_serialize_block_nil by (metis option.distinct(1))
  then obtain ds where ds: "unchecked_decode (unchecked_table s h) = Some ds" using unchecked_decode_total by blast
  have "d \<in> Some ` {b. worked E b}" if d: "d \<in> set ds" for d
  proof -
    obtain v where "v \<in> set (unchecked_table s h)" "d = map_option fst (the (deserialize_block v))"
      using d unchecked_decode_Some [OF ds] by auto
    then show ?thesis using store_invD(4) [OF assms, of v h] by auto
  qed
  moreover have "set (map (Some \<circ> snd) (filter (\<lambda>e. fst e = h) (unchecked_cache s))) \<subseteq> Some ` {b. worked E b}"
    using store_invD(3) [OF assms] by auto
  ultimately show thesis using that ds by (simp add: unchecked_get_def) blast
qed

lemma unchecked_found_total: "set bs \<subseteq> Some ` A \<Longrightarrow> \<exists>r. unchecked_found E h bs = Some r"
  by (induction E h bs rule: unchecked_found.induct) auto

lemma unchecked_put_total:
  assumes "store_inv E s" "worked E b"
  obtains s' where "unchecked_put E s h b = Some s'" "store_inv E s'"
proof -
  obtain bs where bs: "unchecked_get s h = Some bs" "set bs \<subseteq> Some ` {b. worked E b}"
    by (rule unchecked_get_total [OF assms(1)])
  obtain r where r: "unchecked_found E (block_hash E b) bs = Some r" using unchecked_found_total [OF bs(2)] by blast
  have "store_inv E (s\<lparr>unchecked_cache := unchecked_cache s @ [(h, b)]\<rparr>)"
    using assms by (auto simp: store_inv_def)
  then show thesis using that bs(1) r assms(1) by (cases r) (simp_all add: unchecked_put_def)
qed

lemma unchecked_del_inv:
  assumes "store_inv E s"
  shows "store_inv E (unchecked_del s h b)"
proof -
  have "store_ok E (unchecked_del s h b) = store_ok E s" "dbs (unchecked_del s h b) = dbs s"
    "vote_table (unchecked_del s h b) = vote_table s" by (simp_all add: unchecked_del_def)
  moreover have "worked E c" if "(k, c) \<in> set (unchecked_cache (unchecked_del s h b))" for k c
    using that store_invD(3) [OF assms] by (auto simp: unchecked_del_def)
  moreover have "\<exists>c. v = serialize_block c \<and> worked E c" if "v \<in> set (unchecked_table (unchecked_del s h b) k)" for k v
    using that store_invD(4) [OF assms, of v k] by (auto simp: unchecked_del_def split: if_splits)
  ultimately show ?thesis using assms by (auto simp: store_inv_def)
qed

lemma flush_inv:
  assumes "store_inv E s"
  shows "store_inv E (flush s)"
proof -
  have "store_ok E (flush s) = store_ok E s" by (simp add: flush_def)
  moreover have "\<exists>b. v = serialize_block b \<and> worked E b" if "v \<in> set (unchecked_table (flush s) h)" for v h
    using that store_invD(3,4) [OF assms] by (auto simp: flush_def set_flush_unchecked)
  moreover have "\<exists>w. v = vote_serialize w" if "v \<in> ran (vote_table (flush s))" for v
    using that store_invD(5) [OF assms] by (auto simp: flush_def ran_def split: option.splits)
  moreover have "dbs (flush s) = dbs s" "unchecked_cache (flush s) = []" by (simp_all add: flush_def)
  ultimately show ?thesis using assms by (simp add: store_inv_def)
qed

section \<open>The block processor\<close>

lemma bp_add_iff: "bp_add E N b = Some N' \<longleftrightarrow> worked E b \<and> N' = N\<lparr>n_blocks := b # n_blocks N\<rparr>"
  by (auto simp: bp_add_def work_validate_block_def)

lemma bp_add_inv: "node_inv E N \<Longrightarrow> bp_add E N b = Some N' \<Longrightarrow> node_inv E N'"
  by (auto simp: bp_add_iff intro: node_inv_ledger)

lemma requeue_total:
  assumes "node_inv E N" "set bs \<subseteq> Some ` {b. worked E b}"
  obtains N' where "requeue E h bs N = Some N'" "node_inv E N'" "same_active N N'"
  using assms
proof (induction bs arbitrary: N thesis)
  case Nil
  then show ?case by simp
next
  case (Cons d bs)
  obtain b where b: "d = Some b" "worked E b" using Cons.prems(3) by auto
  let ?N = "set_store N (unchecked_del (node_store N) h b)"
  have inv: "node_inv E ?N" by (rule node_inv_ledger(2) [OF Cons.prems(2) unchecked_del_inv [OF node_invD(1) [OF Cons.prems(2)]]])
  have add: "bp_add E ?N b = Some (?N\<lparr>n_blocks := b # n_blocks ?N\<rparr>)" using b(2) by (simp add: bp_add_iff)
  obtain N' where "requeue E h bs (?N\<lparr>n_blocks := b # n_blocks ?N\<rparr>) = Some N'" "node_inv E N'"
      "same_active (?N\<lparr>n_blocks := b # n_blocks ?N\<rparr>) N'"
    using Cons.IH [OF _ bp_add_inv [OF inv add]] Cons.prems(3) by auto
  then show ?case using Cons.prems(1) [of N'] add b by (simp add: same_active_def set_store_def)
qed

lemma queue_unchecked_total:
  assumes N: "node_inv E N"
  obtains N' where "queue_unchecked E N h = Some N'" "node_inv E N'" "same_active N N'"
proof -
  obtain bs where bs: "unchecked_get (node_store N) h = Some bs" "set bs \<subseteq> Some ` {b. worked E b}"
    by (rule unchecked_get_total [OF node_invD(1) [OF N]])
  obtain N1 where N1: "requeue E h bs N = Some N1" "node_inv E N1" "same_active N N1" by (rule requeue_total [OF N bs(2)])
  have "queue_unchecked E N h = Some (gap_erase N1 h)" using bs(1) N1(1) by (simp add: queue_unchecked_def)
  moreover have "node_inv E (gap_erase N1 h)" using N1(2) by (auto simp: node_inv_def gap_erase_def)
  moreover have "same_active N (gap_erase N1 h)" using N1(3) by (simp add: gap_erase_def)
  ultimately show thesis by (rule that)
qed

lemma gap_add_inv:
  assumes "node_inv E N"
  shows "node_inv E (gap_add T E N b)" "same_active N (gap_add T E N b)"
proof -
  have tl: "x \<in> set xs" if "x \<in> set (tl xs)" for x and xs :: "gap_information list" using that by (cases xs) auto
  have "candidates (gap_votes g) \<noteq> {}" if "g \<in> set (n_gaps (gap_add T E N b))" for g
    using that node_invD(7) [OF assms]
    by (auto simp: gap_add_def Let_def find_Some_iff split: option.splits if_splits dest!: tl)
  moreover have "same_active N (gap_add T E N b)" "node_store (gap_add T E N b) = node_store N"
    "n_peers (gap_add T E N b) = n_peers N" "n_blocks (gap_add T E N b) = n_blocks N" "n_forced (gap_add T E N b) = n_forced N"
    "n_reps (gap_add T E N b) = n_reps N"
    by (simp_all add: gap_add_def Let_def split: option.split)
  ultimately show "node_inv E (gap_add T E N b)" "same_active N (gap_add T E N b)"
    using assms by (simp_all add: node_inv_def same_active_def)
qed

lemma put_unchecked_total:
  assumes N: "node_inv E N" and b: "worked E b"
  obtains N' where "put_unchecked E T N h b = Some N'" "node_inv E N'" "same_active N N'"
proof -
  obtain s where s: "unchecked_put E (node_store N) h b = Some s" "store_inv E s"
    by (rule unchecked_put_total [OF node_invD(1) [OF N] b])
  note G = gap_add_inv [OF node_inv_ledger(2) [OF N s(2)], of T b]
  have "put_unchecked E T N h b = Some (gap_add T E (set_store N s) b)" using s(1) by (simp add: put_unchecked_def)
  moreover have "same_active N (gap_add T E (set_store N s) b)" using G(2) by (simp add: same_active_def set_store_def)
  ultimately show thesis using that G(1) by blast
qed

text \<open>What every task but a round of announcements leaves of the elections.\<close>

definition keeps_elections :: "node \<Rightarrow> node \<Rightarrow> bool" where
  "keeps_elections N N' \<longleftrightarrow> length (n_elections N) \<le> length (n_elections N')
     \<and> (\<forall>k < length (n_elections N). e_confirmed (get_election N k) \<longrightarrow> e_confirmed (get_election N' k))
     \<and> (\<forall>c \<in> set (n_roots N'). c_election c < length (n_elections N) \<longrightarrow> c \<in> set (n_roots N))"

lemma keeps_elections_advance: "elections_advance N N' \<Longrightarrow> keeps_elections N N'"
  by (simp add: elections_advance_def keeps_elections_def)

lemma keeps_elections_same: "same_active N N' \<Longrightarrow> keeps_elections N N'"
  by (simp add: same_active_def keeps_elections_def get_election_def)

lemma keeps_elections_trans [trans]: "keeps_elections N N' \<Longrightarrow> keeps_elections N' N'' \<Longrightarrow> keeps_elections N N''"
  by (force simp: keeps_elections_def)

lemma active_start_keeps: "keeps_elections N (snd (active_start N bs action))"
  by (auto simp: active_start_def keeps_elections_def Let_def get_election_def nth_append split: option.split)

lemma active_erase_keeps: "keeps_elections N (active_erase N b)"
  by (simp add: active_erase_def keeps_elections_def get_election_def)

lemma block_arrival_recent_inv:
  assumes "block_arrival_recent T N h = (r, N')"
  shows "node_inv E N' = node_inv E N" "same_active M N' = same_active M N" "node_store N' = node_store N"
  using assms by (auto simp: block_arrival_recent_def Let_def)

text \<open>
  The forks the ledger finds no rival for: a state block on a block of another account, and a block
  that opens an account whose number is the hash of a block.
\<close>

definition fork_unresolved :: "rai_env \<Rightarrow> block_store \<Rightarrow> block \<Rightarrow> bool" where
  "fork_unresolved E s b \<longleftrightarrow>
     (\<exists>tb. b = State tb \<and> previous b \<noteq> 0 \<and> ledger_account s (previous b) \<noteq> Some (st_account (state_hashables tb)))
     \<or> (previous b = 0 \<and> root b \<in> dom (blk (dbs s)))"

lemma forked_block_stored:
  assumes "dbs_wf (dbs s)" "forked_block E s b = Some x"
  shows "x \<in> ran (blk (dbs s))"
  using assms by (auto simp: forked_block_def bind_Some_iff Let_def block_get_blk ran_def split: option.splits if_splits)

lemma process_fork_inv:
  assumes N: "node_inv E N" and r: "process_fork E T N b = Some N'"
  shows "node_inv E N'" "keeps_elections N N'"
proof -
  have "node_inv E N' \<and> keeps_elections N N'"
  proof (cases "N' = N")
    case True
    then show ?thesis using N keeps_elections_same [OF same_active_refl] by simp
  next
    case False
    then obtain x where x: "forked_block E (node_store N) b = Some x"
      using r by (auto simp: process_fork_def bind_Some_iff split: if_splits)
    obtain ex N1 where N1: "active_start N (x, Some b) (Requeue_pull (root b)) = (ex, N1)" by fastforce
    obtain C M where "dbs_wf (dbs (node_store N))" using store_invD(1) [OF node_invD(1) [OF N]] by (rule store_okE)
    then have "worked E x" using forked_block_stored [OF _ x] store_invD(2) [OF node_invD(1) [OF N]] by (auto simp: ran_def)
    then have i: "node_inv E N1" "keeps_elections N N1"
      using active_start_inv [OF N, of "(x, Some b)"] active_start_keeps [of N "(x, Some b)"] N1 by (metis fst_conv snd_conv)+
    then have "node_inv E (broadcast_confirm_req T N1 x)" "keeps_elections N (broadcast_confirm_req T N1 x)"
      using keeps_elections_trans [OF i(2) keeps_elections_same [OF broadcast_confirm_req_base_inv(2)]]
      by (simp_all add: broadcast_confirm_req_def)
    then show ?thesis using r x N1 i False by (auto simp: process_fork_def Let_def split: if_splits)
  qed
  then show "node_inv E N'" "keeps_elections N N'" by simp_all
qed

lemma process_fork_total:
  assumes E: "sane_env E" and L: "store_inv E (store L)" "process E T' L b = Some (ret, L')" "ret_code ret = Fork" "node_store N = store L"
    and ok: "\<not> fork_unresolved E (store L) b"
  shows "process_fork E T N b \<noteq> None"
proof -
  obtain C M where inv: "dbs_wf (dbs (store L))" "ledger_inv E (view_of (store L)) C M"
    using store_invD(1) [OF L(1)] by (rule store_okE)
  have "\<exists>x. forked_block E (store L) b = Some x \<and> root x = root b \<and> blk (dbs (store L)) (block_hash E x) = Some x"
    using E ok by (intro forked_block_correct [OF inv _ L(2,3)]) (auto simp: sane_env_def fork_unresolved_def)
  then show ?thesis using L(4) by (auto simp: process_fork_def Let_def split: prod.split)
qed

lemma process_receive_one_cases:
  assumes E: "sane_env E" and N: "node_inv E N" and b: "worked E b"
  obtains (returns) r N' where "process_receive_one E T N b = Some (r, N')" "node_inv E N'" "keeps_elections N N'"
  | (aborts) "process_receive_one E T N b = None" "fork_unresolved E (node_store N) b"
proof -
  have sane: "hash_sane E b" using E by (simp add: sane_env_def)
  note S = node_invD(1) [OF N]
  obtain ret L where L: "process E T (n_ledger N) b = Some (ret, L)" "store_inv E (store L)"
    by (rule process_store_inv [OF S sane b])
  let ?N = "N\<lparr>n_ledger := L\<rparr>" and ?h = "block_hash E b"
  have N1: "node_inv E ?N" by (rule node_inv_ledger(1) [OF N L(2)])
  have same: "same_active N ?N" by simp
  obtain rec N2 where rec: "block_arrival_recent T ?N ?h = (rec, N2)" by fastforce
  note R = block_arrival_recent_inv [OF rec]
  have N2: "node_inv E N2" "keeps_elections N N2" using R N1 same by (simp_all add: keeps_elections_same)
  note eq = process_receive_one_def Let_def L(1)
  consider "ret_code ret = Progress" | "ret_code ret = Gap_previous" | "ret_code ret = Gap_source" | "ret_code ret = Old"
    | "ret_code ret = Fork" | "ret_code ret \<notin> {Progress, Gap_previous, Gap_source, Old, Fork}" by blast
  then show thesis
  proof cases
    case 1
    let ?M = "if rec then snd (active_start N2 (b, None) No_action) else N2"
    have M: "node_inv E ?M" "keeps_elections N ?M"
      using N2 active_start_inv [OF N2(1), of "(b, None)"] b keeps_elections_trans [OF N2(2) active_start_keeps] by simp_all
    obtain N3 where N3: "queue_unchecked E ?M ?h = Some N3" "node_inv E N3" "same_active ?M N3"
      by (rule queue_unchecked_total [OF M(1)])
    show thesis
      by (rule returns [of ret N3]) (use 1 rec N3 keeps_elections_trans [OF M(2) keeps_elections_same [OF N3(3)]] in \<open>simp_all add: eq\<close>)
  next
    case 2
    obtain N3 where N3: "put_unchecked E T ?N (previous b) b = Some N3" "node_inv E N3" "same_active ?N N3"
      by (rule put_unchecked_total [OF N1 b])
    show thesis
      by (rule returns [of ret N3]) (use 2 N3 keeps_elections_same [OF same_active_trans [OF same N3(3)]] in \<open>simp_all add: eq\<close>)
  next
    case 3
    obtain C M where inv: "dbs_wf (dbs (node_store N))" "ledger_inv E (view_of (node_store N)) C M"
      using store_invD(1) [OF S] by (rule store_okE)
    have "store L = node_store N" using process_resultD(3) [OF store_invD(1) [OF S] sane L(1)] 3 by simp
    then obtain src where src: "block_source E (store L) b = Some src" using code_gap_source [OF inv L(1) 3] by auto
    obtain N3 where N3: "put_unchecked E T ?N src b = Some N3" "node_inv E N3" "same_active ?N N3"
      by (rule put_unchecked_total [OF N1 b])
    show thesis
      by (rule returns [of ret N3]) (use 3 src N3 keeps_elections_same [OF same_active_trans [OF same N3(3)]] in \<open>simp_all add: eq\<close>)
  next
    case 4
    obtain N3 where N3: "queue_unchecked E ?N ?h = Some N3" "node_inv E N3" "same_active ?N N3"
      by (rule queue_unchecked_total [OF N1])
    show thesis
      by (rule returns [of ret N3]) (use 4 N3 keeps_elections_same [OF same_active_trans [OF same N3(3)]] in \<open>simp_all add: eq\<close>)
  next
    case 5
    have st: "node_store N2 = node_store N" using process_resultD(3) [OF store_invD(1) [OF S] sane L(1)] 5 R(3) by simp
    show thesis
    proof (cases "if \<not> rec then process_fork E T N2 b else Some N2")
      case None
      then have "process_receive_one E T N b = None" "process_fork E T N2 b = None" using 5 rec by (simp_all add: eq split: if_splits)
      then show thesis using process_fork_total [OF E S L(1) 5 st, of T] by (intro aborts) auto
    next
      case (Some N3)
      then have "process_receive_one E T N b = Some (ret, N3)" using 5 rec by (simp add: eq)
      moreover have "node_inv E N3" "keeps_elections N N3"
        using Some N2 process_fork_inv [OF N2(1)] keeps_elections_trans [OF N2(2)] by (auto split: if_splits)
      ultimately show thesis by (rule returns)
    qed
  next
    case 6
    have "process_receive_one E T N b = Some (ret, ?N)" using 6 by (simp add: eq split: process_result.split)
    then show thesis using returns N1 keeps_elections_same [OF same] by blast
  qed
qed

lemma roll_back_rival_cases:
  assumes N: "node_inv E N"
  obtains (returns) N' where "roll_back_rival E T N b = Some N'" "node_inv E N'" "same_active N N'"
  | (aborts) "roll_back_rival E T N b = None" "root b = genesis_account E" "block_hash E b \<noteq> genesis_hash E"
proof -
  note S = node_invD(1) [OF N]
  obtain r where r: "ledger_successor (node_store N) (root b) = Some r"
      "\<And>d. r = Some d \<Longrightarrow> blk (dbs (node_store N)) (block_hash E d) = Some d \<and> root d = root b"
    by (rule ledger_successor_total [OF store_invD(1) [OF S], of "root b"]) (rule that)
  have keep: thesis if "roll_back_rival E T N b = Some N" using returns that N by simp
  show thesis
  proof (cases "\<exists>d. r = Some d \<and> block_hash E d \<noteq> block_hash E b")
    case False
    then show thesis using r(1) by (intro keep) (auto simp: roll_back_rival_def split: option.split)
  next
    case True
    then obtain d where d: "r = Some d" "block_hash E d \<noteq> block_hash E b" by blast
    note D = r(2) [OF d(1)]
    have eq: "roll_back_rival E T N b = map_option (\<lambda>L. N\<lparr>n_ledger := L\<rparr>) (rollback E T (n_ledger N) (block_hash E d))"
      using r(1) d by (cases "rollback E T (n_ledger N) (block_hash E d)") (simp_all add: roll_back_rival_def)
    show thesis
    proof (cases "rollback E T (n_ledger N) (block_hash E d)")
      case None
      have "is_genesis (genesis_account E) d"
        using rollback_store_inv [OF S, of "block_hash E d" d T] D None by (metis option.distinct(1))
      then have "d = Open (genesis_open E)" using store_invD(6) [OF S] D by blast
      then show thesis using D d(2) None eq by (intro aborts) (auto simp: genesis_hash_def)
    next
      case (Some L)
      have "store_inv E (store L)"
      proof (cases "is_genesis (genesis_account E) d")
        case True
        then have "d = Open (genesis_open E)" using store_invD(6) [OF S] D by blast
        then show ?thesis using rollback_genesis_aborts [OF store_invD(1) [OF S], of T] D Some by (simp add: genesis_hash_def)
      next
        case False
        then show ?thesis using rollback_store_inv [OF S _ False, of "block_hash E d" T] D Some by (metis option.inject)
      qed
      then show thesis using eq Some node_inv_ledger(1) [OF N] by (intro returns [of "N\<lparr>n_ledger := L\<rparr>"]) simp_all
    qed
  qed
qed

text \<open>A block for the place of the genesis block, which no roll back can give it.\<close>

definition rivals_genesis :: "rai_env \<Rightarrow> block \<Rightarrow> bool" where
  "rivals_genesis E b \<longleftrightarrow> root b = genesis_account E \<and> block_hash E b \<noteq> genesis_hash E"

lemma next_block_inv:
  assumes "node_inv E N" "next_block N = Some ((b, force), N')"
  shows "node_inv E N'" "worked E b" "same_active M N' = same_active M N"
  using assms by (auto simp: node_inv_def split: list.splits)

lemma next_block_have: "have_blocks N \<Longrightarrow> next_block N \<noteq> None"
  by (auto simp: have_blocks_def split: list.splits)

lemma next_block_log: "next_block (N\<lparr>n_next_log := nl\<rparr>) = map_option (\<lambda>(x, N). (x, N\<lparr>n_next_log := nl\<rparr>)) (next_block N)"
  by (simp split: list.splits)

lemma process_next_cases:
  assumes E: "sane_env E" and N: "node_inv E N" and hb: "have_blocks N"
  obtains (returns) N' where "process_next E T N = Some N'" "node_inv E N'" "keeps_elections N N'"
  | (rival) b N1 where "process_next E T N = None" "next_block N = Some ((b, True), N1)" "rivals_genesis E b"
  | (fork) b force N1 N2 where "process_next E T N = None" "next_block N = Some ((b, force), N1)"
      "(if force then roll_back_rival E T N1 b else Some N1) = Some N2" "fork_unresolved E (node_store N2) b"
proof -
  obtain nl where nl: "(if 64 < length (n_blocks N) then snd (should_log T N) else N) = N\<lparr>n_next_log := nl\<rparr>"
  proof
    show "(if 64 < length (n_blocks N) then snd (should_log T N) else N)
       = N\<lparr>n_next_log := if 64 < length (n_blocks N) \<and> n_next_log N < steady_now T then steady_now T + seconds 15 else n_next_log N\<rparr>"
      by (simp add: should_log_def)
  qed
  obtain b force N1 where nb: "next_block N = Some ((b, force), N1)" using next_block_have [OF hb] by auto
  note inv = next_block_inv [OF N nb]
  let ?log = "\<lambda>N. N\<lparr>n_next_log := nl\<rparr>"
  have N1: "node_inv E (?log N1)" "same_active N (?log N1)" using inv by simp_all
  have rb: "(if force then roll_back_rival E T (?log N1) b else Some (?log N1)) =
      map_option ?log (if force then roll_back_rival E T N1 b else Some N1)"
    by (cases "ledger_successor (node_store N1) (root b)")
      (auto simp: roll_back_rival_def split: option.split bind_split)
  have eq: "process_next E T N = Option.bind (if force then roll_back_rival E T (?log N1) b else Some (?log N1))
      (\<lambda>N. Option.bind (process_receive_one E T N b) (\<lambda>(_, N). Some N))"
    unfolding process_next_def Let_def nl next_block_log nb by simp
  consider (some) N2 where "(if force then roll_back_rival E T N1 b else Some N1) = Some N2" "node_inv E N2" "same_active N N2"
    | (none) "force" "roll_back_rival E T N1 b = None" "rivals_genesis E b"
  proof (cases force)
    case True
    have sa: "same_active N N1" using inv(3) by simp
    show thesis
    proof (rule roll_back_rival_cases [OF inv(1), of T b])
      fix N2
      assume "roll_back_rival E T N1 b = Some N2" "node_inv E N2" "same_active N1 N2"
      then show thesis using True same_active_trans [OF sa] by (intro some) simp_all
    next
      assume "roll_back_rival E T N1 b = None" "root b = genesis_account E" "block_hash E b \<noteq> genesis_hash E"
      then show thesis using True by (intro none) (simp_all add: rivals_genesis_def)
    qed
  next
    case False
    then show thesis using some [of N1] inv by simp
  qed
  then show thesis
  proof cases
    case none
    then show thesis using eq rb nb by (intro rival) simp_all
  next
    case some
    note eq = eq [unfolded rb some(1)]
    have N2: "node_inv E (?log N2)" "same_active N (?log N2)" using some by simp_all
    show thesis
    proof (rule process_receive_one_cases [OF E N2(1) inv(2), of T])
      fix r N'
      assume "process_receive_one E T (?log N2) b = Some (r, N')" "node_inv E N'" "keeps_elections (?log N2) N'"
      then show thesis
        using eq keeps_elections_trans [OF keeps_elections_same [OF N2(2)]] by (intro returns [of N']) simp_all
    next
      assume "process_receive_one E T (?log N2) b = None" "fork_unresolved E (node_store (?log N2)) b"
      then show thesis using eq nb some(1) by (intro fork) simp_all
    qed
  qed
qed

lemma process_loop_inv:
  assumes "sane_env E" "node_inv E N" "process_loop E T n N = Some N'"
  shows "node_inv E N' \<and> keeps_elections N N'"
  using assms
proof (induction n arbitrary: N)
  case 0
  then show ?case by (simp add: keeps_elections_same)
next
  case (Suc n)
  show ?case
  proof (cases "have_blocks N")
    case True
    then obtain N1 where N1: "process_next E T N = Some N1" "process_loop E T n N1 = Some N'"
      using Suc.prems(3) by (auto simp: bind_Some_iff)
    have "node_inv E N1 \<and> keeps_elections N N1"
      by (rule process_next_cases [OF Suc.prems(1,2) True, of T]) (use N1(1) in simp_all)
    then show ?thesis using Suc.IH [OF Suc.prems(1) _ N1(2)] keeps_elections_trans by blast
  next
    case False
    then show ?thesis using Suc.prems by (simp add: keeps_elections_same)
  qed
qed

end
