(* ===== verification/Rai_Node_Runs.thy ===== *)
theory Rai_Node_Runs
  imports Rai_Node_Blocks
begin

text \<open>
  Datagrams and runs of the node: what a datagram can do to a node, that every task keeps the
  invariant of the node, and that a confirmed election leaves the active elections.
\<close>

section \<open>Peers and random blocks\<close>

text \<open>The region the random pool returns lies below the number of blocks.\<close>

definition draws :: "u64 \<times> u256 \<Rightarrow> block_store \<Rightarrow> bool" where
  "draws R s \<longleftrightarrow> (let c = block_count_of s in unat (fst R) < unat (count_send c) + unat (count_receive c)
     + unat (count_open c) + unat (count_change c) + unat (count_state c))"

lemma database_stored:
  assumes "dbs_wf d" "block_database d t = Some D" "x \<in> dom D"
  shows "\<exists>b. blk d x = Some b"
proof -
  have "block_get_raw d x \<noteq> None"
    using assms(2,3) by (cases t) (auto simp: block_get_raw_def split: option.split)
  then show ?thesis using raw_None_iff(1) [OF assms(1)] by auto
qed

lemma block_random_in_total:
  assumes wf: "dbs_wf (dbs s)" and D: "block_database (dbs s) t = Some D" and "D \<noteq> Map.empty"
  shows "\<exists>b. block_random_in h s D = Some (Some b)"
proof -
  have fin: "set (cursor_first D) = dom D" using wf D by (auto simp: dbs_wf_def cursor_first_def)
  have ne: "cursor_first D \<noteq> []" using assms(3) by (metis fin dom_eq_empty_conv set_empty)
  define e where "e = (if cursor_range D h = [] then cursor_first D else cursor_range D h)"
  have e: "e \<noteq> []" "set e \<subseteq> dom D" unfolding e_def using fin ne by (auto simp: cursor_range_def)
  then have "hd e \<in> dom D" using hd_in_set by blast
  then obtain b where "blk (dbs s) (hd e) = Some b" using database_stored [OF wf D] by blast
  then show ?thesis using e(1) by (simp add: block_random_in_def block_get_blk [OF wf] Let_def flip: e_def)
qed

lemma block_random_total:
  assumes wf: "dbs_wf (dbs s)" and R: "draws R s"
  shows "\<exists>b. block_random R s = Some (Some b)"
proof -
  let ?c = "block_count_of s"
  have some: "D \<noteq> Map.empty" if "(x :: u64) < of_nat (card (dom D))" for x and D :: "u256 \<rightharpoonup> byte list"
    using that by auto
  have sub: "unat (x - y) = unat x - unat y" if "\<not> x < y" for x y :: u64
    using that by (simp add: unat_sub not_less)
  have "0 < unat (count_state ?c)"
    if "\<not> fst R < count_send ?c" "\<not> fst R - count_send ?c < count_receive ?c"
      "\<not> fst R - count_send ?c - count_receive ?c < count_open ?c"
      "\<not> fst R - count_send ?c - count_receive ?c - count_open ?c < count_change ?c"
    using that R by (simp add: draws_def Let_def sub word_less_nat_alt)
  then have last: "state_blocks (dbs s) \<noteq> Map.empty"
    if "\<not> fst R < count_send ?c" "\<not> fst R - count_send ?c < count_receive ?c"
      "\<not> fst R - count_send ?c - count_receive ?c < count_open ?c"
      "\<not> fst R - count_send ?c - count_receive ?c - count_open ?c < count_change ?c"
    using that by (auto simp: block_count_of_def)
  have tab: "\<exists>b. block_random_in (snd R) s D = Some (Some b)"
    if "D \<in> {send_blocks (dbs s), receive_blocks (dbs s), open_blocks (dbs s), change_blocks (dbs s), state_blocks (dbs s)}"
      "D \<noteq> Map.empty" for D
    using that block_random_in_total [OF wf block_database.simps(1)] block_random_in_total [OF wf block_database.simps(2)]
      block_random_in_total [OF wf block_database.simps(3)] block_random_in_total [OF wf block_database.simps(4)]
      block_random_in_total [OF wf block_database.simps(5)] by blast
  have counts: "count_send ?c = of_nat (card (dom (send_blocks (dbs s))))"
    "count_receive ?c = of_nat (card (dom (receive_blocks (dbs s))))"
    "count_open ?c = of_nat (card (dom (open_blocks (dbs s))))"
    "count_change ?c = of_nat (card (dom (change_blocks (dbs s))))"
    by (simp_all add: block_count_of_def)
  show ?thesis
    unfolding block_random_def Let_def
    using some tab last unfolding counts by (simp split: if_split)
qed

text \<open>What only talks to peers changes neither the store nor the elections.\<close>

definition quiet :: "rai_env \<Rightarrow> node \<Rightarrow> node \<Rightarrow> bool" where
  "quiet E N N' \<longleftrightarrow> (node_inv E N \<longrightarrow> node_inv E N') \<and> same_active N N' \<and> node_store N' = node_store N"

lemma quiet_refl [simp]: "quiet E N N"
  by (simp add: quiet_def)

lemma quiet_trans: "quiet E N N' \<Longrightarrow> quiet E N' N'' \<Longrightarrow> quiet E N N''"
  using same_active_trans by (auto simp: quiet_def)

lemma quiet_emit: "quiet E N N' \<Longrightarrow> quiet E N (emit x N')"
  by (simp add: quiet_def)

lemma quiet_stat: "quiet E N N' \<Longrightarrow> quiet E N (node_stat f N')"
  by (simp add: quiet_def)

lemma quiet_peers: "(peers_inv E (n_peers N) \<Longrightarrow> peers_inv E c) \<Longrightarrow> quiet E N (N\<lparr>n_peers := c\<rparr>)"
  by (simp add: quiet_def node_inv_def)

lemma quiet_foldl: "(\<And>N x. quiet E N (f N x)) \<Longrightarrow> quiet E N (foldl f N xs)"
  by (induction xs arbitrary: N) (auto intro: quiet_trans)

lemma network_send_keepalive_quiet: "network_send_keepalive N e = Some N' \<Longrightarrow> quiet E N N'"
  by (cases "fst e") (auto simp: network_send_keepalive_def intro: quiet_emit)

lemma rep_query_quiet:
  assumes "rep_query E T R N es = Some N'"
  shows "quiet E N N'"
proof -
  let ?f = "\<lambda>b N i. send_confirm_req T (N\<lparr>n_peers := rep_request T (n_peers N) i\<rparr>) i b"
  obtain b where N': "N' = emit (Crawler_remove (block_hash E b)) (foldl (?f b) (rep_crawler_add N (block_hash E b)) es)"
    using assms by (auto simp: rep_query_def bind_Some_iff Let_def)
  have "quiet E N (rep_crawler_add N (block_hash E b))" by (simp add: quiet_def rep_crawler_add_def)
  moreover have "quiet E N (?f b N i)" for N i
    unfolding send_confirm_req_def by (intro quiet_emit quiet_stat quiet_peers rep_request_inv)
  then have "quiet E M (foldl (?f b) M es)" for M by (rule quiet_foldl)
  ultimately show ?thesis unfolding N' by (blast intro: quiet_emit quiet_trans)
qed

lemma observe_endpoint_quiet: "observe_endpoint E T R N ob = Some N' \<Longrightarrow> quiet E N N'"
  by (auto simp: observe_endpoint_def bind_Some_iff split: option.splits
    intro: quiet_trans [OF network_send_keepalive_quiet rep_query_quiet])

lemma node_contacted_quiet: "node_contacted E T R N e v = Some N' \<Longrightarrow> quiet E N N'"
  by (auto simp: node_contacted_def bind_Some_iff intro: quiet_trans [OF quiet_peers observe_endpoint_quiet] contacted_inv)

lemma node_insert_quiet: "node_insert E T R N e v = Some N' \<Longrightarrow> quiet E N N'"
  by (auto simp: node_insert_def bind_Some_iff intro: quiet_trans [OF quiet_peers observe_endpoint_quiet] peer_insert_inv)

lemma message_peer_quiet: "message_peer E T R N e v = Some N' \<Longrightarrow> quiet E N N'"
  by (auto simp: message_peer_def bind_Some_iff intro: quiet_trans [OF node_contacted_quiet node_insert_quiet])

lemma merge_peers_quiet: "merge_peers E T es N = Some N' \<Longrightarrow> quiet E N N'"
proof (induction es arbitrary: N)
  case (Cons e es)
  then obtain err c N1 where 1: "reachout E T (n_peers N) e = Some (err, c)"
      "(if \<not> err then network_send_keepalive (N\<lparr>n_peers := c\<rparr>) e else Some (N\<lparr>n_peers := c\<rparr>)) = Some N1"
      "merge_peers E T es N1 = Some N'" by (auto simp: bind_Some_iff Let_def)
  have "quiet E N (N\<lparr>n_peers := c\<rparr>)" using 1(1) by (intro quiet_peers) (rule reachout_inv)
  moreover have "quiet E (N\<lparr>n_peers := c\<rparr>) N1"
    using 1(2) by (auto split: if_splits intro: network_send_keepalive_quiet)
  ultimately show ?case using Cons.IH [OF 1(3)] by (blast intro: quiet_trans)
qed simp

lemma keepalive_v6: "network_send_keepalive N (V6 a, p) = Some (emit (Send_keepalive (V6 a, p)) N)"
  by (simp add: network_send_keepalive_def)

lemma rep_query_total:
  assumes "node_inv E N" "draws R (node_store N)"
  shows "rep_query E T R N es \<noteq> None"
proof -
  obtain C M where "dbs_wf (dbs (node_store N))" using store_invD(1) [OF node_invD(1) [OF assms(1)]] by (rule store_okE)
  then show ?thesis using block_random_total [OF _ assms(2)] by (auto simp: rep_query_def Let_def)
qed

lemma observe_endpoint_total:
  assumes "node_inv E N" "draws R (node_store N)" "\<And>e. ob = Some e \<Longrightarrow> \<exists>a. fst e = V6 a"
  shows "observe_endpoint E T R N ob \<noteq> None"
proof (cases ob)
  case (Some e)
  then obtain a p where e: "e = (V6 a, p)" using assms(3) by (cases e) auto
  show ?thesis
    using rep_query_total [of E "emit (Send_keepalive e) N" R T] assms(1,2) Some e
    by (auto simp: observe_endpoint_def keepalive_v6)
qed (simp add: observe_endpoint_def)

lemma not_a_peer_v6: "not_a_peer E c (V6 a, p) \<noteq> None"
  by (auto simp: not_a_peer_def reserved_address_def ex_bool_eq)

lemma peer_insert_observed: "peer_insert E T c e v = Some (r, c', Some x) \<Longrightarrow> \<exists>a. fst x = V6 a"
  by (cases "fst e") (auto simp: peer_insert_def not_a_peer_def bind_Some_iff split: if_splits)

lemma peer_insert_v6: "\<exists>r c' ob. peer_insert E T c (V6 a, p) v = Some (r, c', ob)"
  using not_a_peer_v6 [of E c a p] by (auto simp: peer_insert_def)

lemma node_insert_total:
  assumes "node_inv E N" "draws R (node_store N)"
  shows "node_insert E T R N (V6 a, p) v \<noteq> None"
proof -
  obtain r c ob where c: "peer_insert E T (n_peers N) (V6 a, p) (ucast v) = Some (r, c, ob)" using peer_insert_v6 by blast
  have "observe_endpoint E T R (N\<lparr>n_peers := c\<rparr>) ob \<noteq> None"
    using assms c node_inv_ledger(3) [OF assms(1) peer_insert_inv [OF node_invD(2) [OF assms(1)] c]]
    by (intro observe_endpoint_total) (auto dest: peer_insert_observed)
  then show ?thesis using c by (simp add: node_insert_def)
qed

lemma node_contacted_total:
  assumes "node_inv E N" "draws R (node_store N)"
  shows "node_contacted E T R N (V6 a, p) v \<noteq> None"
  using node_insert_total [OF assms, of T a p v]
  by (auto simp: node_contacted_def node_insert_def contacted_def bind_eq_None_conv)

lemma message_peer_total:
  assumes "node_inv E N" "draws R (node_store N)"
  shows "message_peer E T R N (V6 a, p) v \<noteq> None"
proof -
  obtain N1 where N1: "node_contacted E T R N (V6 a, p) v = Some N1" using node_contacted_total [OF assms] by blast
  then have "node_insert E T R N1 (V6 a, p) v \<noteq> None"
    using node_contacted_quiet [OF N1] assms by (intro node_insert_total) (simp_all add: quiet_def)
  then show ?thesis using N1 by (simp add: message_peer_def)
qed

lemma merge_peers_total: "(\<And>e. e \<in> set es \<Longrightarrow> \<exists>a. fst e = V6 a) \<Longrightarrow> merge_peers E T es N \<noteq> None"
proof (induction es arbitrary: N)
  case (Cons e es)
  obtain a p where e: "e = (V6 a, p)" using Cons.prems [of e] by (cases e) auto
  then have "reachout E T (n_peers N) e \<noteq> None"
    using not_a_peer_v6 [of E "n_peers N" a p] by (auto simp: reachout_def)
  then obtain r c where "reachout E T (n_peers N) e = Some (r, c)" by auto
  then show ?case using Cons e by (auto simp: keepalive_v6 Let_def)
qed simp

lemma peers_serialize_v6: "peers_serialize ps = Some bs \<Longrightarrow> e \<in> set ps \<Longrightarrow> \<exists>a. fst e = V6 a"
  by (induction ps arbitrary: bs rule: peers_serialize.induct) (auto simp: bind_Some_iff split: address.splits)

lemma keepalives_quiet:
  "foldl (\<lambda>r p. Option.bind r (\<lambda>N. network_send_keepalive N (peer_endpoint p))) (Some N) (ps :: peer_information list) = Some N' \<Longrightarrow> quiet E N N'"
proof (induction ps arbitrary: N)
  case (Cons p ps)
  have stop: "foldl (\<lambda>r p. Option.bind r (\<lambda>N. network_send_keepalive N (peer_endpoint p))) None qs = None" for qs :: "peer_information list"
    by (induction qs) simp_all
  show ?case
  proof (cases "network_send_keepalive N (peer_endpoint p)")
    case None
    then show ?thesis using Cons.prems stop by simp
  next
    case (Some N1)
    then show ?thesis using Cons network_send_keepalive_quiet [OF Some, of E] by (auto intro: quiet_trans)
  qed
qed simp

lemma ongoing_keepalive_quiet: "ongoing_keepalive T N = Some N' \<Longrightarrow> quiet E N N'"
  using quiet_trans [OF quiet_peers keepalives_quiet, of E N "fst (snd (purge_list T (n_peers N) (steady_now T - node_cutoff)))"]
    purge_list_inv
  by (auto simp: ongoing_keepalive_def split: prod.splits)

section \<open>Datagrams\<close>

lemma process_active_total:
  assumes "node_inv E N" "worked E b"
  obtains N' where "process_active E T N b = Some N'" "node_inv E N'" "same_active N N'" "node_store N' = node_store N"
proof (cases "block_hash E b \<in> snd ` set (n_arrival N)")
  case True
  then show thesis using assms by (intro that [of N]) (simp_all add: process_active_def block_arrival_add_def)
next
  case False
  let ?N = "N\<lparr>n_arrival := insert_by fst (steady_now T, block_hash E b) (n_arrival N)\<rparr>"
  have add: "bp_add E ?N b = Some (?N\<lparr>n_blocks := b # n_blocks ?N\<rparr>)" using assms(2) by (simp add: bp_add_iff)
  have "process_active E T N b = Some (?N\<lparr>n_blocks := b # n_blocks ?N\<rparr>)"
    using False add by (simp add: process_active_def block_arrival_add_def)
  then show thesis by (rule that) (use assms bp_add_inv [OF _ add] in simp_all)
qed

lemma network_visit_cases:
  assumes N: "node_inv E N" and m: "message_serialize E m = Some bs" "datagram m" "good_work E m"
  obtains (returns) N' where "network_visit E T R N i m = Some N'" "node_inv E N'" "keeps_elections N N'"
  | (aborts) "network_visit E T R N i m = None" "(\<nexists>a. fst i = V6 a) \<or> \<not> draws R (node_store N)"
proof -
  have q: "quiet E N (count_message T d N)" for d by (simp add: count_message_def quiet_stat)
  have inv: "node_inv E (count_message T d N)" "node_store (count_message T d N) = node_store N" for d
    using q [of d] N by (simp_all add: quiet_def)
  have total: "message_peer E T R (count_message T d N) i v \<noteq> None" "node_contacted E T R (count_message T d N) i v \<noteq> None"
    if "\<exists>a. fst i = V6 a" "draws R (node_store N)" for d v
    using that message_peer_total [OF inv(1) [of d], of R T _ "snd i" v] node_contacted_total [OF inv(1) [of d], of R T _ "snd i" v] inv(2)
    by (cases i; force)+
  have frame: "node_inv E N1" "keeps_elections N N1" if "quiet E (count_message T d N) N1" for d N1
    using quiet_trans [OF q that] N by (simp_all add: quiet_def keeps_elections_same)
  have block: thesis
    if body: "network_visit E T R N i m = Option.bind (message_peer E T R (count_message T d N) i v)
        (\<lambda>N. Option.bind (process_active E T N b) f)"
      and b: "worked E b"
      and f: "\<And>N2 x. node_inv E N2 \<Longrightarrow> (\<And>N'. f N2 = Some N' \<Longrightarrow> node_inv E N' \<Longrightarrow> keeps_elections N2 N' \<Longrightarrow> x) \<Longrightarrow> x"
    for d v b f
  proof (cases "message_peer E T R (count_message T d N) i v")
    case None
    then show thesis using total(1) [of d v] body by (intro aborts) auto
  next
    case (Some N1)
    note N1 = frame [OF message_peer_quiet [OF Some]]
    obtain N2 where N2: "process_active E T N1 b = Some N2" "node_inv E N2" "same_active N1 N2"
      by (rule process_active_total [OF N1(1) b, of T])
    obtain N3 where N3: "f N2 = Some N3" "node_inv E N3" "keeps_elections N2 N3" by (rule f [OF N2(2)])
    have "keeps_elections N N3"
      using keeps_elections_trans [OF keeps_elections_trans [OF N1(2) keeps_elections_same [OF N2(3)]] N3(3)] .
    then show thesis using body Some N2(1) N3 by (intro returns [of N3]) simp_all
  qed
  show thesis
  proof (cases m)
    case (Keepalive h ps)
    show thesis
    proof (cases "node_contacted E T R (count_message T Sd_keepalive N) i (version_using h)")
      case None
      then show thesis using total(2) [of Sd_keepalive "version_using h"] Keepalive by (intro aborts) auto
    next
      case (Some N1)
      obtain pbs where "peers_serialize ps = Some pbs" using m(1) Keepalive by (auto simp: bind_Some_iff)
      then obtain N2 where N2: "merge_peers E T ps N1 = Some N2" using merge_peers_total [of ps E T N1] peers_serialize_v6 by auto
      then show thesis
        using Some Keepalive frame [OF quiet_trans [OF node_contacted_quiet [OF Some] merge_peers_quiet [OF N2]]]
        by (intro returns [of N2]) simp_all
    qed
  next
    case (Publish h b)
    show thesis
      by (rule block [of Sd_publish "version_using h" b Some])
        (use Publish m(3) keeps_elections_same [OF same_active_refl] in auto)
  next
    case (Confirm_req h b)
    let ?f = "\<lambda>N. Option.bind (ledger_successor (node_store N) (root b)) (\<lambda>r. case r of
        Some successor \<Rightarrow> map_option snd (confirm_block E N (\<lambda>v. Confirm_send v i) successor) | None \<Rightarrow> Some N)"
    show thesis
    proof (rule block [of Sd_confirm_req "version_using h" b ?f])
      fix N2 and x :: bool
      assume N2: "node_inv E N2" and x: "\<And>N'. ?f N2 = Some N' \<Longrightarrow> node_inv E N' \<Longrightarrow> keeps_elections N2 N' \<Longrightarrow> x"
      obtain r where r: "ledger_successor (node_store N2) (root b) = Some r"
        by (rule ledger_successor_total [OF store_invD(1) [OF node_invD(1) [OF N2]], of "root b"])
      show x
      proof (cases r)
        case None
        then show x using x [of N2] r N2 keeps_elections_same by simp
      next
        case (Some d)
        obtain ok N3 where "confirm_block E N2 (\<lambda>v. Confirm_send v i) d = Some (ok, N3)" "node_inv E N3" "same_active N2 N3"
          by (rule confirm_block_total [OF N2])
        then show x using x [of N3] r Some keeps_elections_same by simp
      qed
    qed (use Confirm_req m(3) in simp_all)
  next
    case (Confirm_ack h v)
    show thesis
    proof (rule block [of Sd_confirm_ack "version_using h" "vote_block v" "\<lambda>N. map_option snd (vote_processor_vote E T N v i)"])
      fix N2 and x :: bool
      assume N2: "node_inv E N2"
        and x: "\<And>N'. map_option snd (vote_processor_vote E T N2 v i) = Some N' \<Longrightarrow> node_inv E N' \<Longrightarrow> keeps_elections N2 N' \<Longrightarrow> x"
      have "worked E (vote_block v)" using Confirm_ack m(3) by simp
      then obtain r N3 where "vote_processor_vote E T N2 v i = Some (r, N3)" "node_inv E N3" "elections_advance N2 N3"
        by (rule vote_processor_vote_total [OF N2, of v T i])
      then show x using x [of N3] keeps_elections_advance by simp
    qed (use Confirm_ack m(3) in simp_all)
  qed (use m(2) in simp_all)
qed

lemma receive_action_cases:
  assumes N: "node_inv E N"
  obtains (returns) N' where "receive_action E T R N i bs = Some N'" "node_inv E N'" "keeps_elections N N'"
  | (aborts) "receive_action E T R N i bs = None"
      "(\<nexists>a. fst i = V6 a) \<or> \<not> draws R (node_store N) \<or> deserialize_buffer E bs = None"
proof (cases "reserved_address E i")
  case None
  then have "\<nexists>a. fst i = V6 a" by (auto simp: reserved_address_def)
  then show thesis using None by (intro aborts) (simp_all add: receive_action_def)
next
  case (Some reserved)
  have stat: "node_inv E (node_stat f M)" "keeps_elections N (node_stat f M)"
    if "node_inv E M" "keeps_elections N M" for f M
    using that keeps_elections_trans [OF that(2) keeps_elections_same] by simp_all
  have refl: "keeps_elections N N" by (rule keeps_elections_same) simp
  show thesis
  proof (cases "\<not> reserved \<and> i \<noteq> peer_self (n_peers N)")
    case False
    have "receive_action E T R N i bs = Some (node_stat (\<lambda>st. inc_detail_only T st St_error Sd_bad_sender) N)"
      using Some False by (auto simp: receive_action_def)
    then show thesis by (rule returns) (rule stat [OF N refl])+
  next
    case True
    show thesis
    proof (cases "deserialize_buffer E bs")
      case None
      then show thesis using Some True by (intro aborts) (simp_all add: receive_action_def)
    next
      case dsr: (Some p)
      obtain status r where p: "p = (status, r)" by fastforce
      let ?M = "case r of Some m \<Rightarrow> network_visit E T R N i m | None \<Rightarrow> Some N"
      have eq: "receive_action E T R N i bs = map_option (\<lambda>N. if status \<noteq> Parse_success then
           (let N = node_stat (\<lambda>st. stat_add T st St_error Sd_all Sdir_in 1 False) N in
            if status = Insufficient_work
            then node_stat (\<lambda>st. inc_detail_only T st St_error Sd_insufficient_work) N else N)
         else node_stat (\<lambda>st. stat_add T st St_traffic Sd_all Sdir_in (of_nat (length bs)) False) N) ?M"
        using Some True dsr p by (cases ?M) (simp_all add: receive_action_def)
      have go: thesis if M: "?M = Some M" "node_inv E M" "keeps_elections N M" for M
        by (rule returns [OF eq [unfolded M(1) option.map(2)]]) (simp_all add: Let_def stat M(2,3))
      show thesis
      proof (cases r)
        case None
        then show thesis using go [of N] N refl by simp
      next
        case (Some m)
        then have m: "message_serialize E m = Some bs" "datagram m" "good_work E m"
          using dsr p by (simp_all add: deserialize_buffer_accepts)
        show thesis
          by (rule network_visit_cases [OF N m, of T R i]) (use go aborts eq Some in auto)
      qed
    qed
  qed
qed

section \<open>Runs of the node\<close>

lemma genesis_store_inv:
  assumes "env_ok E" "worked E (Open (genesis_open E))" "genesis_initialize E T empty_store = Some s"
  shows "store_inv E s"
proof -
  have g: "genesis_hash E \<notin> {0, 1, genesis_account E}" using assms(1) by (simp add: env_ok_def)
  obtain s' where "genesis_initialize E T empty_store = Some s'" "store_ok E s'" by (rule genesis_store_ok [OF g])
  then have ok: "store_ok E s" using assms(3) by simp
  obtain t where "genesis_initialize E T empty_store = Some t" "view_of t = \<lparr>vB = [genesis_hash E \<mapsto> Open (genesis_open E)],
       vS = [genesis_hash E \<mapsto> 0],
       vA = [genesis_account E \<mapsto> \<lparr>head = genesis_hash E, rep_block = genesis_hash E, open_block = genesis_hash E,
         balance = - 1, modified = seconds_since_epoch T, block_count = 1\<rparr>],
       vP = Map.empty, vF = [genesis_hash E \<mapsto> genesis_account E], vR = (\<lambda>_. 0)(genesis_account E := - 1),
       vI = Map.empty, vK = Some (genesis_hash E)\<rparr>"
    by (rule genesis_initialize_view [of E T]) (use g in simp_all)
  then have B: "blk (dbs s) = [genesis_hash E \<mapsto> Open (genesis_open E)]" using assms(3) by (metis option.inject view.select_convs(1) view_of_sel(1))
  have "side_tables s = side_tables empty_store"
    using assms(3) by (auto simp: genesis_initialize_def cursor_first_def bind_Some_iff Let_def dest!: side_dest)
  then have "unchecked_cache s = []" "unchecked_table s = (\<lambda>_. [])" "vote_table s = Map.empty"
    by (simp_all add: side_tables_def empty_store_def)
  then show ?thesis using ok B assms(2) by (simp add: store_inv_def)
qed

lemma new_node_inv: "store_inv E (store L) \<Longrightarrow> node_inv E (new_node L cfg self_a reps na now)"
  by (simp add: new_node_def node_inv_def active_inv_def peers_inv_def new_peer_container_def)

lemma announce_step:
  assumes "node_inv E N" "announce_votes T N = Some N'"
  shows "node_inv E N'" "n_elections N' = n_elections N" "n_roots N' = map announced (filter (\<lambda>i. \<not> ended N i) (n_roots N))"
  using assms announce_votes_total [OF assms(1), of T] by (metis option.inject)+

lemma node_step_inv:
  assumes "node_step E N a N'" "sane_env E" "node_inv E N"
  shows "node_inv E N' \<and> (\<not> a \<longrightarrow> keeps_elections N N')"
  using assms
proof (cases rule: node_step.cases)
  case (receive T R remote buffer)
  show ?thesis by (rule receive_action_cases [OF assms(3), of T R remote buffer]) (use receive in simp_all)
next
  case (add_block b)
  then show ?thesis using bp_add_inv [OF assms(3)] keeps_elections_same by (auto simp: bp_add_iff)
next
  case (process_block T)
  show ?thesis by (rule process_next_cases [OF assms(2,3) process_block(2), of T]) (use process_block in simp_all)
next
  case (announce T)
  then show ?thesis using announce_step(1) [OF assms(3)] by simp
next
  case (broadcast k T)
  obtain M where "broadcast_winner E T N k = Some M" "node_inv E M" "elections_advance N M"
    by (rule broadcast_winner_total [OF assms(3) broadcast(2)])
  then show ?thesis using broadcast keeps_elections_advance by simp
next
  case (keepalive T)
  then show ?thesis using ongoing_keepalive_quiet [of T N N' E] assms(3) by (simp add: quiet_def keeps_elections_same)
next
  case (crawl T R)
  then show ?thesis
    using rep_query_quiet [of E T R N _ N'] assms(3) by (simp add: ongoing_rep_crawl_def quiet_def keeps_elections_same)
next
  case (crawled h)
  then show ?thesis using assms(3) by (simp add: rep_crawler_remove_def keeps_elections_same)
next
  case recalculate
  then show ?thesis using recalculate_stake_inv(1) [OF assms(3)] recalculate_stake_inv(2) [of N] by (simp add: keeps_elections_same)
next
  case store_flush
  then show ?thesis
    using assms(3) flush_inv [OF node_invD(1) [OF assms(3)]]
    by (simp add: ongoing_store_flush_def node_inv_ledger keeps_elections_same)
next
  case (erase_election b)
  then show ?thesis using active_erase_inv [OF assms(3)] active_erase_keeps by simp
qed

interpretation node_runs: step_invariant "\<lambda>N N'. \<exists>a. node_step E N a N'" "\<lambda>N. sane_env E \<and> node_inv E N" for E
  by unfold_locales (use node_step_inv in blast)

lemma node_run_steps: "node_run E N k N' \<Longrightarrow> (\<lambda>N N'. \<exists>a. node_step E N a N')\<^sup>*\<^sup>* N N'"
  by (induction rule: node_run.induct) (auto intro: rtranclp.rtrancl_into_rtrancl)

lemma node_run_inv: "node_run E N k N' \<Longrightarrow> sane_env E \<Longrightarrow> node_inv E N \<Longrightarrow> node_inv E N'"
  using node_runs.run_kept [OF node_run_steps] by blast

text \<open>
  A confirmed election stays confirmed, and each round of announcements it is still among the roots
  has been counted; from the fourth on it is gone.
\<close>

lemma confirmed_election_rounds:
  assumes "node_run E N k N'" "sane_env E" "node_inv E N" "x < length (n_elections N)" "e_confirmed (get_election N x)"
  shows "x < length (n_elections N') \<and> e_confirmed (get_election N' x)
    \<and> (\<forall>c \<in> set (n_roots N'). c_election c = x \<longrightarrow> k < 4 \<and> k \<le> unat (c_announcements c))"
  using assms
proof (induction rule: node_run.induct)
  case (run_nil N)
  then show ?case by simp
next
  case (run_step N k N1 a N2)
  note IH = run_step.IH [OF run_step.prems]
  have N1: "node_inv E N1" by (rule node_run_inv [OF run_step.hyps(1) run_step.prems(1,2)])
  show ?case
  proof (cases a)
    case False
    then have "keeps_elections N1 N2" using node_step_inv [OF run_step.hyps(2) run_step.prems(1) N1] by simp
    then show ?thesis using IH False by (auto simp: keeps_elections_def)
  next
    case True
    then obtain T where "announce_votes T N1 = Some N2" using run_step.hyps(2) by (auto elim: node_step.cases)
    note A = announce_step [OF N1 this]
    have "Suc k < 4 \<and> Suc k \<le> unat (c_announcements c + 1)"
      if c: "c \<in> set (n_roots N1)" "\<not> ended N1 c" "c_election c = x" for c
    proof -
      have "c_announcements c < 3" using c IH by (auto simp: ended_def announcement_min_def Let_def not_le)
      then have "unat (c_announcements c) < 3" "unat (c_announcements c + 1) = unat (c_announcements c) + 1"
        by (auto simp: word_less_nat_alt unat_plus_if_size word_size)
      then show ?thesis using c IH by auto
    qed
    then show ?thesis using IH True A(2,3) by (auto simp: get_election_def)
  qed
qed

end
