(* ===== verification/Rai_Elections.thy ===== *)
theory Rai_Elections
  imports Rai_Node_Runs
begin

text \<open>
  What a confirmation in an election means: the weights of the representatives, the margin a
  confirmed block has, and the sum of the weights that were online.
\<close>

section \<open>Weights\<close>

text \<open>Past the bootstrap weights, the weights of distinct representatives sum to at most the supply.\<close>

definition real_weights :: "ledger \<Rightarrow> bool" where
  "real_weights L \<longleftrightarrow> \<not> check_bootstrap_weights L"

lemma real_weight: "real_weights L \<Longrightarrow> weight L r = (representation_get (store L) r, L)"
  by (simp add: real_weights_def weight_def)

lemma weights_below_supply:
  assumes ok: "store_ok E s" and R: "finite R"
  shows "(\<Sum>r \<in> R. unat (representation_get s r)) < 2 ^ 128"
proof -
  obtain C N where inv: "ledger_inv E (view_of s) C N" using ok by (rule store_okE)
  let ?V = "view_of s"
  let ?d = "\<lambda>r i. if rep_account (vB ?V) (rep_block i) = r then balance i else (0 :: u128)"
  have fin: "finite (dom (vA ?V))" using ledger_invD(12) [OF inv] by (simp add: finite_ok_def)
  have all: "msum (\<lambda>i. unat (balance i)) (vA ?V) < 2 ^ 128"
    using ledger_invD(10) [OF inv] by (simp add: supply_ok_def total_supply_def)
  have "msum (\<lambda>i. unat (?d r i)) (vA ?V) \<le> msum (\<lambda>i. unat (balance i)) (vA ?V)" for r
    unfolding msum_def by (rule sum_mono) simp
  then have small: "msum (\<lambda>i. unat (?d r i)) (vA ?V) < 2 ^ 128" for r using all le_less_trans by blast
  have "unat (representation_get s r) = msum (\<lambda>i. unat (?d r i)) (vA ?V)" for r
  proof -
    have "representation_get s r = msum (?d r) (vA ?V)"
      using ledger_invD(9) [OF inv] by (simp add: weights_ok_def delegated_def)
    then show ?thesis using unat_msum [OF fin, of "?d r"] small by simp
  qed
  then have "(\<Sum>r \<in> R. unat (representation_get s r)) = (\<Sum>r \<in> R. msum (\<lambda>i. unat (?d r i)) (vA ?V))" by simp
  also have "\<dots> = msum (\<lambda>i. \<Sum>r \<in> R. unat (?d r i)) (vA ?V)" unfolding msum_def by (rule sum.swap)
  also have "\<dots> \<le> msum (\<lambda>i. unat (balance i)) (vA ?V)"
  proof -
    have "(\<Sum>r \<in> R. unat (?d r i)) \<le> unat (balance i)" for i
    proof -
      have "(\<Sum>r \<in> R. unat (?d r i)) = (\<Sum>r \<in> R. if rep_account (vB ?V) (rep_block i) = r then unat (balance i) else 0)"
        by (intro sum.cong) simp_all
      then show ?thesis using R by (simp add: sum.delta')
    qed
    then show ?thesis unfolding msum_def by (intro sum_mono)
  qed
  finally show ?thesis using all by simp
qed

text \<open>So the weights that two blocks of an election drew do not exceed the supply together.\<close>

definition drawn :: "ledger \<Rightarrow> votes \<Rightarrow> block \<Rightarrow> nat" where
  "drawn L vs b = (\<Sum>r \<in> {r. (r, b) \<in> set (rep_votes vs)}. unat (representation_get (store L) r))"

lemma voters_finite: "finite {r. (r, b) \<in> set vs}"
  by (rule finite_subset [of _ "fst ` set vs"]) (auto simp: image_iff, force)

lemma voted_weight_drawn:
  assumes ok: "store_ok E (store L)" and L: "real_weights L" and d: "distinct (map fst (rep_votes vs))"
  shows "unat (voted_weight L (rep_votes vs) b) = drawn L vs b"
proof -
  let ?w = "representation_get (store L)"
  have "voted_weight L xs b = (\<Sum>r \<in> {r. (r, b) \<in> set xs}. ?w r)" if "distinct (map fst xs)" for xs
    using that
  proof (induction xs)
    case (Cons x xs)
    obtain r c where x: "x = (r, c)" by (cases x)
    have "r \<notin> {r. (r, b) \<in> set xs}" using Cons.prems x by force
    moreover have "{r'. (r', b) \<in> set (x # xs)} = (if c = b then insert r {r. (r, b) \<in> set xs} else {r. (r, b) \<in> set xs})"
      using x by auto
    ultimately show ?case using Cons x voters_finite [of b xs] by (simp add: voted_weight_def real_weight [OF L])
  qed (simp add: voted_weight_def)
  then show ?thesis
    using d weights_below_supply [OF ok voters_finite [of b "rep_votes vs"]] unat_sum_words [of "{r. (r, b) \<in> set (rep_votes vs)}" ?w, OF voters_finite]
    by (simp add: drawn_def)
qed

lemma drawn_pair:
  assumes ok: "store_ok E (store L)" and d: "distinct (map fst (rep_votes vs))" and "b \<noteq> c"
  shows "drawn L vs b + drawn L vs c < 2 ^ 128"
proof -
  let ?B = "\<lambda>b. {r. (r, b) \<in> set (rep_votes vs)}"
  have "?B b \<inter> ?B c = {}" using d assms(3) by (auto dest: eq_key_imp_eq_value)
  then have "drawn L vs b + drawn L vs c = (\<Sum>r \<in> ?B b \<union> ?B c. unat (representation_get (store L) r))"
    unfolding drawn_def by (intro sum.union_disjoint [symmetric] voters_finite)
  then show ?thesis using weights_below_supply [OF ok, of "?B b \<union> ?B c"] voters_finite by simp
qed

section \<open>The margin of a confirmation\<close>

lemma delta_half:
  assumes "online_weight_quorum (n_config N) \<le> 50"
  shows "unat (delta N) \<le> 2 ^ 127"
proof -
  let ?a = "online_stake N div 100" and ?q = "online_weight_quorum (n_config N)"
  have "unat (online_stake N) < 2 ^ LENGTH(128)" by (rule unsigned_less)
  then have a: "unat ?a \<le> (2 ^ 128 - 1) div 100" by (simp add: unat_div div_le_mono)
  have q: "unat (ucast ?q :: u128) \<le> 50"
    using assms by (simp add: word_le_nat_alt unsigned_ucast_eq take_bit_nat_eq_self)
  have "unat ?a * unat (ucast ?q :: u128) \<le> (2 ^ 128 - 1) div 100 * 50" by (rule mult_le_mono [OF a q])
  then show ?thesis by (simp add: delta_def unat_word_ariths)
qed

lemma delta_frame [simp]: "delta (N\<lparr>n_ledger := L\<rparr>) = delta N" "delta (bp_force N b) = delta N"
  by (simp_all add: delta_def online_stake_def bp_force_def)

lemma switch_winner_sel:
  assumes "switch_winner N e t = (N1, e1)"
  shows "delta N1 = delta N" "e_tally e1 = fst (hd t)" "e_confirmed e1 = e_confirmed e" "e_votes e1 = e_votes e"
    "online_weight_minimum (n_config N) \<le> (\<Sum>i \<leftarrow> t. fst i) \<Longrightarrow> e_winner e1 = snd (hd t)"
  using assms by (auto simp: switch_winner_def block_equal_iff split: if_splits)

lemma quorum_margin:
  assumes ok: "store_ok E (store L)" and L: "real_weights L" and d: "distinct (map fst (rep_votes vs))"
    and t: "tally L vs = (t, L')" and q: "have_quorum N t" "unat (delta N) \<le> 2 ^ 127" and ne: "t \<noteq> []"
    and c: "c \<in> candidates vs"
  shows "drawn L vs c = unat (fst (hd t)) \<or> drawn L vs c + unat (delta N) < unat (fst (hd t))"
proof (cases "drawn L vs c = unat (fst (hd t))")
  case True
  then show ?thesis ..
next
  case other: False
  note w = voted_weight_drawn [OF ok L d]
  obtain x b rest where tx: "t = (x, b) # rest" using ne by (cases t) auto
  note T = tally_correct [OF t]
  have "voted_weight L (rep_votes vs) c \<in> fst ` set t" using T(2) c by (simp add: candidates_def)
  then have "voted_weight L (rep_votes vs) c \<in> fst ` set rest" using other w [of c] tx by auto
  then obtain y e rest' where rest: "rest = (y, e) # rest'" by (cases rest) auto
  have le: "voted_weight L (rep_votes vs) c \<le> y"
    using T(1) \<open>voted_weight L (rep_votes vs) c \<in> fst ` set rest\<close> tx rest by (auto intro: less_imp_le)
  have yx: "y < x" using T(1) tx rest by simp
  have xy: "x = voted_weight L (rep_votes vs) b" "y = voted_weight L (rep_votes vs) e"
    using T(3) [of x b] T(3) [of y e] tx rest by simp_all
  then have "b \<noteq> e" using yx by auto
  then have "unat x + unat y < 2 ^ 128" using drawn_pair [OF ok d, of b e] w xy by simp
  then have "unat y + unat (delta N) < 2 ^ 128" using q(2) yx by (simp add: word_less_nat_alt)
  then have "unat (y + delta N) = unat y + unat (delta N)" by (simp add: unat_word_ariths)
  moreover have "y + delta N < x" using q(1) tx rest by (simp add: have_quorum_def)
  moreover have "drawn L vs c \<le> unat y" using le w [of c] by (simp add: word_le_nat_alt)
  ultimately show ?thesis using tx by (simp add: word_less_nat_alt)
qed

lemma confirmation:
  assumes N: "node_inv E N" "real_weights (n_ledger N)" "online_weight_quorum (n_config N) \<le> 50"
    and e: "election_inv E e" "\<not> e_confirmed e" and c: "confirm_if_quorum N e = Some (N', e')" "e_confirmed e'"
  shows "\<exists>b \<in> candidates (e_votes e). drawn (n_ledger N) (e_votes e) b = unat (e_tally e')
      \<and> (online_weight_minimum (n_config N) \<le> (\<Sum>i \<leftarrow> fst (tally (n_ledger N) (e_votes e)). fst i) \<longrightarrow> e_winner e' = b)"
    and "x \<in> candidates (e_votes e) \<Longrightarrow> drawn (n_ledger N) (e_votes e) x = unat (e_tally e')
      \<or> drawn (n_ledger N) (e_votes e) x + unat (delta N) < unat (e_tally e')"
proof -
  have ok: "store_ok E (node_store N)" by (rule store_invD(1) [OF node_invD(1) [OF N(1)]])
  have ne: "candidates (e_votes e) \<noteq> {}" and d: "distinct (map fst (rep_votes (e_votes e)))"
    using e(1) by (simp_all add: election_inv_def)
  obtain t L where t: "tally (n_ledger N) (e_votes e) = (t, L)" by fastforce
  obtain N1 e1 where sw: "switch_winner (N\<lparr>n_ledger := L\<rparr>) e t = (N1, e1)" by fastforce
  note S = switch_winner_sel [OF sw]
  have q: "have_quorum N1 t" and e': "e' = snd (confirm_once N1 e1)"
    using c confirm_if_quorum_eq [OF t ne sw] S(3) e(2) by (auto split: if_splits)
  have tne: "t \<noteq> []" by (rule tally_nonempty [OF t ne])
  then obtain w b r where tc: "t = (w, b) # r" by (cases t) auto
  have b: "b \<in> candidates (e_votes e)" "w = voted_weight (n_ledger N) (rep_votes (e_votes e)) b"
    using tally_correct(3) [OF t, of w b] tc by (simp_all add: candidates_def)
  have "drawn (n_ledger N) (e_votes e) b = unat w" using voted_weight_drawn [OF ok N(2) d] b(2) by simp
  then show "\<exists>b \<in> candidates (e_votes e). drawn (n_ledger N) (e_votes e) b = unat (e_tally e')
      \<and> (online_weight_minimum (n_config N) \<le> (\<Sum>i \<leftarrow> fst (tally (n_ledger N) (e_votes e)). fst i) \<longrightarrow> e_winner e' = b)"
    using b(1) S(2,5) t tc e' by auto
  have "unat (delta N1) \<le> 2 ^ 127" using delta_half [OF N(3)] S(1) by simp
  from quorum_margin [OF ok N(2) d t q this tne, of x]
  show "x \<in> candidates (e_votes e) \<Longrightarrow> drawn (n_ledger N) (e_votes e) x = unat (e_tally e')
      \<or> drawn (n_ledger N) (e_votes e) x + unat (delta N) < unat (e_tally e')"
    using S(1,2) e' by simp
qed

section \<open>The stake that is online\<close>

lemma sum_stake_real:
  "real_weights L \<Longrightarrow> sum_stake L reps x = (x + (\<Sum>r \<leftarrow> map snd reps. representation_get (store L) r), L)"
  by (induction reps arbitrary: x) (simp_all add: real_weight)

lemma recalculated_stake:
  assumes N: "node_inv E N" "real_weights (n_ledger N)"
  shows "unat (n_stake (recalculate_stake N)) = (\<Sum>r \<in> set (online_reps_list N). unat (representation_get (node_store N) r))"
proof -
  have d: "distinct (map snd (n_reps N))" using N(1) by (simp add: node_inv_def)
  have "n_stake (recalculate_stake N) = (\<Sum>r \<in> snd ` set (n_reps N). representation_get (node_store N) r)"
    using sum_list_distinct_conv_sum_set [OF d, of "representation_get (node_store N)"]
    by (simp add: recalculate_stake_def sum_stake_real [OF N(2)])
  then show ?thesis
    using weights_below_supply [OF store_invD(1) [OF node_invD(1) [OF N(1)]], of "snd ` set (n_reps N)"]
      unat_sum_words [of "snd ` set (n_reps N)" "representation_get (node_store N)"]
    by (simp add: online_reps_list_def)
qed

section \<open>Votes replace older votes only\<close>

lemma confirm_if_quorum_votes:
  assumes "confirm_if_quorum N e = Some (N', e')"
  shows "e_votes e' = e_votes e" "e_last_votes e' = e_last_votes e"
  using assms by (auto simp: confirm_if_quorum_def confirm_once_def bind_Some_iff Let_def split: if_splits prod.splits)

lemma election_vote_accepts:
  assumes r: "election_vote E T N e v = Some (replay, N', e')"
    and ch: "e_last_votes e' \<noteq> e_last_votes e \<or> e_votes e' \<noteq> e_votes e \<or> e_confirmed e' \<noteq> e_confirmed e"
  shows "e_last_votes e' = (e_last_votes e)(vote_account v \<mapsto>
        \<lparr>vi_time = steady_now T, vi_sequence = vote_sequence v, vi_hash = block_hash E (vote_block v)\<rparr>)"
    "e_votes e' = snd (votes_vote (e_votes e) v)" "\<not> replay" "\<not> vote_validate E v"
    "rai_network E = Rai_test_network \<or> online_stake N div 1000 < fst (weight (n_ledger N) (vote_account v))"
    "e_last_votes e (vote_account v) = Some i \<Longrightarrow> vote_info_less E i v \<and> vi_time i + seconds 1 \<le> steady_now T"
proof -
  let ?a = "vote_account v"
  obtain w N1 where w: "node_weight N ?a = (w, N1)" by fastforce
  have ww: "fst (weight (n_ledger N) ?a) = w" using w by (auto simp: node_weight_def split: prod.splits)
  let ?go = "case e_last_votes e ?a of None \<Rightarrow> True | Some i \<Rightarrow> vote_info_less E i v
      \<and> vi_time i + seconds (vote_cooldown w (online_stake N)) \<le> steady_now T"
  let ?e = "e\<lparr>e_last_votes := (e_last_votes e)(?a \<mapsto>
        \<lparr>vi_time = steady_now T, vi_sequence = vote_sequence v, vi_hash = block_hash E (vote_block v)\<rparr>),
      e_votes := snd (votes_vote (e_votes e) v)\<rparr>"
  have "\<not> vote_validate E v \<and> (rai_network E = Rai_test_network \<or> online_stake N div 1000 < w) \<and> ?go \<and> \<not> replay
      \<and> confirm_if_quorum (emit (Confirm_fanout v) N1) ?e = Some (N', e')"
    using r w ch by (auto simp: election_vote_def bind_Some_iff Let_def split: if_splits option.splits)
  note go = this [THEN conjunct1] this [THEN conjunct2, THEN conjunct1] this [THEN conjunct2, THEN conjunct2, THEN conjunct1]
    this [THEN conjunct2, THEN conjunct2, THEN conjunct2, THEN conjunct1]
    this [THEN conjunct2, THEN conjunct2, THEN conjunct2, THEN conjunct2]
  show "e_last_votes e' = (e_last_votes e)(?a \<mapsto>
        \<lparr>vi_time = steady_now T, vi_sequence = vote_sequence v, vi_hash = block_hash E (vote_block v)\<rparr>)"
    "e_votes e' = snd (votes_vote (e_votes e) v)" using confirm_if_quorum_votes [OF go(5)] by simp_all
  show "\<not> vote_validate E v" "\<not> replay" by (rule go)+
  show "rai_network E = Rai_test_network \<or> online_stake N div 1000 < fst (weight (n_ledger N) ?a)"
    using go(2) ww by simp
  have "seconds 1 \<le> seconds (vote_cooldown w (online_stake N))" by (simp add: seconds_def vote_cooldown_def)
  then show "e_last_votes e ?a = Some i \<Longrightarrow> vote_info_less E i v \<and> vi_time i + seconds 1 \<le> steady_now T"
    using go(3) by simp
qed

section \<open>Confirmations that no majority asked for\<close>

text \<open>
  Below the least online weight the leading block does not replace the winner, but the quorum is
  still that of the leading block: the winner is confirmed without a vote.
\<close>

lemma tally_single: "rep_votes vs = [(r, b)] \<Longrightarrow> tally L vs = ([(fst (weight L r), b)], snd (weight L r))"
  by (simp add: tally_def split: prod.splits)

lemma voteless_winner_confirmed:
  assumes "rep_votes (e_votes e) = [(r, b)]" "\<not> e_confirmed e"
    and "fst (weight (n_ledger N) r) < online_weight_minimum (n_config N)" "delta N < fst (weight (n_ledger N) r)"
  shows "\<exists>N' e'. confirm_if_quorum N e = Some (N', e') \<and> e_confirmed e' \<and> e_winner e' = e_winner e"
  using assms tally_single [OF assms(1), of "n_ledger N"]
  by (auto simp: confirm_if_quorum_def have_quorum_def confirm_once_def Let_def)

text \<open>Two blocks with the same total share one entry of the tally, so a tie is no obstacle.\<close>

lemma tied_block_confirmed:
  assumes "rep_votes (e_votes e) = [(r, b), (r', b')]" "b \<noteq> b'" "\<not> e_confirmed e"
    and "fst (weight (n_ledger N) r) = w" "fst (weight (n_ledger N) r') = w" "delta N < w"
  shows "\<exists>N' e'. confirm_if_quorum N e = Some (N', e') \<and> e_confirmed e'"
proof -
  obtain L where 1: "weight (n_ledger N) r = (w, L)" using assms(4) by (cases "weight (n_ledger N) r") simp
  obtain L' where 2: "weight L r' = (w, L')"
    using weight_stable [of "n_ledger N" r r'] 1 assms(5) by (cases "weight L r'") simp
  have "tally (n_ledger N) (e_votes e) = ([(w, b')], L') \<or> tally (n_ledger N) (e_votes e) = ([(w, b)], L')"
    using assms(1,2) 1 2 by (simp add: tally_def block_equal_iff)
  then show ?thesis
    using assms(3,6) by (elim disjE) (auto simp: confirm_if_quorum_def have_quorum_def confirm_once_def Let_def)
qed

end
