(* ===== verification/Rai_Sample.thy ===== *)
theory Rai_Sample
  imports Rai_Account_Text Rai_Elections
begin

text \<open>
  A concrete environment in which every block satisfies the hypothesis on hashes, and a run of the
  ledger in it: the properties of reachable ledgers are not vacuous.
\<close>

section \<open>An environment\<close>

text \<open>
  A digest that keeps the length and the first bytes of the message, and a signature check that
  accepts everything: enough to run the ledger on concrete blocks.
\<close>

definition sample_digest :: "nat \<Rightarrow> byte list \<Rightarrow> byte list" where
  "sample_digest n m = take n (1 # of_nat (length m) # m @ replicate n 0)"

definition sample_env :: rai_env where
  "sample_env = \<lparr>blake2b = sample_digest, ed25519_sign_open = (\<lambda>_ _ _. 0), ed25519_sign = (\<lambda>_ _ _. replicate 64 0),
     rai_network = Rai_live_network\<rparr>"

lemma sample_genesis_account [simp]: "genesis_account sample_env = rai_live_account"
  by (simp add: genesis_account_def sample_env_def)

lemma sample_hash_bytes:
  "uint256_bytes (block_hash sample_env b) =
     1 # of_nat (length (hash_input b)) # take 30 (hash_input b @ replicate 32 0)"
proof -
  have "length (sample_digest 32 (hash_input b)) = 32" by (simp add: sample_digest_def)
  then have "uint256_bytes (block_hash sample_env b) = sample_digest 32 (hash_input b)"
    by (simp add: block_hash_def sample_env_def uint_bytes_number)
  then show ?thesis by (simp add: sample_digest_def)
qed

lemma sample_hash_fresh: "block_hash sample_env b \<notin> {0, 1, genesis_account sample_env}"
proof -
  have "hd (uint256_bytes (block_hash sample_env b)) = 1" by (simp add: sample_hash_bytes)
  moreover have "hd (uint256_bytes 0) \<noteq> 1" "hd (uint256_bytes 1) \<noteq> 1" by code_simp+
  moreover have "hd (uint256_bytes (genesis_account sample_env)) \<noteq> 1" unfolding sample_genesis_account by code_simp
  ultimately show ?thesis by auto
qed

lemma sample_hash_sane: "hash_sane sample_env b"
proof -
  have "block_hash sample_env (State tb) \<noteq> block_hash sample_env b" if "\<not> is_state b" for tb
  proof
    assume "block_hash sample_env (State tb) = block_hash sample_env b"
    from arg_cong[OF this, of uint256_bytes]
    have "(of_nat (length (hash_input (State tb))) :: byte) = of_nat (length (hash_input b))"
      unfolding sample_hash_bytes by simp
    then show False using that unfolding length_hash_input by (cases b) simp_all
  qed
  then show ?thesis using sample_hash_fresh[of b] unfolding hash_sane_def no_state_collision_def by blast
qed

lemma sample_env_ok: "env_ok sample_env"
  using sample_hash_fresh unfolding env_ok_def genesis_hash_def by blast

lemma sample_signed: "signed sample_env a b"
  by (simp add: signed_def validate_message_def sample_env_def)

section \<open>A run\<close>

text \<open>The genesis account sends all but 7 to account 5, which opens its chain with it.\<close>

definition sample_send_block :: send_block where
  "sample_send_block = \<lparr>send_hashables = \<lparr>s_previous = genesis_hash sample_env, s_destination = 5, s_balance = 7\<rparr>,
     send_signature = 0, send_work = 0\<rparr>"

definition sample_send :: block where
  "sample_send = Send sample_send_block"

definition sample_open_block :: open_block where
  "sample_open_block = \<lparr>open_hashables = \<lparr>o_source = block_hash sample_env sample_send, o_representative = 5, o_account = 5\<rparr>,
     open_signature = 0, open_work = 0\<rparr>"

definition sample_open :: block where
  "sample_open = Open sample_open_block"

lemma sample_hashes:
  "genesis_hash sample_env \<noteq> block_hash sample_env sample_send"
  "genesis_hash sample_env \<noteq> block_hash sample_env sample_open"
  "block_hash sample_env sample_send \<noteq> block_hash sample_env sample_open"
proof -
  have "(of_nat (length (hash_input a)) :: byte) = of_nat (length (hash_input b)) \<and>
      take 30 (hash_input a @ replicate 32 0) = take 30 (hash_input b @ replicate 32 0)"
    if "block_hash sample_env a = block_hash sample_env b" for a b
    using arg_cong[OF that, of uint256_bytes] unfolding sample_hash_bytes by simp
  note eq = this
  show "genesis_hash sample_env \<noteq> block_hash sample_env sample_send"
    using eq[of "Open (genesis_open sample_env)" sample_send] by (auto simp: genesis_hash_def sample_send_def length_hash_input simp del: hash_input.simps)
  show "block_hash sample_env sample_send \<noteq> block_hash sample_env sample_open"
    using eq[of sample_send sample_open] by (auto simp: sample_send_def sample_open_def length_hash_input simp del: hash_input.simps)
  show "genesis_hash sample_env \<noteq> block_hash sample_env sample_open"
  proof
    assume "genesis_hash sample_env = block_hash sample_env sample_open"
    then have "hd (uint256_bytes (genesis_account sample_env)) = hd (uint256_bytes (block_hash sample_env sample_send))"
      using eq[of "Open (genesis_open sample_env)" sample_open]
      by (auto simp: genesis_hash_def sample_open_def sample_open_block_def open_hashables_bytes_def hd_append dest!: arg_cong[of _ _ hd])
    then have "hd (uint256_bytes rai_live_account) = 1"
      by (simp add: sample_hash_bytes)
    moreover have "hd (uint256_bytes rai_live_account) \<noteq> 1" by code_simp
    ultimately show False by contradiction
  qed
qed

definition sample_clock :: rai_clock where
  "sample_clock = \<lparr>steady_now = 0, system_now = 0, seconds_since_epoch = 0\<rparr>"

lemma run_step:
  assumes "reachable sample_env L" "ledger_step sample_env T (view_of (store L)) b V'"
  obtains L' where "reachable sample_env L'" "ledger_step sample_env T (view_of (store L)) b (view_of (store L'))"
    "\<exists>ret. process sample_env T L b = Some (ret, L') \<and> ret_code ret = Progress"
proof -
  have ok: "store_ok sample_env (store L)" by (rule reachable_store_ok[OF assms(1) sample_env_ok])
  obtain ret L' where r: "process sample_env T L b = Some (ret, L')" by (rule process_keeps_store_ok[OF ok sample_hash_sane])
  note D = process_resultD[OF ok sample_hash_sane r]
  have "ret_code ret = Progress" using D(4) assms(2) by blast
  then show ?thesis using that[OF reach_process[OF assms(1) sample_hash_sane r] D(2)] r by blast
qed

lemma sample_run:
  obtains L0 L1 L2 where "reachable sample_env L0" "reachable sample_env L1" "reachable sample_env L2"
    "\<exists>ret. process sample_env sample_clock L0 sample_send = Some (ret, L1) \<and> ret_code ret = Progress"
    "\<exists>ret. process sample_env sample_clock L1 sample_open = Some (ret, L2) \<and> ret_code ret = Progress"
    "blk (dbs (store L0)) = [genesis_hash sample_env \<mapsto> Open (genesis_open sample_env)]"
    "blk (dbs (store L1)) = [genesis_hash sample_env \<mapsto> Open (genesis_open sample_env), block_hash sample_env sample_send \<mapsto> sample_send]"
    "blk (dbs (store L2)) = [genesis_hash sample_env \<mapsto> Open (genesis_open sample_env), block_hash sample_env sample_send \<mapsto> sample_send,
       block_hash sample_env sample_open \<mapsto> sample_open]"
    "\<exists>i. accounts (store L2) 5 = Some i \<and> head i = block_hash sample_env sample_open \<and> balance i = - 8"
    "\<exists>j. accounts (store L2) rai_live_account = Some j \<and> head j = block_hash sample_env sample_send"
    "dom (accounts (store L2)) = {5, rai_live_account}"
    "account_balance (store L2) 5 = - 8" "account_balance (store L2) rai_live_account = 7"
    "pending (store L1) (Pending_key 5 (block_hash sample_env sample_send)) = Some \<lparr>pending_source = rai_live_account, pending_amount = - 8\<rparr>"
    "pending (store L2) = Map.empty"
proof -
  have nz: "genesis_hash sample_env \<noteq> 0" using sample_env_ok by (simp add: env_ok_def)
  let ?h = "genesis_hash sample_env" and ?g = "rai_live_account" and ?b = "Open (genesis_open sample_env)" and ?T = sample_clock
  obtain s where s: "genesis_initialize sample_env ?T empty_store = Some s" "view_of s = \<lparr>vB = [?h \<mapsto> ?b], vS = [?h \<mapsto> 0],
       vA = [?g \<mapsto> \<lparr>head = ?h, rep_block = ?h, open_block = ?h, balance = - 1, modified = seconds_since_epoch ?T, block_count = 1\<rparr>],
       vP = Map.empty, vF = [?h \<mapsto> ?g], vR = (\<lambda>_. 0)(?g := - 1), vI = Map.empty, vK = Some ?h\<rparr>"
    using genesis_initialize_view[OF nz, of ?T] unfolding sample_genesis_account by metis
  define L0 where "L0 = \<lparr>store = s, stats = new_stat default_stat_config 0, bootstrap_weights = Map.empty, bootstrap_weight_max_blocks = 1, check_bootstrap_weights = True\<rparr>"
  have r0: "reachable sample_env L0" by (rule reach_genesis) (use s(1) in \<open>simp add: L0_def\<close>)
  have V0: "view_of (store L0) = view_of s" by (simp add: L0_def)
  let ?i = "\<lparr>head = ?h, rep_block = ?h, open_block = ?h, balance = - 1, modified = seconds_since_epoch ?T, block_count = 1\<rparr>"
  have A0: "accounts s a = Some i \<longleftrightarrow> a = ?g \<and> i = ?i" for a i using arg_cong[OF s(2), of vA] by auto
  have P0: "pending s = Map.empty" "blk (dbs s) = [?h \<mapsto> ?b]" using arg_cong[OF s(2), of vP] arg_cong[OF s(2), of vB] by simp_all
  obtain L1 where L1: "reachable sample_env L1" "ledger_step sample_env ?T (view_of (store L0)) sample_send (view_of (store L1))"
    "\<exists>ret. process sample_env ?T L0 sample_send = Some (ret, L1) \<and> ret_code ret = Progress"
  proof (rule run_step[OF r0])
    show "ledger_step sample_env ?T (view_of (store L0)) sample_send (v_append ?T ?g (block_hash sample_env sample_send) sample_send
        (rep_block ?i) (s_balance (send_hashables sample_send_block)) ([Pending_key (s_destination (send_hashables sample_send_block))
          (block_hash sample_env sample_send) \<mapsto> \<lparr>pending_source = ?g, pending_amount = balance ?i - s_balance (send_hashables sample_send_block)\<rparr>])
        (view_of (store L0)))"
      unfolding sample_send_def V0
      by (rule ledger_step.step_send[OF refl]) (use sample_hashes(1) in
          \<open>auto simp: A0 P0 sample_signed state_at_def sample_send_block_def sample_send_def\<close>)
  qed
  have V1: "view_of (store L1) = v_append ?T ?g (block_hash sample_env sample_send) sample_send ?h 7
        [Pending_key 5 (block_hash sample_env sample_send) \<mapsto> \<lparr>pending_source = ?g, pending_amount = - 8\<rparr>] (view_of s)"
    using L1(2) unfolding V0 sample_send_def by (rule step_SendE) (auto simp: A0 P0 sample_send_block_def)
  have ne: "rai_live_account \<noteq> 5" by (simp add: rai_live_account_def)
  have A1: "accounts (store L1) = (accounts s)(?g \<mapsto> new_info ?T (view_of s) ?g (block_hash sample_env sample_send) ?h 7)"
    and P1: "pending (store L1) = [Pending_key 5 (block_hash sample_env sample_send) \<mapsto> \<lparr>pending_source = ?g, pending_amount = - 8\<rparr>]"
    and B1: "blk (dbs (store L1)) = [?h \<mapsto> ?b, block_hash sample_env sample_send \<mapsto> sample_send]"
    using arg_cong[OF V1, of vA] arg_cong[OF V1, of vP] arg_cong[OF V1, of vB] by (simp_all add: v_append_sel P0)
  have A5: "accounts (store L1) 5 = None" using ne A0[of 5] by (cases "accounts s 5") (auto simp: A1)
  obtain L2 where L2: "reachable sample_env L2" "ledger_step sample_env ?T (view_of (store L1)) sample_open (view_of (store L2))"
    "\<exists>ret. process sample_env ?T L1 sample_open = Some (ret, L2) \<and> ret_code ret = Progress"
  proof (rule run_step[OF L1(1)])
    show "ledger_step sample_env ?T (view_of (store L1)) sample_open (v_append ?T 5 (block_hash sample_env sample_open) sample_open
        (block_hash sample_env sample_open) (pending_amount \<lparr>pending_source = ?g, pending_amount = - 8\<rparr>) Map.empty (view_of (store L1)))"
      unfolding sample_open_def
      by (rule ledger_step.step_open[OF refl]) (use sample_hashes(2,3) A5 in
          \<open>auto simp: P1 B1 sample_signed burn_account_def sample_open_block_def sample_open_def\<close>)
  qed
  have V2: "view_of (store L2) = v_append ?T 5 (block_hash sample_env sample_open) sample_open (block_hash sample_env sample_open) (- 8)
      Map.empty (view_of (store L1))"
    using L2(2) unfolding sample_open_def by (rule step_OpenE) (auto simp: P1 sample_open_block_def)
  have A2: "accounts (store L2) = (accounts (store L1))(5 \<mapsto> new_info ?T (view_of (store L1)) 5 (block_hash sample_env sample_open) (block_hash sample_env sample_open) (- 8))"
    and P2: "pending (store L2) = Map.empty"
    and B2: "blk (dbs (store L2)) = (blk (dbs (store L1)))(block_hash sample_env sample_open \<mapsto> sample_open)"
    using arg_cong[OF V2, of vA] arg_cong[OF V2, of vP] arg_cong[OF V2, of vB] by (simp_all add: v_append_sel)
  have "account_balance (store L2) 5 = - 8" "account_balance (store L2) ?g = 7"
    using ne A5 by (simp_all add: account_balance_def account_get_def A2 A1 new_info_def split: option.split)
  moreover have "\<exists>i. accounts (store L2) 5 = Some i \<and> head i = block_hash sample_env sample_open \<and> balance i = - 8"
    using A5 by (simp add: A2 new_info_def)
  moreover have "\<exists>j. accounts (store L2) ?g = Some j \<and> head j = block_hash sample_env sample_send"
    using ne by (simp add: A2 A1 new_info_def split: option.split)
  moreover have "dom (accounts s) = {?g}" using A0 by (auto simp: dom_def)
  then have "dom (accounts (store L2)) = {5, ?g}" by (simp add: A2 A1)
  ultimately show ?thesis
    using that[OF r0 L1(1) L2(1) L1(3) L2(3)] B1 B2 P1 P2 P0 by (simp add: L0_def)
qed

text \<open>A second block that opens account 5, and a state block of account 5 on the genesis account's head.\<close>

definition sample_rival :: block where
  "sample_rival = Open \<lparr>open_hashables = \<lparr>o_source = genesis_hash sample_env, o_representative = 5, o_account = 5\<rparr>,
     open_signature = 0, open_work = 0\<rparr>"

definition sample_foreign :: state_block where
  "sample_foreign = \<lparr>state_hashables = \<lparr>st_account = 5, st_previous = block_hash sample_env sample_send, st_representative = 5,
     st_balance = 0, st_link = 0\<rparr>, state_signature = 0, state_work = 0\<rparr>"

lemma sample_rival_fresh: "block_hash sample_env sample_rival \<notin>
    {genesis_hash sample_env, block_hash sample_env sample_send, block_hash sample_env sample_open}"
proof -
  have two: "uint256_bytes (block_hash sample_env b) ! Suc 0 = of_nat (length (hash_input b))" for b by (simp add: sample_hash_bytes)
  have open_eq: "take 30 (uint256_bytes (o_source (open_hashables a))) = take 30 (uint256_bytes (o_source (open_hashables b)))"
    if "block_hash sample_env (Open a) = block_hash sample_env (Open b)" for a b
    using arg_cong[OF that, of uint256_bytes] by (simp add: sample_hash_bytes open_hashables_bytes_def)
  have "block_hash sample_env sample_rival \<noteq> block_hash sample_env sample_send"
    using two[of sample_rival] two[of sample_send] by (auto simp: length_hash_input sample_rival_def sample_send_def simp del: hash_input.simps)
  moreover have "block_hash sample_env sample_rival \<noteq> block_hash sample_env sample_open"
  proof
    assume "block_hash sample_env sample_rival = block_hash sample_env sample_open"
    then have "take 30 (uint256_bytes (genesis_hash sample_env)) = take 30 (uint256_bytes (block_hash sample_env sample_send))"
      using open_eq unfolding sample_rival_def sample_open_def sample_open_block_def by fastforce
    from arg_cong[OF this, of "\<lambda>bs. bs ! 1"] show False
      by (simp add: genesis_hash_def two length_hash_input sample_send_def del: hash_input.simps)
  qed
  moreover have "block_hash sample_env sample_rival \<noteq> genesis_hash sample_env"
  proof
    assume "block_hash sample_env sample_rival = genesis_hash sample_env"
    then have "take 30 (uint256_bytes (genesis_hash sample_env)) = take 30 (uint256_bytes rai_live_account)"
      using open_eq[of _ "genesis_open sample_env"] unfolding sample_rival_def genesis_hash_def by fastforce
    from arg_cong[OF this, of hd] have "hd (uint256_bytes rai_live_account) = 1" by (simp add: genesis_hash_def sample_hash_bytes)
    moreover have "hd (uint256_bytes rai_live_account) \<noteq> 1" by code_simp
    ultimately show False by contradiction
  qed
  ultimately show ?thesis by blast
qed

lemma sample_foreign_fresh: "block_hash sample_env (State sample_foreign) \<notin>
    {genesis_hash sample_env, block_hash sample_env sample_send, block_hash sample_env sample_open}"
  using sample_hash_sane[of "Open (genesis_open sample_env)"] sample_hash_sane[of sample_send] sample_hash_sane[of sample_open]
  by (auto simp: hash_sane_def no_state_collision_def genesis_hash_def sample_send_def sample_open_def)

lemma sample_hash_not_5: "block_hash sample_env b \<noteq> 5"
proof
  assume "block_hash sample_env b = 5"
  from arg_cong[OF this, of "\<lambda>x. hd (uint256_bytes x)"] have "hd (uint256_bytes 5) = 1" by (simp add: sample_hash_bytes)
  moreover have "hd (uint256_bytes 5) \<noteq> 1" by code_simp
  ultimately show False by contradiction
qed

section \<open>An account text\<close>

lemma sample_check_fits: "check_fits sample_env"
  by (auto simp: check_fits_def sample_env_def sample_digest_def min_def)

definition sample_text :: string where
  "sample_text = ''xrb_111111111111111111111111111111111111111111111111114g11111a13''"

lemma digits_text_numeral:
  "digits_text (numeral k) m = digits_text (pred_numeral k) (m div 32) @ [account_lookup ! (m mod 32)]"
  by (simp only: numeral_eq_Suc [of k] digits_text.simps)

lemma digits_text_zero: "digits_text k 0 = replicate k (CHR ''1'')"
  by (induction k) (simp_all add: account_lookup_def replicate_append_same)

lemma digits_text_split: "digits_text (j + k) m = digits_text j (m div 32 ^ k) @ digits_text k m"
  by (induction k arbitrary: m) (simp_all add: div_mult2_eq)

lemma sample_check: "account_check sample_env 78 = 0x2001"
proof -
  have "take 3 (uint256_bytes 78) = [0, 0, 0]" by code_simp
  then show ?thesis by (simp add: account_check_def sample_env_def sample_digest_def)
qed

lemma sample_text_number: "''xrb_'' @ digits_text 60 (account_number sample_env 78) = sample_text"
proof -
  have n: "account_number sample_env 78 = 85761906974721" by (simp add: account_number_def sample_check)
  have "digits_text (50 + 10) 85761906974721 = digits_text 50 0 @ digits_text 10 85761906974721"
    using digits_text_split [of 50 10 85761906974721] by simp
  also have "\<dots> = replicate 50 (CHR ''1'') @ ''4g11111a13''"
    by (simp only: digits_text_zero) (simp add: digits_text_numeral account_lookup_def)
  also have "replicate 50 (CHR ''1'') = ''11111111111111111111111111111111111111111111111111''" by (simp add: numeral_eq_Suc)
  finally show ?thesis unfolding n sample_text_def by simp
qed

section \<open>A run of the work pool\<close>

definition sample_seed :: xorshift1024star where
  "sample_seed = \<lparr>xs_s = 0x446e0875348316b7 # replicate 15 0, xs_p = 0\<rparr>"

definition sample_seed_after :: xorshift1024star where
  "sample_seed_after = \<lparr>xs_s = 0x446e0875348316b7 # 0x446e0874253b3763 # replicate 14 0, xs_p = 1\<rparr>"

lemma sample_next: "xorshift_next sample_seed = (- 1, sample_seed_after)"
  by code_simp

lemma sample_work: "publish_threshold sample_env \<le> work_value sample_env 5 (- 1)"
  by code_simp

lemma sample_batch:
  "search_batch sample_env 5 256 sample_seed 0 0 = (sample_seed_after, - 1, work_value sample_env 5 (- 1))"
proof -
  have "(0 :: u64) < publish_threshold sample_env" by code_simp
  then have "search_batch sample_env 5 (Suc (Suc 254)) sample_seed 0 0
      = (sample_seed_after, - 1, work_value sample_env 5 (- 1))"
    using sample_work [THEN leD] by (simp only: search_batch.simps sample_next) simp
  then show ?thesis by simp
qed

text \<open>One thread: the request, its search, its answer.\<close>

definition sample_pool :: "u32 \<Rightarrow> (u256 \<times> nat) list \<Rightarrow> (nat \<times> u64 option) list \<Rightarrow> bool list \<Rightarrow> work_pool" where
  "sample_pool t reqs ans obs = \<lparr>ticket = t, pool_done = False, pool_pending = reqs, answered = ans, observed = obs\<rparr>"

definition sample_stage :: "work_pool \<Rightarrow> worker \<Rightarrow> pool_run" where
  "sample_stage p w = \<lparr>run_pool = p, run_workers = [w], run_asked = [(5, 7)]\<rparr>"

lemma sample_stage_step:
  assumes "worker_step sample_env 0 p w = Some (p', w')"
  shows "pool_step sample_env None (sample_stage p w) (sample_stage p' w')"
proof -
  have "pool_step sample_env None (sample_stage p w)
      ((sample_stage p w)\<lparr>run_pool := p', run_workers := (run_workers (sample_stage p w))[0 := w']\<rparr>)"
    by (rule pool_step.work) (simp_all add: sample_stage_def assms)
  then show ?thesis by (simp add: sample_stage_def)
qed

lemma sample_pool_run:
  "pool_reach sample_env None [sample_seed] 6
     (sample_stage (sample_pool 1 [] [(7, Some (- 1))] [True]) (Top sample_seed_after))"
proof -
  let ?g = sample_seed and ?g' = sample_seed_after and ?v = "work_value sample_env 5 (- 1)"
  let ?s = "pool_step sample_env None"
  have "?s (new_run [?g]) ((new_run [?g])\<lparr>run_pool := sample_pool 0 [(5, 7)] [] [],
      run_asked := run_asked (new_run [?g]) @ [(5, 7)]\<rparr>)"
    by (rule pool_step.generate) (simp add: pool_generate_def new_run_def new_work_pool_def sample_pool_def)
  then have 1: "?s (new_run [?g]) (sample_stage (sample_pool 0 [(5, 7)] [] []) (Top ?g))"
    by (simp add: new_run_def sample_stage_def)
  have 2: "?s (sample_stage (sample_pool 0 [(5, 7)] [] []) (Top ?g))
      (sample_stage (sample_pool 0 [(5, 7)] [] [True]) (Searching ?g (5, 7) 0 0 0))"
    by (rule sample_stage_step) (simp add: sample_pool_def)
  have "(0 :: u64) < publish_threshold sample_env" by code_simp
  then have 3: "?s (sample_stage (sample_pool 0 [(5, 7)] [] [True]) (Searching ?g (5, 7) 0 0 0))
      (sample_stage (sample_pool 0 [(5, 7)] [] [True]) (Searching ?g' (5, 7) 0 (- 1) ?v))"
    by (intro sample_stage_step) (simp add: sample_pool_def sample_batch)
  have 4: "?s (sample_stage (sample_pool 0 [(5, 7)] [] [True]) (Searching ?g' (5, 7) 0 (- 1) ?v))
      (sample_stage (sample_pool 0 [(5, 7)] [] [True]) (Locking ?g' (5, 7) 0 (- 1) ?v))"
    using sample_work [THEN leD] by (intro sample_stage_step) (simp add: sample_pool_def)
  have 5: "?s (sample_stage (sample_pool 0 [(5, 7)] [] [True]) (Locking ?g' (5, 7) 0 (- 1) ?v))
      (sample_stage (sample_pool 1 [] [] [True]) (Calling ?g' (5, 7) (- 1)))"
    using sample_work by (intro sample_stage_step) (simp add: sample_pool_def)
  have 6: "?s (sample_stage (sample_pool 1 [] [] [True]) (Calling ?g' (5, 7) (- 1)))
      (sample_stage (sample_pool 1 [] [(7, Some (- 1))] [True]) (Top ?g'))"
    by (rule sample_stage_step) (simp add: sample_pool_def)
  from 1 2 3 4 5 6 have "(?s ^^ Suc (Suc (Suc (Suc (Suc (Suc 0)))))) (new_run [?g])
      (sample_stage (sample_pool 1 [] [(7, Some (- 1))] [True]) (Top ?g'))"
    by (blast intro: relpowp_Suc_I relpowp_0_I)
  then show ?thesis by (simp add: pool_reach_def numeral_eq_Suc)
qed

end
