(* ===== verification/Spec2Isabelle.thy ===== *)
theory Spec2Isabelle
  imports Rai_Sample
begin

text \<open>
  A verification development of the RaiBlocks node.
\<close>

section \<open>The ledger\<close>

text \<open>
  C1: on every ledger a node can reach, \<open>process\<close> returns for every block, and it implements the
  abstract ledger: it answers progress exactly when the specification accepts the block, the tables
  are then those of the specification's step, and otherwise the store is unchanged.
\<close>

theorem process_refines:
  assumes "reachable E L" "env_ok E" "hash_sane E b"
  shows "\<exists>ret L'. process E T L b = Some (ret, L') \<and>
    (if ret_code ret = Progress then ledger_step E T (view_of (store L)) b (view_of (store L'))
     else store L' = store L \<and> (\<nexists>V'. ledger_step E T (view_of (store L)) b V'))"
proof -
  obtain C N where "dbs_wf (dbs (store L))" "ledger_inv E (view_of (store L)) C N" by (rule reachableE[OF assms(1,2)])
  from process_implements[OF this assms(3), of T] show ?thesis unfolding implements_def by blast
qed

theorem process_refines_witness:
  "\<exists>L. reachable sample_env L \<and> hash_sane sample_env sample_send \<and>
    (\<exists>ret L'. process sample_env sample_clock L sample_send = Some (ret, L') \<and>
    (if ret_code ret = Progress then ledger_step sample_env sample_clock (view_of (store L)) sample_send (view_of (store L'))
     else store L' = store L \<and> (\<nexists>V'. ledger_step sample_env sample_clock (view_of (store L)) sample_send V')))"
proof (rule sample_run)
  fix L0
  assume "reachable sample_env L0"
  with process_refines[OF this sample_env_ok sample_hash_sane] sample_hash_sane show ?thesis by blast
qed

text \<open>
  C2: \<open>rollback\<close> of a block other than the genesis block ends on every reachable ledger. It removes
  the block and exactly the blocks that rest on it, directly or through others, whoever owns them;
  the resulting store satisfies the ledger invariant.
\<close>

theorem rollback_removes_dependents:
  assumes "reachable E L" "env_ok E" "blk (dbs (store L)) h = Some b" "\<not> is_genesis (genesis_account E) b"
  shows "\<exists>L'. rollback E T L h = Some L' \<and> store_ok E (store L') \<and>
    blk (dbs (store L')) = blk (dbs (store L)) |` (- dependents (genesis_account E) (blk (dbs (store L))) h)"
proof -
  obtain C N where "dbs_wf (dbs (store L))" "ledger_inv E (view_of (store L)) C N" by (rule reachableE[OF assms(1,2)])
  from rollback_exact[OF this assms(3,4)] show ?thesis by metis
qed

theorem rollback_removes_dependents_witness:
  "\<exists>L L'. reachable sample_env L \<and> rollback sample_env sample_clock L (block_hash sample_env sample_send) = Some L' \<and>
    store_ok sample_env (store L') \<and> blk (dbs (store L')) = blk (dbs (store L)) |`
      (- dependents (genesis_account sample_env) (blk (dbs (store L))) (block_hash sample_env sample_send))"
proof (rule sample_run)
  fix L0 L1 L2
  assume r: "reachable sample_env L2" and
    B: "blk (dbs (store L2)) = [genesis_hash sample_env \<mapsto> Open (genesis_open sample_env), block_hash sample_env sample_send \<mapsto> sample_send,
       block_hash sample_env sample_open \<mapsto> sample_open]"
  have "blk (dbs (store L2)) (block_hash sample_env sample_send) = Some sample_send" using B sample_hashes by simp
  moreover have "\<not> is_genesis (genesis_account sample_env) sample_send" by (simp add: is_genesis_def sample_send_def)
  ultimately show ?thesis using rollback_removes_dependents[OF r sample_env_ok] r by blast
qed





text \<open>
  C5: no amount is created or lost. On every reachable ledger the balances of all accounts and the
  amounts of all pending sends add up, as natural numbers, to the genesis amount: no sum of balances
  ever overflows 128 bits.
\<close>

theorem supply_conserved:
  assumes "reachable E L" "env_ok E"
  shows "msum (\<lambda>i. unat (balance i)) (accounts (store L)) + msum (\<lambda>p. unat (pending_amount p)) (pending (store L))
    = unat genesis_amount"
proof -
  obtain C N where "ledger_inv E (view_of (store L)) C N" by (rule reachableE[OF assms])
  from ledger_invD(10)[OF this] show ?thesis by (simp add: supply_ok_def total_supply_def unat_genesis_amount)
qed

theorem supply_conserved_witness:
  "\<exists>L. reachable sample_env L \<and> account_balance (store L) 5 = - 8 \<and>
    msum (\<lambda>i. unat (balance i)) (accounts (store L)) + msum (\<lambda>p. unat (pending_amount p)) (pending (store L)) = unat genesis_amount"
proof (rule sample_run)
  fix L2
  assume "reachable sample_env L2" "account_balance (store L2) 5 = - 8"
  with supply_conserved[OF this(1) sample_env_ok] show ?thesis by blast
qed

text \<open>
  C6: voting weight is delegated balance. The entry of the weight table for a representative is the
  sum of the balances of the accounts whose representative block names it, without wrap-around.
\<close>

theorem weight_is_delegated_balance:
  assumes "reachable E L" "env_ok E"
  shows "unat (representation_get (store L) r) =
    msum (\<lambda>i. if rep_account (blk (dbs (store L))) (rep_block i) = r then unat (balance i) else 0) (accounts (store L))"
proof -
  obtain C N where inv: "ledger_inv E (view_of (store L)) C N" by (rule reachableE[OF assms])
  note I = ledger_invD[OF inv]
  let ?f = "\<lambda>i. if rep_account (blk (dbs (store L))) (rep_block i) = r then balance i else 0"
  have u: "unat (?f i) = (if rep_account (blk (dbs (store L))) (rep_block i) = r then unat (balance i) else 0)" for i by simp
  have "msum (\<lambda>i. unat (?f i)) (accounts (store L)) \<le> msum (\<lambda>i. unat (balance i)) (accounts (store L))"
    unfolding msum_def by (rule sum_mono) simp
  also have "\<dots> < 2 ^ 128" using I(10) by (simp add: supply_ok_def total_supply_def)
  finally have "unat (msum ?f (accounts (store L))) = msum (\<lambda>i. unat (?f i)) (accounts (store L))"
    using I(12) by (intro unat_msum) (auto simp: finite_ok_def)
  then show ?thesis using I(9) unfolding weights_ok_def delegated_def u by simp
qed

theorem weight_is_delegated_balance_witness:
  "\<exists>L. reachable sample_env L \<and> unat (representation_get (store L) 5) =
    msum (\<lambda>i. if rep_account (blk (dbs (store L))) (rep_block i) = 5 then unat (balance i) else 0) (accounts (store L))"
proof (rule sample_run)
  fix L2
  assume "reachable sample_env L2"
  with weight_is_delegated_balance[OF this sample_env_ok] show ?thesis by blast
qed



text \<open>
  C8: no send is received twice. On a reachable ledger two blocks that receive the same send are
  the same block.
\<close>

theorem no_double_receive:
  assumes "reachable E L" "env_ok E" "blk (dbs (store L)) h = Some b" "blk (dbs (store L)) h' = Some b'"
    "receives (genesis_account E) (blk (dbs (store L))) b src" "receives (genesis_account E) (blk (dbs (store L))) b' src"
  shows "h = h'"
proof -
  obtain C N where inv: "ledger_inv E (view_of (store L)) C N" by (rule reachableE[OF assms(1,2)])
  show ?thesis using receipts_okD(3)[OF ledger_invD(6)[OF inv]] assms(3-6) by simp
qed

theorem no_double_receive_witness:
  "\<exists>L. reachable sample_env L \<and> (\<exists>!h. \<exists>b. blk (dbs (store L)) h = Some b \<and>
    receives (genesis_account sample_env) (blk (dbs (store L))) b (block_hash sample_env sample_send))"
proof (rule sample_run)
  fix L2
  assume r: "reachable sample_env L2" and
    B: "blk (dbs (store L2)) = [genesis_hash sample_env \<mapsto> Open (genesis_open sample_env), block_hash sample_env sample_send \<mapsto> sample_send,
       block_hash sample_env sample_open \<mapsto> sample_open]"
  have "blk (dbs (store L2)) (block_hash sample_env sample_open) = Some sample_open" using B by simp
  moreover have "receives (genesis_account sample_env) (blk (dbs (store L2))) sample_open (block_hash sample_env sample_send)"
    using sample_hash_fresh[of sample_send] by (simp add: receives_def sample_open_def sample_open_block_def)
  ultimately show ?thesis using no_double_receive[OF r sample_env_ok] r by blast
qed

text \<open>
  C9: every send is accounted for. On a reachable ledger a send to \<open>d\<close> has a pending entry for \<open>d\<close>
  exactly as long as no block in the ledger receives it.
\<close>

theorem pending_iff_unreceived:
  assumes "reachable E L" "env_ok E" "blk (dbs (store L)) h = Some b" "sends_to (genesis_account E) (blk (dbs (store L))) b d"
  shows "pending (store L) (Pending_key d h) \<noteq> None \<longleftrightarrow>
    (\<nexists>x bx. blk (dbs (store L)) x = Some bx \<and> receives (genesis_account E) (blk (dbs (store L))) bx h)"
proof -
  obtain C N where inv: "ledger_inv E (view_of (store L)) C N" by (rule reachableE[OF assms(1,2)])
  note I = ledger_invD[OF inv]
  have "\<not> receives (genesis_account E) (blk (dbs (store L))) bx h"
    if "pending (store L) (Pending_key d h) = Some p" "blk (dbs (store L)) x = Some bx" for p x bx
    using pending_unreceived[OF I(2,5,6), of d h p x bx] that by simp
  moreover have "\<exists>x bx. blk (dbs (store L)) x = Some bx \<and> receives (genesis_account E) (blk (dbs (store L))) bx h"
    if "pending (store L) (Pending_key d h) = None"
    using receipts_okD(4)[OF I(6), of h b d] assms(3,4) that by auto
  ultimately show ?thesis by blast
qed

theorem pending_iff_unreceived_witness:
  "\<exists>L. reachable sample_env L \<and> (pending (store L) (Pending_key 5 (block_hash sample_env sample_send)) \<noteq> None \<longleftrightarrow>
    (\<nexists>x bx. blk (dbs (store L)) x = Some bx \<and> receives (genesis_account sample_env) (blk (dbs (store L))) bx (block_hash sample_env sample_send)))"
proof (rule sample_run)
  fix L1
  assume r: "reachable sample_env L1" and
    B: "blk (dbs (store L1)) = [genesis_hash sample_env \<mapsto> Open (genesis_open sample_env), block_hash sample_env sample_send \<mapsto> sample_send]"
  have "blk (dbs (store L1)) (block_hash sample_env sample_send) = Some sample_send" using B by simp
  moreover have "sends_to (genesis_account sample_env) (blk (dbs (store L1))) sample_send 5"
    by (simp add: sends_to_def sample_send_def sample_send_block_def)
  ultimately show ?thesis using pending_iff_unreceived[OF r sample_env_ok] r by blast
qed

text \<open>
  C10: chains do not fork. On a reachable ledger two blocks with the same predecessor are the same
  block, and two blocks that open the chain of the same account are the same block.
\<close>

theorem no_forks:
  assumes "reachable E L" "env_ok E" "blk (dbs (store L)) h = Some b" "blk (dbs (store L)) h' = Some b'"
    "previous b = previous b'" "previous b = 0 \<Longrightarrow> ledger_account (store L) h = ledger_account (store L) h'"
  shows "h = h'"
proof -
  obtain C N where wf: "dbs_wf (dbs (store L))" and inv: "ledger_inv E (view_of (store L)) C N" by (rule reachableE[OF assms(1,2)])
  note I = ledger_invD[OF inv] note c = chains_okD[OF I(2)]
  obtain a a' where a: "h \<in> set (C a)" "h' \<in> set (C a')" using c(9)[of h] c(9)[of h'] assms(3,4) by auto
  then obtain xs ys xs' ys' where x: "C a = xs @ h # ys" "C a' = xs' @ h' # ys'" by (meson split_list)
  have p: "position_ok (blk (dbs (store L))) b ys" "position_ok (blk (dbs (store L))) b' ys'"
    using chain_position[OF I(2) x(1), of b] chain_position[OF I(2) x(2), of b'] assms(3,4) by simp_all
  have nz: "y \<noteq> 0" if "y \<in> set (C z)" for y z using that c(9)[of y] I(1) unfolding hashes_ok_def by auto
  show ?thesis
  proof (cases "previous b = 0")
    case True
    then have "a = a'" using assms(6) ledger_account_correct[OF wf inv a(1)] ledger_account_correct[OF wf inv a(2)] by simp
    moreover have "ys = []" "ys' = []"
      using p True assms(5) nz[of "hd ys" a] nz[of "hd ys'" a'] x by (auto simp: position_ok_def split: list.splits)
    ultimately show ?thesis using x by simp
  next
    case False
    then obtain zs zs' where ys: "ys = previous b # zs" "ys' = previous b # zs'"
      using p assms(5) by (auto simp: position_ok_def split: list.splits)
    then have aa: "a = a'" using c(8)[of "previous b" a a'] x by simp
    have "(xs @ [h]) @ previous b # zs = (xs' @ [h']) @ previous b # zs'" using x ys aa by simp
    then have "xs @ [h] = xs' @ [h']" using c(7)[of a] x(1) ys by (subst (asm) append_Cons_eq_iff) auto
    then show ?thesis by simp
  qed
qed

theorem no_forks_witness:
  "\<exists>L. reachable sample_env L \<and> (\<exists>!h. \<exists>b. blk (dbs (store L)) h = Some b \<and> previous b = genesis_hash sample_env)"
proof (rule sample_run)
  fix L2
  assume r: "reachable sample_env L2" and
    B: "blk (dbs (store L2)) = [genesis_hash sample_env \<mapsto> Open (genesis_open sample_env), block_hash sample_env sample_send \<mapsto> sample_send,
       block_hash sample_env sample_open \<mapsto> sample_open]"
  have b: "blk (dbs (store L2)) (block_hash sample_env sample_send) = Some sample_send" using B sample_hashes by simp
  have p: "previous sample_send = genesis_hash sample_env" by (simp add: sample_send_def sample_send_block_def)
  have "genesis_hash sample_env \<noteq> 0" using sample_env_ok by (simp add: env_ok_def)
  then have "h = block_hash sample_env sample_send" if "blk (dbs (store L2)) h = Some b'" "previous b' = genesis_hash sample_env" for h b'
    using no_forks[OF r sample_env_ok that(1) b] that(2) p by simp
  then show ?thesis using r b p by blast
qed

text \<open>
  C11: \<open>account\<close> finds the owner of every block. On a reachable ledger it returns, for a block in the
  ledger, an account whose head leads to the block by a number of steps to predecessors.
\<close>

theorem account_finds_owner:
  assumes "reachable E L" "env_ok E" "blk (dbs (store L)) h = Some b"
  shows "\<exists>a i n. ledger_account (store L) h = Some a \<and> accounts (store L) a = Some i \<and>
    ((\<lambda>x. previous (the (blk (dbs (store L)) x))) ^^ n) (head i) = h"
proof -
  obtain C N where wf: "dbs_wf (dbs (store L))" and inv: "ledger_inv E (view_of (store L)) C N" by (rule reachableE[OF assms(1,2)])
  note I = ledger_invD[OF inv] note c = chains_okD[OF I(2)]
  let ?p = "\<lambda>x. previous (the (blk (dbs (store L)) x))"
  obtain a where a: "h \<in> set (C a)" using c(9)[of h] assms(3) by auto
  then obtain i where i: "accounts (store L) a = Some i" using c(1)[of a] by (cases "accounts (store L) a") auto
  have walk: "(?p ^^ length zs) (hd (zs @ x # ys)) = x" if "C a = zs @ x # ys" for zs x ys
    using that
  proof (induction zs arbitrary: x ys rule: rev_induct)
    case (snoc y zs)
    have ca: "C a = zs @ y # x # ys" using snoc(2) by simp
    then have "y \<in> set (C a)" by simp
    then obtain d where d: "blk (dbs (store L)) y = Some d" using c(9)[of y] by auto
    have "position_ok (vB (view_of (store L))) d (x # ys)" using chain_position[OF I(2) ca] d by simp
    then have "?p y = x" using d by (simp add: position_ok_def)
    then show ?case using snoc(1)[OF ca] by (cases zs) simp_all
  qed simp
  obtain zs ys where ca: "C a = zs @ h # ys" using a by (meson split_list)
  have "head i = hd (C a)" using c(3)[of a i] i by simp
  then have "(?p ^^ length zs) (head i) = h" using walk[OF ca] ca by simp
  then show ?thesis using ledger_account_correct[OF wf inv a] i by blast
qed

theorem account_finds_owner_witness:
  "\<exists>L a i n. reachable sample_env L \<and> ledger_account (store L) (genesis_hash sample_env) = Some a \<and> accounts (store L) a = Some i \<and>
    ((\<lambda>x. previous (the (blk (dbs (store L)) x))) ^^ n) (head i) = genesis_hash sample_env"
proof (rule sample_run)
  fix L1
  assume r: "reachable sample_env L1" and
    B: "blk (dbs (store L1)) = [genesis_hash sample_env \<mapsto> Open (genesis_open sample_env), block_hash sample_env sample_send \<mapsto> sample_send]"
  have "blk (dbs (store L1)) (genesis_hash sample_env) = Some (Open (genesis_open sample_env))" using B sample_hashes by simp
  from account_finds_owner[OF r sample_env_ok this] r show ?thesis by blast
qed

text \<open>
  C12: the cached values are the computed ones. On a reachable ledger the balance in an account's record is
  the balance the visitor computes by walking the chain from the account's head, and the representative
  block in the record is the one the representative visitor finds.
\<close>

theorem cached_values_agree:
  assumes "reachable E L" "env_ok E" "accounts (store L) a = Some i"
  shows "ledger_balance E (store L) (latest (store L) a) = Some (account_balance (store L) a)
    \<and> ledger_representative E (store L) (latest (store L) a) = Some (rep_block i)"
proof -
  obtain C N where wf: "dbs_wf (dbs (store L))" and inv: "ledger_inv E (view_of (store L)) C N" by (rule reachableE[OF assms(1,2)])
  have "rep_of (blk (dbs (store L))) (head i) (rep_block i)"
    using ledger_invD(4)[OF inv] assms(3) unfolding values_ok_def by auto
  then have "block_exists (store L) (rep_block i)" using rep_of_dom block_exists_iff[OF wf] by blast
  then show ?thesis
    using head_balance[OF wf inv assms(3)] assms(3)
    by (simp add: latest_def account_balance_def account_get_def ledger_representative_def)
qed

theorem cached_values_agree_witness:
  "\<exists>L i. reachable sample_env L \<and> accounts (store L) 5 = Some i \<and>
    ledger_balance sample_env (store L) (latest (store L) 5) = Some (account_balance (store L) 5) \<and>
    ledger_representative sample_env (store L) (latest (store L) 5) = Some (rep_block i)"
proof (rule sample_run)
  fix L2
  assume r: "reachable sample_env L2" and "\<exists>i. accounts (store L2) 5 = Some i \<and> head i = block_hash sample_env sample_open \<and> balance i = - 8"
  then obtain i where i: "accounts (store L2) 5 = Some i" by blast
  from cached_values_agree[OF r sample_env_ok i] r i show ?thesis by blast
qed

text \<open>
  C13: pending entries are what was sent. On a reachable ledger a pending entry belongs to a send in
  the ledger, its amount is the amount the visitor computes for that block, and its source is the
  owner of the send.
\<close>

theorem pending_matches_send:
  assumes "reachable E L" "env_ok E" "pending (store L) (Pending_key d h) = Some p"
  shows "(\<exists>b. blk (dbs (store L)) h = Some b \<and> sends_to (genesis_account E) (blk (dbs (store L))) b d)
    \<and> ledger_amount E (store L) h = Some (pending_amount p) \<and> ledger_account (store L) h = Some (pending_source p)"
proof -
  obtain C N where wf: "dbs_wf (dbs (store L))" and inv: "ledger_inv E (view_of (store L)) C N" by (rule reachableE[OF assms(1,2)])
  have "vP (view_of (store L)) (Pending_key d h) = Some p" using assms(3) by simp
  note p = pending_okD[OF ledger_invD(5)[OF inv] this]
  show ?thesis
    using p(1) block_amount_correct[OF inv_walkable[OF wf inv]] p(2) ledger_account_correct[OF wf inv p(3)]
    by (simp add: ledger_amount_def block_amount_def)
qed

theorem pending_matches_send_witness:
  "\<exists>L. reachable sample_env L \<and> ledger_amount sample_env (store L) (block_hash sample_env sample_send) = Some (- 8) \<and>
    ledger_account (store L) (block_hash sample_env sample_send) = Some rai_live_account"
proof (rule sample_run)
  fix L1
  assume r: "reachable sample_env L1" and
    p: "pending (store L1) (Pending_key 5 (block_hash sample_env sample_send)) = Some \<lparr>pending_source = rai_live_account, pending_amount = - 8\<rparr>"
  from pending_matches_send[OF r sample_env_ok p] r show ?thesis by auto
qed

text \<open>
  C14: \<open>process\<close> answers old exactly for the blocks the ledger has, and an accepted block is in the
  ledger afterwards: processing it again changes nothing.
\<close>

theorem process_old_iff_known:
  assumes "reachable E L" "env_ok E" "hash_sane E b" "process E T L b = Some (ret, L')"
  shows "(ret_code ret = Old \<longleftrightarrow> block_hash E b \<in> dom (blk (dbs (store L))))
    \<and> (ret_code ret = Progress \<longrightarrow> (\<exists>ret'. process E T' L' b = Some (ret', L') \<and> ret_code ret' = Old))"
proof -
  have ok: "store_ok E (store L)" by (rule reachable_store_ok[OF assms(1,2)])
  obtain C N where wf: "dbs_wf (dbs (store L))" and inv: "ledger_inv E (view_of (store L)) C N" using ok by (rule store_okE)
  have nz: "block_hash E b \<noteq> 0" using assms(3) by (simp add: hash_sane_def)
  have again: "process E T' L' b = Some (return_code Old, L')" if "block_exists (store L') (block_hash E b)"
    using that by (cases b) (simp_all add: process_defs Let_def)
  have "block_exists (store L') (block_hash E b)" if p: "ret_code ret = Progress"
  proof -
    obtain C' N' where "vB (view_of (store L')) = (vB (view_of (store L)))(block_hash E b \<mapsto> b)"
      using ledger_step_newest[OF inv process_resultD(2)[OF ok assms(3,4) p] assms(3)] by metis
    moreover have "dbs_wf (dbs (store L'))" using process_resultD(1)[OF ok assms(3,4)] by (simp add: store_ok_def)
    ultimately show ?thesis by (simp add: block_exists_iff)
  qed
  then show ?thesis using code_old[OF wf nz assms(4)] again by (auto simp: return_code_def)
qed

theorem process_old_iff_known_witness:
  "\<exists>L L' ret'. reachable sample_env L \<and> process sample_env sample_clock L' sample_send = Some (ret', L') \<and> ret_code ret' = Old \<and>
    block_hash sample_env sample_send \<notin> dom (blk (dbs (store L)))"
proof (rule sample_run)
  fix L0 L1
  assume r: "reachable sample_env L0" and "\<exists>ret. process sample_env sample_clock L0 sample_send = Some (ret, L1) \<and> ret_code ret = Progress"
  then obtain ret where p: "process sample_env sample_clock L0 sample_send = Some (ret, L1)" "ret_code ret = Progress" by blast
  from process_old_iff_known[OF r sample_env_ok sample_hash_sane p(1), of sample_clock] p(2) r show ?thesis
    by (metis process_result.distinct(3))
qed

text \<open>
  C15: only the owner moves an account. When a block is accepted there is exactly one account whose
  record changes: the block is its new head, and the block carries a valid signature of that account.
\<close>

theorem only_owner_moves:
  assumes "reachable E L" "env_ok E" "hash_sane E b" "process E T L b = Some (ret, L')" "ret_code ret = Progress"
  shows "\<exists>a. \<not> validate_message E a (block_hash E b) (block_signature b) \<and> latest (store L') a = block_hash E b
    \<and> accounts (store L') |` (- {a}) = accounts (store L) |` (- {a})"
proof -
  have st: "ledger_step E T (view_of (store L)) b (view_of (store L'))"
    by (rule process_resultD(2)[OF reachable_store_ok[OF assms(1,2)] assms(3-5)])
  then obtain a r v P where a: "signed E a b" "view_of (store L') = v_append T a (block_hash E b) b r v P (view_of (store L))"
    by (cases rule: ledger_step.cases) (auto simp del: view_of_sel)
  have A: "accounts (store L') = (accounts (store L))(a \<mapsto> new_info T (view_of (store L)) a (block_hash E b) r v)"
    using arg_cong[OF a(2), of vA] by (simp add: v_append_sel)
  have "head (new_info T (view_of (store L)) a (block_hash E b) r v) = block_hash E b"
    by (simp add: new_info_def split: option.split)
  then show ?thesis using a(1) A by (intro exI[of _ a]) (auto simp: signed_def latest_def account_get_def restrict_map_def fun_eq_iff)
qed

theorem only_owner_moves_witness:
  "\<exists>L ret L' a. reachable sample_env L \<and> process sample_env sample_clock L sample_send = Some (ret, L') \<and> \<not> validate_message sample_env a (block_hash sample_env sample_send) (block_signature sample_send) \<and>
    latest (store L') a = block_hash sample_env sample_send \<and> accounts (store L') |` (- {a}) = accounts (store L) |` (- {a})"
proof (rule sample_run)
  fix L0 L1
  assume r: "reachable sample_env L0" and "\<exists>ret. process sample_env sample_clock L0 sample_send = Some (ret, L1) \<and> ret_code ret = Progress"
  then obtain ret where p: "process sample_env sample_clock L0 sample_send = Some (ret, L1)" "ret_code ret = Progress" by blast
  from only_owner_moves[OF r sample_env_ok sample_hash_sane p] r p(1) show ?thesis by blast
qed



text \<open>
  C17: a gap names what is missing. When \<open>process\<close> answers with a missing source, \<open>block_source\<close>
  gives the hash the block waits for and it is not in the ledger; when it answers with a missing
  predecessor, the predecessor is not in the ledger, but for a state block that names a predecessor
  although its account has no block yet.
\<close>

theorem gaps_name_missing_blocks:
  assumes "reachable E L" "env_ok E" "process E T L b = Some (ret, L')"
  shows "(ret_code ret = Gap_source \<longrightarrow> (\<exists>x. block_source E (store L) b = Some x \<and> x \<notin> dom (blk (dbs (store L)))))
    \<and> (ret_code ret = Gap_previous \<longrightarrow> previous b \<notin> dom (blk (dbs (store L))) \<or>
        (\<exists>tb. b = State tb \<and> accounts (store L) (st_account (state_hashables tb)) = None \<and> previous b \<noteq> 0))"
proof -
  obtain C N where wf: "dbs_wf (dbs (store L))" and inv: "ledger_inv E (view_of (store L)) C N" by (rule reachableE[OF assms(1,2)])
  show ?thesis using code_gap_source[OF wf inv assms(3)] code_gap_previous[OF wf inv assms(3)] by blast
qed

theorem gaps_name_missing_blocks_witness:
  "\<exists>L ret x. reachable sample_env L \<and> process sample_env sample_clock L sample_open = Some (ret, L) \<and> ret_code ret = Gap_source \<and>
    block_source sample_env (store L) sample_open = Some x \<and> x \<notin> dom (blk (dbs (store L)))"
proof (rule sample_run)
  fix L0
  assume r: "reachable sample_env L0" and B: "blk (dbs (store L0)) = [genesis_hash sample_env \<mapsto> Open (genesis_open sample_env)]"
  obtain C N where wf: "dbs_wf (dbs (store L0))" by (rule reachableE[OF r sample_env_ok])
  have p: "process sample_env sample_clock L0 sample_open = Some (return_code Gap_source, L0)"
    using B sample_hashes by (simp add: process_defs sample_open_def[symmetric] block_exists_iff[OF wf] Let_def)
      (simp add: sample_open_def process_defs sample_open_block_def Let_def block_exists_iff[OF wf])
  from gaps_name_missing_blocks[OF r sample_env_ok p] r p show ?thesis by (auto simp: return_code_def)
qed

text \<open>
  C18: a fork has a rival. When \<open>process\<close> answers fork, \<open>forked_block\<close> returns the block of the ledger
  that has the same root, provided that a state block names a predecessor of its own account and that
  an account number is not also the hash of a block.
\<close>

theorem forked_block_finds_rival:
  assumes "reachable E L" "env_ok E" "hash_sane E b" "process E T L b = Some (ret, L')" "ret_code ret = Fork"
    and "\<And>tb. b = State tb \<Longrightarrow> previous b \<noteq> 0 \<Longrightarrow> ledger_account (store L) (previous b) = Some (st_account (state_hashables tb))"
    and "previous b = 0 \<Longrightarrow> root b \<notin> dom (blk (dbs (store L)))"
  shows "\<exists>x. forked_block E (store L) b = Some x \<and> root x = root b \<and> blk (dbs (store L)) (block_hash E x) = Some x"
proof -
  obtain C N where "dbs_wf (dbs (store L))" "ledger_inv E (view_of (store L)) C N" by (rule reachableE[OF assms(1,2)])
  from forked_block_correct[OF this assms(3-7)] show ?thesis .
qed

theorem forked_block_finds_rival_witness:
  "\<exists>L ret x. reachable sample_env L \<and> process sample_env sample_clock L sample_rival = Some (ret, L) \<and> ret_code ret = Fork \<and>
    forked_block sample_env (store L) sample_rival = Some x \<and> root x = root sample_rival"
proof (rule sample_run)
  fix L2
  assume r: "reachable sample_env L2" and
    B: "blk (dbs (store L2)) = [genesis_hash sample_env \<mapsto> Open (genesis_open sample_env), block_hash sample_env sample_send \<mapsto> sample_send,
       block_hash sample_env sample_open \<mapsto> sample_open]" and
    "\<exists>i. accounts (store L2) 5 = Some i \<and> head i = block_hash sample_env sample_open \<and> balance i = - 8"
  then obtain i where i: "accounts (store L2) 5 = Some i" by blast
  obtain C N where wf: "dbs_wf (dbs (store L2))" by (rule reachableE[OF r sample_env_ok])
  have p: "process sample_env sample_clock L2 sample_rival = Some (return_code Fork, L2)"
    using sample_signed[of 5 sample_rival] sample_rival_fresh i
    by (simp add: sample_rival_def process_defs Let_def block_exists_iff[OF wf] B signed_def account_get_def)
  have "root sample_rival = 5" by (simp add: sample_rival_def)
  moreover have "5 \<notin> dom (blk (dbs (store L2)))" using B sample_hash_not_5 by (auto simp: genesis_hash_def)
  ultimately show ?thesis
    using forked_block_finds_rival[OF r sample_env_ok sample_hash_sane p] r p by (auto simp: return_code_def sample_rival_def)
qed



section \<open>Encodings\<close>

text \<open>
  C20: a block survives the wire. Serializing a block and reading it back as a block of its type gives
  the block and leaves the rest of the stream; a successful read consumes exactly the bytes that
  serializing the result produces, so every byte string has at most one reading.
\<close>

theorem block_round_trip:
  "deserialize_block_typed (type_of b) (serialize b @ rest) = Some (Some (b, rest)) \<and>
   (deserialize_block_typed t bs = Some (Some (c, rest)) \<longleftrightarrow> t = type_of c \<and> bs = serialize c @ rest)"
  using serialize_deserialize[of t bs c rest] by auto

text \<open>
  C21: what a signature covers. Two blocks with the same hashed bytes have the same kind and the same
  hashed members, except that a receive block and a change block may be confused: their members
  have the same layout and their kind is not hashed.
\<close>

theorem hash_input_determines_block:
  assumes "hash_input a = hash_input b"
  shows "(case (a, b) of
      (Send x, Send y) \<Rightarrow> send_hashables x = send_hashables y
    | (Receive x, Receive y) \<Rightarrow> receive_hashables x = receive_hashables y
    | (Open x, Open y) \<Rightarrow> open_hashables x = open_hashables y
    | (Change x, Change y) \<Rightarrow> change_hashables x = change_hashables y
    | (State x, State y) \<Rightarrow> state_hashables x = state_hashables y
    | (Receive x, Change y) \<Rightarrow> r_previous (receive_hashables x) = c_previous (change_hashables y)
        \<and> r_source (receive_hashables x) = c_representative (change_hashables y)
    | (Change x, Receive y) \<Rightarrow> c_previous (change_hashables x) = r_previous (receive_hashables y)
        \<and> c_representative (change_hashables x) = r_source (receive_hashables y)
    | _ \<Rightarrow> False)"
proof -
  have "length (hash_input a) = length (hash_input b)" using assms by simp
  then show ?thesis using assms unfolding length_hash_input by (cases a; cases b) (auto simp: hashed_layout)
qed

theorem hash_input_determines_block_witness:
  "hash_input (Receive \<lparr>receive_hashables = \<lparr>r_previous = 1, r_source = 2\<rparr>, receive_signature = 0, receive_work = 0\<rparr>) =
     hash_input (Change \<lparr>change_hashables = \<lparr>c_previous = 1, c_representative = 2\<rparr>, change_signature = 3, change_work = 4\<rparr>) \<and>
   r_source \<lparr>r_previous = 1, r_source = 2\<rparr> = c_representative \<lparr>c_previous = 1, c_representative = 2\<rparr>"
proof -
  have eq: "hash_input (Receive \<lparr>receive_hashables = \<lparr>r_previous = 1, r_source = 2\<rparr>, receive_signature = 0, receive_work = 0\<rparr>) =
     hash_input (Change \<lparr>change_hashables = \<lparr>c_previous = 1, c_representative = 2\<rparr>, change_signature = 3, change_work = 4\<rparr>)"
    by (simp add: receive_hashables_bytes_def change_hashables_bytes_def)
  show ?thesis by (rule conjI[OF eq]) (rule hash_input_determines_block[OF eq, simplified prod.case block.case, THEN conjunct2, simplified receive_block.select_convs change_block.select_convs])
qed

text \<open>
  C22: a vote survives the wire, in the format of the database and in the format of the network, where
  the type of its block is known from the message header.
\<close>

theorem vote_round_trip:
  "read_vote (vote_serialize v @ rest) = Some (Some (v, rest)) \<and>
   read_vote_typed (type_of (vote_block v)) (vote_serialize_typed v @ rest) = Some (Some (v, rest))"
  by (simp add: codec_simps)

text \<open>
  C23: \<open>vote::deserialize\<close> never reads a vote: it passes the value-initialised block type, which is
  the invalid type, to the reader of blocks.
\<close>

theorem vote_deserialize_never_succeeds:
  "vote_deserialize bs \<noteq> Some (Some (v, rest))"
  by (simp add: vote_deserialize_def read_vote_with_def split: option.split)


text \<open>
  C25: LMDB's order is the model's order. The database compares keys byte by byte; on pending keys
  that is the order of the accounts and, for one account, of the hashes.
\<close>

theorem pending_keys_in_byte_order:
  "pending_key_serialize a < pending_key_serialize b \<longleftrightarrow> a < b"
  by (rule pending_key_byte_order)

section \<open>The block store\<close>



text \<open>
  C27: flushing is invisible. Writing the caches to the database changes neither the current vote of
  any account nor, for any hash, the set of unchecked blocks that wait for it.
\<close>

theorem flush_is_invisible:
  assumes "unchecked_get s h = Some bs"
  shows "vote_current (flush s) a = vote_current s a \<and> (\<exists>bs'. unchecked_get (flush s) h = Some bs' \<and> set bs' = set bs)"
  using unchecked_get_flush[OF assms] vote_current_flush[of s a] by metis

theorem flush_is_invisible_witness:
  "vote_current (flush (empty_store\<lparr>unchecked_cache := [(7, sample_open)]\<rparr>)) 3 = vote_current (empty_store\<lparr>unchecked_cache := [(7, sample_open)]\<rparr>) 3 \<and>
   (\<exists>bs'. unchecked_get (flush (empty_store\<lparr>unchecked_cache := [(7, sample_open)]\<rparr>)) 7 = Some bs' \<and> set bs' = set [Some sample_open])"
  by (rule flush_is_invisible) (simp add: unchecked_get_def empty_store_def)

text \<open>
  C28: votes only move forward. \<open>vote_max\<close> returns, of the stored and the given vote of an account,
  one with the greatest sequence number, stores it as the current vote of that account and leaves
  every other account's vote alone.
\<close>

theorem vote_max_keeps_newest:
  assumes "vote_max s v = Some (r, s')"
  shows "(\<exists>c. vote_current s (vote_account v) = Some c \<and> r \<in> insert v (set_option c) \<and>
      (\<forall>u \<in> insert v (set_option c). vote_sequence u \<le> vote_sequence r)) \<and>
    (\<forall>a. vote_current s' a = (if a = vote_account v then Some (Some r) else vote_current s a))"
proof -
  obtain c where c: "vote_current s (vote_account v) = Some c"
    "r = (case c of Some c \<Rightarrow> if vote_sequence c > vote_sequence v then c else v | None \<Rightarrow> v)"
    "s' = s\<lparr>vote_cache := (vote_cache s)(vote_account v \<mapsto> r)\<rparr>" by (rule vote_max_cases[OF assms])
  have "r \<in> insert v (set_option c) \<and> (\<forall>u \<in> insert v (set_option c). vote_sequence u \<le> vote_sequence r)"
    using c(2) by (auto split: option.splits)
  moreover have "vote_get s' a = vote_get s a" for a using c(3) by (simp add: vote_get_def)
  then have "vote_current s' a = (if a = vote_account v then Some (Some r) else vote_current s a)" for a
    using c(3) by (simp add: vote_current_def split: option.split)
  ultimately show ?thesis using c(1) by blast
qed

theorem vote_max_keeps_newest_witness:
  "\<exists>s'. vote_max empty_store \<lparr>vote_sequence = 4, vote_block = sample_open, vote_account = 5, vote_signature = 0\<rparr> =
      Some (\<lparr>vote_sequence = 4, vote_block = sample_open, vote_account = 5, vote_signature = 0\<rparr>, s') \<and>
    vote_current s' 5 = Some (Some \<lparr>vote_sequence = 4, vote_block = sample_open, vote_account = 5, vote_signature = 0\<rparr>)"
proof -
  let ?v = "\<lparr>vote_sequence = 4, vote_block = sample_open, vote_account = 5, vote_signature = 0\<rparr>"
  have m: "vote_max empty_store ?v = Some (?v, empty_store\<lparr>vote_cache := [5 \<mapsto> ?v]\<rparr>)"
    by (simp add: vote_max_def vote_current_def vote_get_def empty_store_def Let_def)
  from vote_max_keeps_newest[OF m] m show ?thesis by auto
qed



section \<open>Queries, votes and statistics\<close>

text \<open>
  C30: \<open>account_pending\<close> on a reachable ledger returns the sum of the amounts of all pending sends
  to the account, and the sum does not wrap around. The greatest account number is the exception:
  the end of its range is computed with a wrap-around to zero.
\<close>

theorem account_pending_is_sum:
  assumes "reachable E L" "env_ok E" "a \<noteq> - 1"
  shows "\<exists>w. account_pending (store L) a = Some w \<and>
    unat w = (\<Sum>k \<in> {k \<in> dom (pending (store L)). key_account k = a}. unat (pending_amount (the (pending (store L) k))))"
proof -
  obtain C N where inv: "ledger_inv E (view_of (store L)) C N" by (rule reachableE[OF assms(1,2)])
  note I = ledger_invD[OF inv]
  have fin: "finite (dom (pending (store L)))" using I(12) by (simp add: finite_ok_def)
  let ?K = "{k \<in> dom (pending (store L)). key_account k = a}" and ?f = "\<lambda>k. pending_amount (the (pending (store L) k))"
  have "(\<Sum>k \<in> ?K. unat (?f k)) \<le> msum (\<lambda>p. unat (pending_amount p)) (pending (store L))"
    unfolding msum_def using fin by (intro sum_mono2) auto
  also have "\<dots> < 2 ^ 128" using I(10) by (simp add: supply_ok_def total_supply_def)
  finally have "unat (\<Sum>k \<in> ?K. ?f k) = (\<Sum>k \<in> ?K. unat (?f k))" using fin by (intro unat_sum_words) auto
  then show ?thesis using account_pending_sum[OF fin assms(3)] by simp
qed

theorem account_pending_is_sum_witness:
  "\<exists>L w. reachable sample_env L \<and> account_pending (store L) 5 = Some w \<and>
    unat w = (\<Sum>k \<in> {k \<in> dom (pending (store L)). key_account k = 5}. unat (pending_amount (the (pending (store L) k))))"
proof (rule sample_run)
  fix L1
  assume r: "reachable sample_env L1"
  have "(5 :: u256) \<noteq> - 1" by simp
  from account_pending_is_sum[OF r sample_env_ok this] r show ?thesis by blast
qed

text \<open>
  C31: an election is decided by weight. The winner of a set of votes is a block that was voted for,
  its total is the sum of the weights of the representatives that voted for it, no block voted for
  has a greater total, and there is a winner as soon as there is a vote.
\<close>

theorem winner_has_greatest_weight:
  "(\<forall>w b L'. winner L vs = Some ((w, b), L') \<longrightarrow>
      b \<in> snd ` set (rep_votes vs) \<and> w = voted_weight L (rep_votes vs) b \<and>
      (\<forall>c \<in> snd ` set (rep_votes vs). voted_weight L (rep_votes vs) c \<le> w)) \<and>
   (winner L vs = None \<longleftrightarrow> rep_votes vs = [])"
proof -
  obtain t L' where t: "tally L vs = (t, L')" by fastforce
  have "t = [] \<longleftrightarrow> rep_votes vs = []" using tally_correct(2)[OF t] by (metis image_is_empty set_empty)
  then have "winner L vs = None \<longleftrightarrow> rep_votes vs = []" using t by (auto simp: winner_def split: list.split)
  then show ?thesis using winner_correct[of L vs] by blast
qed

theorem winner_has_greatest_weight_witness:
  "\<exists>L w b L'. reachable sample_env L \<and> winner L (new_votes 0 sample_open) = Some ((w, b), L') \<and>
    b \<in> {sample_open} \<and> w = voted_weight L [(0, sample_open)] b"
proof (rule sample_run)
  fix L0
  assume r: "reachable sample_env L0"
  have v: "rep_votes (new_votes 0 sample_open) = [(0, sample_open)]" by (simp add: new_votes_def)
  then obtain w b L' where w: "winner L0 (new_votes 0 sample_open) = Some ((w, b), L')"
    using winner_has_greatest_weight[of L0 "new_votes 0 sample_open"] by (cases "winner L0 (new_votes 0 sample_open)") auto
  with winner_has_greatest_weight[of L0 "new_votes 0 sample_open"] v r show ?thesis by auto
qed


text \<open>
  C33: counters count. Adding to a statistic adds to the counter of its detail and, unless only the
  detail is wanted, to the counter of its type, modulo the width of a counter; no other counter
  changes.
\<close>

theorem stat_add_counts:
  "fst (stat_count T (stat_add T' st t d r v only) t' d' r') = fst (stat_count T st t' d' r') +
    (if t' = t \<and> r' = r \<and> (d' = d \<or> d' = Sd_all \<and> \<not> only) then v else 0)"
  unfolding stat_count_eq count_of_add
  by (cases "t' = t"; cases "r' = r"; cases "d' = d"; cases "d' = Sd_all"; cases only; cases "d = Sd_all") simp_all



section \<open>Account text\<close>

text \<open>
  C34: The text \<open>to_account\<close> writes for an account is \<open>xrb_\<close> and sixty characters, and
  \<open>decode_account\<close> reads the account back from it, also when the prefix is written with a hyphen or
  as \<open>nano\<close>, whatever the object held before. The hash primitive is only taken to return as many
  bytes as it is asked for.
\<close>
theorem account_text_round_trip:
  assumes "check_fits E"
  shows "\<exists>s. to_account E a = Some (''xrb_'' @ s) \<and> length s = 60
    \<and> (\<forall>p \<in> {''xrb_'', ''xrb-'', ''nano_'', ''nano-''}. \<forall>this. decode_account E this (p @ s) = Some (False, a))"
proof (intro exI conjI ballI allI)
  show "to_account E a = Some (''xrb_'' @ digits_text 60 (account_number E a))"
    unfolding to_account_def by (rule encode_account_text [OF assms])
  show "length (digits_text 60 (account_number E a)) = 60" by (rule digits_text_props)
  fix p this assume "p \<in> {''xrb_'', ''xrb-'', ''nano_'', ''nano-''}"
  then show "decode_account E this (p @ digits_text 60 (account_number E a)) = Some (False, a)"
    by (intro decode_encoded [OF assms]) (simp add: account_prefixes_def)
qed

theorem account_text_round_trip_witness:
  "\<exists>s. to_account sample_env 78 = Some (''xrb_'' @ s) \<and> decode_account sample_env 0 (''nano-'' @ s) = Some (False, 78)"
proof -
  obtain s where "to_account sample_env 78 = Some (''xrb_'' @ s)"
    "\<forall>p \<in> {''xrb_'', ''xrb-'', ''nano_'', ''nano-''}. \<forall>this. decode_account sample_env this (p @ s) = Some (False, 78)"
    using account_text_round_trip [OF sample_check_fits, of 78] by blast
  then show ?thesis by blast
qed

text \<open>
  C35: A text whose characters behind the prefix all belong to the account alphabet is accepted for
  one account only, and it is the text \<open>to_account\<close> writes for that account, up to the spelling of
  the prefix: no digit of it can be mistyped within the alphabet and still name the same account.
\<close>
theorem account_text_unique:
  assumes "check_fits E" "decode_account E this t = Some (False, a)" "set (drop 5 t) \<subseteq> set account_lookup"
  shows "\<exists>p \<in> {''xrb_'', ''xrb-'', ''nano_'', ''nano-''}. \<exists>s. t = p @ s \<and> to_account E a = Some (''xrb_'' @ s)"
proof -
  obtain p s where t: "p \<in> set account_prefixes" "t = p @ s" "length s = 60" "s ! 0 = CHR ''1'' \<or> s ! 0 = CHR ''3''"
    using assms(2) by (rule decode_account_accepts)
  have "list_all account_char s"
    using t assms(3) account_text_alphabet by blast
  then have "s = digits_text 60 (account_number E a)"
    using decode_unique [OF assms(1)] assms(2) t by blast
  then have "to_account E a = Some (''xrb_'' @ s)"
    unfolding to_account_def using encode_account_text [OF assms(1)] by simp
  then show ?thesis using t(1,2) by (auto simp: account_prefixes_def)
qed

theorem account_text_unique_witness:
  "\<exists>p \<in> {''xrb_'', ''xrb-'', ''nano_'', ''nano-''}. \<exists>s. sample_text = p @ s \<and> to_account sample_env 78 = Some (''xrb_'' @ s)"
proof (rule account_text_unique [OF sample_check_fits])
  show "decode_account sample_env 0 sample_text = Some (False, 78)"
    using decode_encoded [OF sample_check_fits, of "''xrb_''" 0 78]
    unfolding sample_text_number by (simp add: account_prefixes_def)
  show "set (drop 5 sample_text) \<subseteq> set account_lookup"
    by (simp add: sample_text_def account_lookup_def)
qed



section \<open>The work pool\<close>

text \<open>
  C37: In every interleaving of the worker threads with calls of \<open>generate\<close>, \<open>cancel\<close> and \<open>stop\<close>
  of fewer than \<open>2 ^ 32\<close> steps, no thread fails an assertion, no request is answered more often than
  it was made, and a nonce that is handed to a callback is valid work for a root requested with that
  callback, provided the OpenCL function the pool may have been built with returns valid work only.
\<close>
theorem work_pool_answers:
  assumes "pool_reach E opencl seeds n R" "opencl_valid E opencl" "n < 2 ^ 32"
  shows "(\<forall>i < length (run_workers R). worker_step E i (run_pool R) (run_workers R ! i) \<noteq> None)
    \<and> mset (map fst (answered (run_pool R))) \<subseteq># mset (map snd (run_asked R))
    \<and> (\<forall>cb w. (cb, Some w) \<in> set (answered (run_pool R)) \<longrightarrow>
         (\<exists>root_a. (root_a, cb) \<in> set (run_asked R) \<and> \<not> work_validate E root_a w))"
proof -
  have inv: "pool_inv E n R" using assms by (rule pool_reach_inv)
  then have "\<forall>a \<in> set (answered (run_pool R)). answer_ok E (set (run_asked R)) a"
    by (simp add: pool_inv_def list_all_iff)
  then show ?thesis
    using pool_inv_no_abort [OF inv] pool_inv_answers [OF inv] by (fastforce simp: answer_ok_def)
qed

theorem work_pool_answers_witness:
  "\<exists>R. pool_reach sample_env None [sample_seed] 6 R \<and> answered (run_pool R) = [(7, Some (- 1))]
     \<and> run_asked R = [(5, 7)] \<and> \<not> work_validate sample_env 5 (- 1)"
proof (intro exI conjI)
  let ?R = "sample_stage (sample_pool 1 [] [(7, Some (- 1))] [True]) (Top sample_seed_after)"
  show "pool_reach sample_env None [sample_seed] 6 ?R" by (rule sample_pool_run)
  show a: "answered (run_pool ?R) = [(7, Some (- 1))]" "run_asked ?R = [(5, 7)]"
    by (simp_all add: sample_stage_def sample_pool_def)
  show "\<not> work_validate sample_env 5 (- 1)"
    using work_pool_answers [OF sample_pool_run] a by (auto simp: opencl_valid_def)
qed

section \<open>Messages\<close>

text \<open>
  C38: The parser of incoming datagrams hands a message to the node exactly when the datagram is the
  binary form of that message, byte for byte, the message is one of the four kinds that travel as
  datagrams with a header that fits its body, and the block in it carries valid work; it then
  reports success. The messages the node builds itself are of that form.
\<close>
theorem parser_accepts_exactly:
  "(deserialize_buffer E bs = Some (st, Some m) \<longleftrightarrow>
      st = Parse_success \<and> message_serialize E m = Some bs \<and> datagram m \<and> good_work E m)
    \<and> datagram new_keepalive \<and> datagram (new_publish b) \<and> datagram (new_confirm_req b) \<and> datagram (new_confirm_ack v)"
  by (simp only: deserialize_buffer_accepts new_messages_datagram simp_thms)

text \<open>
  C39: The datagrams on which the parser fails an assertion are exactly those with the magic number
  of the network, the type of a publish, confirm-request or confirm-acknowledge message (the latter
  with at least the 104 bytes before the block) and a block type in the header that is none of the
  five: such a datagram stops a node built with assertions.
\<close>
theorem parser_aborts_exactly:
  "deserialize_buffer E bs = None \<longleftrightarrow>
     (\<exists>h rest. bs = header_serialize E h @ rest
       \<and> header_block_type h \<notin> block_type_code ` {Bt_send, Bt_receive, Bt_open, Bt_change, Bt_state}
       \<and> (header_is h Mt_publish \<or> header_is h Mt_confirm_req \<or> header_is h Mt_confirm_ack \<and> 104 \<le> length rest))"
  unfolding deserialize_buffer_aborts real_block_type_def by auto

end
